(* ===== verification/Prelude.thy ===== *)
theory Prelude
  imports Main "HOL-Library.Word" "HOL-Library.Signed_Division"
begin

text \<open>
  Shared vocabulary of the development: the machine integer types of the runtime's C++ code
  (uint64_t/uintptr_t, uint32_t/unsigned, uint16_t, uint8_t), the faults with which the runtime
  stops the process, the sequencing of fallible operations, and generic facts on powers of two,
  on words and on lists that several components use.

  Pointers are the 64-bit words the LP64 targets use; \<open>nil\<close> is the word 0. A C
  unsigned counter that the code compares and adds is kept as a natural number with the
  wrap-around written out by \<open>u32w\<close>; a value the code masks and shifts is a word.
\<close>

unbundle bit_operations_syntax

type_synonym u64 = "64 word"
type_synonym u32 = "32 word"
type_synonym u16 = "16 word"
type_synonym u8 = "8 word"
type_synonym ptr = u64

abbreviation nil :: ptr where
  "nil \<equiv> 0"

named_theorems rt_simps \<open>equations that evaluate operations of the runtime model\<close>

section \<open>Faults and sequencing\<close>

text \<open>
  The runtime reports unrecoverable states by stopping the process: \<open>_objc_fatal\<close>, or the
  abort of \<open>os_unfair_lock\<close> on recursive locking and on unlocking by a thread that is not the
  owner. Each is a constructor of \<open>fault\<close>; an operation that may stop returns \<open>fault + 'a\<close>.
\<close>

datatype fault =
    FatalCorruptHashTables
  | UnfairLockRecursion
  | UnfairLockNotOwner
  | BadWeakTable
  | CannotFormWeakReference
  | AssertFailed
  | NullDereference
  | TaggedPointersDisabled
  | InvalidTagIndex
  | TagUsedTwice
  | ForbidsAssociatedObjects

definition bindE :: "fault + 'a \<Rightarrow> ('a \<Rightarrow> fault + 'b) \<Rightarrow> fault + 'b" where
  "bindE m f = (case m of Inl e \<Rightarrow> Inl e | Inr x \<Rightarrow> f x)"

lemma bindE_Inl [simp]: "bindE (Inl e) f = Inl e"
  by (simp add: bindE_def)

lemma bindE_Inr [simp]: "bindE (Inr x) f = f x"
  by (simp add: bindE_def)

lemma bindE_eq_Inr: "bindE m f = Inr y \<longleftrightarrow> (\<exists>x. m = Inr x \<and> f x = Inr y)"
  by (cases m) auto

lemma bindE_cong [fundef_cong]:
  "m = m' \<Longrightarrow> (\<And>x. m' = Inr x \<Longrightarrow> f x = g x) \<Longrightarrow> bindE m f = bindE m' g"
  by (cases m') (auto simp: bindE_def)

section \<open>Unsigned 32-bit arithmetic on counters\<close>

text \<open>The value a C \<open>unsigned\<close> holds after a computation whose exact result is \<open>n\<close>.\<close>

definition u32w :: "nat \<Rightarrow> nat" where
  "u32w n = n mod 2 ^ 32"

lemma u32w_id [simp]: "n < 2 ^ 32 \<Longrightarrow> u32w n = n"
  by (simp add: u32w_def)

lemma u32w_less [simp]: "u32w n < 2 ^ 32"
  by (simp add: u32w_def)

text \<open>Subtraction of \<open>unsigned\<close> values: it wraps below zero.\<close>

definition u32sub :: "nat \<Rightarrow> nat \<Rightarrow> nat" where
  "u32sub a b = u32w (a + 2 ^ 32 - b)"

lemma u32sub_id: "b \<le> a \<Longrightarrow> a < 2 ^ 32 \<Longrightarrow> u32sub a b = a - b"
proof -
  assume ba: "b \<le> a" and a: "a < 2 ^ 32"
  have "a + 2 ^ 32 - b = (a - b) + 2 ^ 32" using ba by (rule Nat.add_diff_assoc2 [symmetric])
  then have "u32sub a b = (a - b) mod 2 ^ 32"
    by (simp only: u32sub_def u32w_def mod_add_self2)
  also have "\<dots> = a - b" using a by (intro mod_less) linarith
  finally show ?thesis .
qed

section \<open>Powers of two\<close>

definition is_pow2 :: "nat \<Rightarrow> bool" where
  "is_pow2 n \<longleftrightarrow> (\<exists>k. n = 2 ^ k)"

lemma is_pow2_pow [intro, simp]: "is_pow2 (2 ^ k)"
  by (auto simp: is_pow2_def)

lemma is_pow2_pos: "is_pow2 n \<Longrightarrow> 0 < n"
  by (auto simp: is_pow2_def)

lemma and_pow2_minus_1: "(h::nat) AND (2 ^ k - 1) = h mod 2 ^ k"
  by (simp only: mask_eq_exp_minus_1 [symmetric] take_bit_eq_mask [symmetric] take_bit_eq_mod)

lemma and_mask_is_pow2: "is_pow2 n \<Longrightarrow> (h::nat) AND (n - 1) = h mod n"
  unfolding is_pow2_def using and_pow2_minus_1 by blast

section \<open>Options\<close>

lemma option_eqI: "(\<And>v. x = Some v \<longleftrightarrow> y = Some v) \<Longrightarrow> x = y"
  by (cases x; cases y) auto

section \<open>Words\<close>

lemma word_eq_iff_bit:
  "(a :: 'a::len word) = b \<longleftrightarrow> (\<forall>n<LENGTH('a). bit a n = bit b n)"
  by (auto intro: bit_word_eqI)

lemma and_not_eq_self:
  fixes a m :: "'a::len word"
  shows "a AND m = 0 \<Longrightarrow> a AND NOT m = a"
  by (auto simp: word_eq_iff_bit bit_and_iff bit_not_iff)

lemma unat_of_nat_u32: "n < 2 ^ 32 \<Longrightarrow> unat (of_nat n :: u32) = n"
  by (simp add: unsigned_of_nat take_bit_nat_eq_self)

lemma unat_of_nat_u64: "n < 2 ^ 64 \<Longrightarrow> unat (of_nat n :: u64) = n"
  by (simp add: unsigned_of_nat take_bit_nat_eq_self)

lemma sint_of_nat_u32: "n < 2 ^ 31 \<Longrightarrow> sint (of_nat n :: u32) = int n"
  by (simp add: signed_of_nat signed_take_bit_int_eq_self)

lemma unat_take_bit_mod: "unat (take_bit k (v :: 'a::len word)) = unat v mod 2 ^ k"
  by (subst unsigned_take_bit_eq) (simp only: take_bit_eq_mod)

lemma unat_drop_bit_div: "unat (drop_bit k (v :: 'a::len word)) = unat v div 2 ^ k"
  by (subst unat_drop_bit_eq) (simp only: drop_bit_eq_div)

lemma unat_ge_iff_bit:
  fixes w :: "'a::len word"
  shows "2 ^ i \<le> unat w \<longleftrightarrow> (\<exists>j\<ge>i. bit w j)"
proof -
  have "2 ^ i \<le> unat w \<longleftrightarrow> drop_bit i (unat w) \<noteq> 0"
    by (simp add: drop_bit_eq_div div_eq_0_iff not_less)
  also have "\<dots> \<longleftrightarrow> (\<exists>d. bit (unat w) (i + d))"
    by (auto simp: bit_eq_iff bit_drop_bit_eq)
  also have "\<dots> \<longleftrightarrow> (\<exists>d. bit w (i + d))"
    by (simp add: bit_unsigned_iff)
  also have "\<dots> \<longleftrightarrow> (\<exists>j\<ge>i. bit w j)"
    by (auto simp: le_iff_add)
  finally show ?thesis .
qed

end
