(* ===== verification/MathExtras.thy ===== *)
theory MathExtras
  imports Prelude
begin

text \<open>
  The arithmetic helpers of \<^verbatim>\<open>runtime/llvm-MathExtras.h\<close>.  An
  \<open>int64_t\<close> is a \<open>64 word\<close> read with \<^const>\<open>sint\<close>.  The functions that have
  one body for compilers with the bit-counting builtins and a portable body
  for the others are both here; the portable one carries the suffix
  \<open>_portable\<close> and is proved equal to the first.  Of the population counts only
  the body with the builtin is modelled.
\<close>

section \<open>Definitions\<close>

subsection \<open>Halves and range checks\<close>

definition Hi_32 :: "u64 \<Rightarrow> u32" where
  "Hi_32 Value = ucast (drop_bit 32 Value)"

definition Lo_32 :: "u64 \<Rightarrow> u32" where
  "Lo_32 Value = ucast Value"

definition isInt :: "nat \<Rightarrow> u64 \<Rightarrow> bool" where
  "isInt N x \<longleftrightarrow> N \<ge> 64 \<or> (- (2 ^ (N - 1)) \<le> sint x \<and> sint x < 2 ^ (N - 1))"

definition isInt_8 :: "u64 \<Rightarrow> bool" where
  "isInt_8 x \<longleftrightarrow> sint (ucast x :: 8 word) = sint x"

definition isInt_16 :: "u64 \<Rightarrow> bool" where
  "isInt_16 x \<longleftrightarrow> sint (ucast x :: 16 word) = sint x"

definition isInt_32 :: "u64 \<Rightarrow> bool" where
  "isInt_32 x \<longleftrightarrow> sint (ucast x :: 32 word) = sint x"

definition isShiftedInt :: "nat \<Rightarrow> nat \<Rightarrow> u64 \<Rightarrow> bool" where
  "isShiftedInt N S x \<longleftrightarrow> isInt (N + S) x \<and> sint x smod 2 ^ S = 0"

definition isUInt :: "nat \<Rightarrow> u64 \<Rightarrow> bool" where
  "isUInt N x \<longleftrightarrow> N \<ge> 64 \<or> x < push_bit N 1"

definition isUInt_8 :: "u64 \<Rightarrow> bool" where
  "isUInt_8 x \<longleftrightarrow> ucast (ucast x :: 8 word) = x"

definition isUInt_16 :: "u64 \<Rightarrow> bool" where
  "isUInt_16 x \<longleftrightarrow> ucast (ucast x :: 16 word) = x"

definition isUInt_32 :: "u64 \<Rightarrow> bool" where
  "isUInt_32 x \<longleftrightarrow> ucast (ucast x :: 32 word) = x"

definition isShiftedUInt :: "nat \<Rightarrow> nat \<Rightarrow> u64 \<Rightarrow> bool" where
  "isShiftedUInt N S x \<longleftrightarrow> isUInt (N + S) x \<and> x mod push_bit S 1 = 0"

definition isUIntN :: "nat \<Rightarrow> u64 \<Rightarrow> bool" where
  "isUIntN N x \<longleftrightarrow> x = x AND drop_bit (64 - N) (NOT 0)"

definition isIntN :: "nat \<Rightarrow> u64 \<Rightarrow> bool" where
  "isIntN N x \<longleftrightarrow> N \<ge> 64 \<or> (- (2 ^ (N - 1)) \<le> sint x \<and> sint x < 2 ^ (N - 1))"

subsection \<open>Masks and powers of two\<close>

definition isMask_32 :: "u32 \<Rightarrow> bool" where
  "isMask_32 Value \<longleftrightarrow> Value \<noteq> 0 \<and> (Value + 1) AND Value = 0"

definition isMask_64 :: "u64 \<Rightarrow> bool" where
  "isMask_64 Value \<longleftrightarrow> Value \<noteq> 0 \<and> (Value + 1) AND Value = 0"

definition isShiftedMask_32 :: "u32 \<Rightarrow> bool" where
  "isShiftedMask_32 Value \<longleftrightarrow> isMask_32 ((Value - 1) OR Value)"

definition isShiftedMask_64 :: "u64 \<Rightarrow> bool" where
  "isShiftedMask_64 Value \<longleftrightarrow> isMask_64 ((Value - 1) OR Value)"

definition isPowerOf2_32 :: "u32 \<Rightarrow> bool" where
  "isPowerOf2_32 Value \<longleftrightarrow> Value \<noteq> 0 \<and> Value AND (Value - 1) = 0"

definition isPowerOf2_64 :: "u64 \<Rightarrow> bool" where
  "isPowerOf2_64 Value \<longleftrightarrow> Value \<noteq> 0 \<and> Value AND (Value - 1) = 0"

subsection \<open>Counting bits\<close>

text \<open>The compiler builtins: scans from the most and the least significant
  end, and the number of set bits.\<close>

fun builtin_clz_from :: "nat \<Rightarrow> 'a::len word \<Rightarrow> nat" where
  "builtin_clz_from 0 v = 0"
| "builtin_clz_from (Suc i) v = (if bit v i then 0 else Suc (builtin_clz_from i v))"

definition builtin_clz :: "'a::len word \<Rightarrow> nat" where
  "builtin_clz v = builtin_clz_from LENGTH('a) v"

fun builtin_ctz_from :: "nat \<Rightarrow> nat \<Rightarrow> 'a::len word \<Rightarrow> nat" where
  "builtin_ctz_from 0 i v = 0"
| "builtin_ctz_from (Suc n) i v = (if bit v i then 0 else Suc (builtin_ctz_from n (Suc i) v))"

definition builtin_ctz :: "'a::len word \<Rightarrow> nat" where
  "builtin_ctz v = builtin_ctz_from LENGTH('a) 0 v"

definition builtin_popcount :: "'a::len word \<Rightarrow> nat" where
  "builtin_popcount v = length (filter (bit v) [0..<LENGTH('a)])"

definition CountLeadingZeros_32 :: "u32 \<Rightarrow> nat" where
  "CountLeadingZeros_32 Value = (if Value = 0 then 32 else builtin_clz Value)"

fun clz_bisect :: "nat \<Rightarrow> 'a::len word \<Rightarrow> nat \<Rightarrow> nat" where
  "clz_bisect Shift Value Count =
     (if Shift = 0 then Count
      else let Tmp = drop_bit Shift Value in
        if Tmp \<noteq> 0 then clz_bisect (Shift div 2) Tmp Count
        else clz_bisect (Shift div 2) Value (Count OR Shift))"

declare clz_bisect.simps [simp del]

definition CountLeadingZeros_32_portable :: "u32 \<Rightarrow> nat" where
  "CountLeadingZeros_32_portable Value = (if Value = 0 then 32 else clz_bisect 16 Value 0)"

definition CountLeadingOnes_32 :: "u32 \<Rightarrow> nat" where
  "CountLeadingOnes_32 Value = CountLeadingZeros_32 (NOT Value)"

definition CountLeadingZeros_64 :: "u64 \<Rightarrow> nat" where
  "CountLeadingZeros_64 Value = (if Value = 0 then 64 else builtin_clz Value)"

definition CountLeadingZeros_64_portable :: "bool \<Rightarrow> u64 \<Rightarrow> nat" where
  "CountLeadingZeros_64_portable long_is_64 Value =
     (if long_is_64 then (if Value = 0 then 64 else clz_bisect 32 Value 0)
      else let Hi = Hi_32 Value in
        if Hi \<noteq> 0 then CountLeadingZeros_32_portable Hi
        else CountLeadingZeros_32_portable (Lo_32 Value) + 32)"

definition CountLeadingOnes_64 :: "u64 \<Rightarrow> nat" where
  "CountLeadingOnes_64 Value = CountLeadingZeros_64 (NOT Value)"

definition CountTrailingZeros_32 :: "u32 \<Rightarrow> nat" where
  "CountTrailingZeros_32 Value = (if Value \<noteq> 0 then builtin_ctz Value else 32)"

definition Mod37BitPosition :: "nat list" where
  "Mod37BitPosition = [
    32, 0, 1, 26, 2, 23, 27, 0, 3, 16, 24, 30, 28, 11, 0, 13,
    4, 7, 17, 0, 25, 22, 31, 15, 29, 10, 12, 6, 0, 21, 14, 9,
    5, 20, 8, 19, 18]"

definition CountTrailingZeros_32_portable :: "u32 \<Rightarrow> nat" where
  "CountTrailingZeros_32_portable Value = Mod37BitPosition ! unat ((- Value AND Value) mod 37)"

definition CountTrailingOnes_32 :: "u32 \<Rightarrow> nat" where
  "CountTrailingOnes_32 Value = CountTrailingZeros_32 (NOT Value)"

definition CountTrailingZeros_64 :: "u64 \<Rightarrow> nat" where
  "CountTrailingZeros_64 Value = (if Value \<noteq> 0 then builtin_ctz Value else 64)"

definition Mod67Position :: "nat list" where
  "Mod67Position = [
    64, 0, 1, 39, 2, 15, 40, 23, 3, 12, 16, 59, 41, 19, 24, 54,
    4, 64, 13, 10, 17, 62, 60, 28, 42, 30, 20, 51, 25, 44, 55,
    47, 5, 32, 65, 38, 14, 22, 11, 58, 18, 53, 63, 9, 61, 27,
    29, 50, 43, 46, 31, 37, 21, 57, 52, 8, 26, 49, 45, 36, 56,
    7, 48, 35, 6, 34, 33, 0]"

definition CountTrailingZeros_64_portable :: "u64 \<Rightarrow> nat" where
  "CountTrailingZeros_64_portable Value = Mod67Position ! unat ((- Value AND Value) mod 67)"

definition CountTrailingOnes_64 :: "u64 \<Rightarrow> nat" where
  "CountTrailingOnes_64 Value = CountTrailingZeros_64 (NOT Value)"

definition CountPopulation_32 :: "u32 \<Rightarrow> nat" where
  "CountPopulation_32 Value = builtin_popcount Value"

definition CountPopulation_64 :: "u64 \<Rightarrow> nat" where
  "CountPopulation_64 Value = builtin_popcount Value"

subsection \<open>Logarithms, divisors, alignment\<close>

text \<open>The results are \<open>unsigned\<close>: \<open>Log2_32 0\<close> wraps to \<open>-1\<close>.\<close>

definition Log2_32 :: "u32 \<Rightarrow> nat" where
  "Log2_32 Value = u32sub 31 (CountLeadingZeros_32 Value)"

definition Log2_64 :: "u64 \<Rightarrow> nat" where
  "Log2_64 Value = u32sub 63 (CountLeadingZeros_64 Value)"

definition Log2_32_Ceil :: "u32 \<Rightarrow> nat" where
  "Log2_32_Ceil Value = u32sub 32 (CountLeadingZeros_32 (Value - 1))"

definition Log2_64_Ceil :: "u64 \<Rightarrow> nat" where
  "Log2_64_Ceil Value = u32sub 64 (CountLeadingZeros_64 (Value - 1))"

function GreatestCommonDivisor64 :: "u64 \<Rightarrow> u64 \<Rightarrow> u64" where
  "GreatestCommonDivisor64 A B =
     (if B \<noteq> 0 then GreatestCommonDivisor64 B (A mod B) else A)"
  by auto
termination
  by (relation "measure (\<lambda>(A, B). unat B)") (simp_all add: unat_mod unat_gt_0)

declare GreatestCommonDivisor64.simps [simp del]

definition MinAlign :: "u64 \<Rightarrow> u64 \<Rightarrow> u64" where
  "MinAlign A B = (A OR B) AND - (A OR B)"

definition NextPowerOf2_64 :: "u64 \<Rightarrow> u64" where
  "NextPowerOf2_64 A0 = (
     let A = A0 OR drop_bit 1 A0;
         A = A OR drop_bit 2 A;
         A = A OR drop_bit 4 A;
         A = A OR drop_bit 8 A;
         A = A OR drop_bit 16 A;
         A = A OR drop_bit 32 A
     in A + 1)"

definition NextPowerOf2_32 :: "u32 \<Rightarrow> u32" where
  "NextPowerOf2_32 A0 = (
     let A = A0 OR drop_bit 1 A0;
         A = A OR drop_bit 2 A;
         A = A OR drop_bit 4 A;
         A = A OR drop_bit 8 A;
         A = A OR drop_bit 16 A
     in A + 1)"

definition RoundUpToAlignment :: "u64 \<Rightarrow> u64 \<Rightarrow> u64" where
  "RoundUpToAlignment Value Align = ((Value + Align - 1) div Align) * Align"

definition OffsetToAlignment :: "u64 \<Rightarrow> u64 \<Rightarrow> u64" where
  "OffsetToAlignment Value Align = RoundUpToAlignment Value Align - Value"

definition abs64 :: "u64 \<Rightarrow> u64" where
  "abs64 x = (if sint x < 0 then - x else x)"

definition SignExtend32 :: "u32 \<Rightarrow> nat \<Rightarrow> u32" where
  "SignExtend32 X B = signed_drop_bit (32 - B) (push_bit (32 - B) X)"

definition SignExtend64 :: "u64 \<Rightarrow> nat \<Rightarrow> u64" where
  "SignExtend64 X B = signed_drop_bit (64 - B) (push_bit (64 - B) X)"

section \<open>Lowest set bit\<close>

lemma word_lowest_bitE:
  fixes v :: "'a::len word"
  assumes "v \<noteq> 0"
  obtains c where "bit v c" "\<forall>j<c. \<not> bit v j" "c < LENGTH('a)"
proof -
  obtain i where i: "bit v i" using assms by (auto simp: bit_eq_iff)
  define c where "c = (LEAST i. bit v i)"
  have "bit v c" unfolding c_def using i by (rule LeastI)
  moreover have "\<forall>j<c. \<not> bit v j" unfolding c_def using not_less_Least by blast
  ultimately show ?thesis using that bit_imp_le_length by blast
qed

definition high_part :: "nat \<Rightarrow> 'a::len word \<Rightarrow> 'a word" where
  "high_part k v = push_bit k (drop_bit k v)"

lemma bit_high_part: "bit (high_part k v) i \<longleftrightarrow> k \<le> i \<and> bit (v :: 'a::len word) i"
  by (auto simp: high_part_def bit_push_bit_iff bit_drop_bit_eq dest: bit_imp_le_length)

lemma low_bit_split:
  fixes v :: "'a::len word"
  assumes "bit v c" "\<forall>j<c. \<not> bit v j"
  shows "v = high_part (Suc c) v + 2 ^ c"
proof -
  have "v = high_part (Suc c) v OR 2 ^ c"
    using assms bit_imp_le_length [OF assms(1)]
    by (intro bit_word_eqI) (auto simp: bit_or_iff bit_high_part bit_exp_iff not_less_eq_eq
        intro: le_antisym leI)
  also have "\<dots> = high_part (Suc c) v + 2 ^ c"
    by (rule disjunctive_add [symmetric]) (auto simp: bit_high_part bit_exp_iff)
  finally show ?thesis .
qed

lemma low_bit_minus_1:
  fixes v :: "'a::len word"
  assumes "bit v c" "\<forall>j<c. \<not> bit v j"
  shows "v - 1 = high_part (Suc c) v OR mask c"
proof -
  have "v - 1 = high_part (Suc c) v + mask c"
    by (subst (1) low_bit_split [OF assms]) (simp add: mask_eq_exp_minus_1)
  also have "\<dots> = high_part (Suc c) v OR mask c"
    by (rule disjunctive_add) (auto simp: bit_high_part bit_mask_iff)
  finally show ?thesis .
qed

lemma bit_minus_1_low:
  fixes v :: "'a::len word"
  assumes "bit v c" "\<forall>j<c. \<not> bit v j"
  shows "bit (v - 1) i \<longleftrightarrow> i < c \<or> (c < i \<and> bit v i)"
  unfolding low_bit_minus_1 [OF assms]
  using bit_imp_le_length [OF assms(1)]
  by (auto simp: bit_or_iff bit_high_part bit_mask_iff Suc_le_eq)

lemma bit_neg_low:
  fixes v :: "'a::len word"
  assumes "bit v c" "\<forall>j<c. \<not> bit v j"
  shows "bit (- v) i \<longleftrightarrow> i < LENGTH('a) \<and> (i = c \<or> (c < i \<and> \<not> bit v i))"
  unfolding minus_eq_not_minus_1 [of v] bit_not_iff bit_minus_1_low [OF assms]
  by auto

lemma low_bit_isolate:
  fixes v :: "'a::len word"
  assumes "bit v c" "\<forall>j<c. \<not> bit v j"
  shows "- v AND v = 2 ^ c"
  using assms bit_imp_le_length [OF assms(1)]
  by (intro bit_word_eqI) (auto simp: bit_and_iff bit_neg_low [OF assms] bit_exp_iff)

lemma and_minus_1_low:
  fixes v :: "'a::len word"
  assumes "bit v c" "\<forall>j<c. \<not> bit v j"
  shows "v AND (v - 1) = high_part (Suc c) v"
  using assms
  by (intro bit_word_eqI) (auto simp: bit_and_iff bit_minus_1_low [OF assms] bit_high_part Suc_le_eq)

lemma and_minus_1_eq_0_iff:
  fixes v :: "'a::len word"
  shows "v \<noteq> 0 \<and> v AND (v - 1) = 0 \<longleftrightarrow> (\<exists>n<LENGTH('a). v = 2 ^ n)"
proof
  assume v: "v \<noteq> 0 \<and> v AND (v - 1) = 0"
  then obtain c where c: "bit v c" "\<forall>j<c. \<not> bit v j" "c < LENGTH('a)"
    using word_lowest_bitE by blast
  have "high_part (Suc c) v = 0" using v and_minus_1_low [OF c(1,2)] by metis
  then have "v = 2 ^ c" using low_bit_split [OF c(1,2)] by (metis add_0)
  with c show "\<exists>n<LENGTH('a). v = 2 ^ n" by blast
next
  assume "\<exists>n<LENGTH('a). v = 2 ^ n"
  then obtain n where n: "n < LENGTH('a)" "v = 2 ^ n" by blast
  then have b: "bit v n" "\<forall>j<n. \<not> bit v j" by (auto simp: bit_exp_iff)
  have "high_part (Suc n) v = 0"
    by (rule bit_word_eqI) (auto simp: bit_high_part n bit_exp_iff)
  then have "v AND (v - 1) = 0" by (simp only: and_minus_1_low [OF b])
  moreover have "v \<noteq> 0" using b by auto
  ultimately show "v \<noteq> 0 \<and> v AND (v - 1) = 0" by blast
qed

lemma bit_plus_1_low:
  fixes v :: "'a::len word"
  assumes "\<not> bit v c" "\<forall>j<c. bit v j" "c < LENGTH('a)"
  shows "bit (v + 1) i \<longleftrightarrow> i = c \<or> (c < i \<and> bit v i)"
proof -
  have w: "bit (NOT v) c" "\<forall>j<c. \<not> bit (NOT v) j"
    using assms by (auto simp: bit_not_iff)
  have "v + 1 = NOT (NOT v - 1)" by (simp add: not_diff_distrib)
  then have "bit (v + 1) i \<longleftrightarrow> i < LENGTH('a) \<and> \<not> bit (NOT v - 1) i"
    by (simp add: bit_not_iff)
  then show ?thesis
    using assms bit_imp_le_length [of v i]
    by (auto simp: bit_minus_1_low [OF w] bit_not_iff)
qed

lemma word_lowest_zeroE:
  fixes v :: "'a::len word"
  obtains c where "c \<le> LENGTH('a)" "\<not> bit v c" "\<forall>j<c. bit v j"
proof -
  define c where "c = (LEAST i. \<not> bit v i)"
  have z: "\<not> bit v LENGTH('a)" using bit_imp_le_length by blast
  have "\<not> bit v c" unfolding c_def using z by (rule LeastI)
  moreover have "c \<le> LENGTH('a)" unfolding c_def using z by (rule Least_le)
  moreover have "\<forall>j<c. bit v j" unfolding c_def using not_less_Least by blast
  ultimately show ?thesis using that by blast
qed

lemma plus_1_and_low:
  fixes v :: "'a::len word"
  assumes "\<not> bit v c" "\<forall>j<c. bit v j" "c \<le> LENGTH('a)"
  shows "(v + 1) AND v = high_part c v" and "v = high_part c v OR mask c"
proof -
  show or: "v = high_part c v OR mask c"
    using assms by (intro bit_word_eqI) (auto simp: bit_or_iff bit_high_part bit_mask_iff)
  show "(v + 1) AND v = high_part c v"
  proof (cases "c < LENGTH('a)")
    case True
    with assms show ?thesis
      by (intro bit_word_eqI) (auto simp: bit_and_iff bit_plus_1_low bit_high_part le_less)
  next
    case False
    then have v: "v = mask c" using assms by (subst or) (auto intro!: bit_word_eqI simp: bit_or_iff bit_high_part)
    with False assms(3) have "v + 1 = 0" by (simp add: mask_eq_exp_minus_1)
    moreover have "high_part c v = 0"
      using assms(1) by (intro bit_word_eqI) (auto simp: bit_high_part v bit_mask_iff)
    ultimately show ?thesis by simp
  qed
qed

lemma plus_1_and_eq_0_iff:
  fixes v :: "'a::len word"
  shows "v \<noteq> 0 \<and> (v + 1) AND v = 0 \<longleftrightarrow> (\<exists>n. 0 < n \<and> n \<le> LENGTH('a) \<and> v = mask n)"
proof
  assume v: "v \<noteq> 0 \<and> (v + 1) AND v = 0"
  obtain c where c: "c \<le> LENGTH('a)" "\<not> bit v c" "\<forall>j<c. bit v j" by (rule word_lowest_zeroE)
  have "v = mask c" using plus_1_and_low [OF c(2,3,1)] v by (metis or.left_neutral)
  with v c(1) show "\<exists>n. 0 < n \<and> n \<le> LENGTH('a) \<and> v = mask n" by (cases c) auto
next
  assume "\<exists>n. 0 < n \<and> n \<le> LENGTH('a) \<and> v = mask n"
  then obtain n where n: "0 < n" "n \<le> LENGTH('a)" "v = mask n" by blast
  then have b: "\<not> bit v n" "\<forall>j<n. bit v j" by (auto simp: bit_mask_iff)
  have "high_part n v = 0" by (rule bit_word_eqI) (auto simp: bit_high_part n bit_mask_iff)
  with plus_1_and_low(1) [OF b n(2)] have "(v + 1) AND v = 0" by simp
  moreover have "v \<noteq> 0" using b n by auto
  ultimately show "v \<noteq> 0 \<and> (v + 1) AND v = 0" by blast
qed

section \<open>Masks and powers of two\<close>

lemma isMask_32_iff: "isMask_32 v \<longleftrightarrow> (\<exists>n. 0 < n \<and> n \<le> 32 \<and> v = mask n)"
  unfolding isMask_32_def using plus_1_and_eq_0_iff [of v] by simp

lemma isMask_64_iff: "isMask_64 v \<longleftrightarrow> (\<exists>n. 0 < n \<and> n \<le> 64 \<and> v = mask n)"
  unfolding isMask_64_def using plus_1_and_eq_0_iff [of v] by simp

lemma isPowerOf2_32_iff: "isPowerOf2_32 v \<longleftrightarrow> (\<exists>n<32. v = 2 ^ n)"
  unfolding isPowerOf2_32_def using and_minus_1_eq_0_iff [of v] by simp

lemma isPowerOf2_64_iff: "isPowerOf2_64 v \<longleftrightarrow> (\<exists>n<64. v = 2 ^ n)"
  unfolding isPowerOf2_64_def using and_minus_1_eq_0_iff [of v] by simp

lemma shifted_mask_low:
  fixes v :: "'a::len word"
  assumes "bit v c" "\<forall>j<c. \<not> bit v j"
  shows "(v - 1) OR v = v OR mask c"
  using assms bit_imp_le_length [OF assms(1)]
  by (intro bit_word_eqI) (auto simp: bit_or_iff bit_minus_1_low [OF assms] bit_mask_iff)

lemma shifted_mask_iff:
  fixes v :: "'a::len word"
  shows "(\<exists>n. 0 < n \<and> n \<le> LENGTH('a) \<and> (v - 1) OR v = mask n) \<longleftrightarrow>
    v = 0 \<or> (\<exists>s n. 0 < n \<and> s + n \<le> LENGTH('a) \<and> v = push_bit s (mask n))"
    (is "?L \<longleftrightarrow> ?R")
proof (cases "v = 0")
  case True
  have "(0 - 1) OR 0 = (mask LENGTH('a) :: 'a word)"
    by (rule bit_word_eqI) (simp add: bit_mask_iff bit_minus_1_iff)
  then show ?thesis using True by (metis le_refl len_gt_0)
next
  case False
  then obtain c where c: "bit v c" "\<forall>j<c. \<not> bit v j" "c < LENGTH('a)"
    by (rule word_lowest_bitE)
  show ?thesis
  proof
    assume ?L
    then obtain n where n: "0 < n" "n \<le> LENGTH('a)" "v OR mask c = mask n"
      using shifted_mask_low [OF c(1,2)] by metis
    have eq: "bit v i \<or> i < c \<longleftrightarrow> i < n" if "i < LENGTH('a)" for i
      using n(3) that by (simp add: word_eq_iff_bit bit_or_iff bit_mask_iff)
    have "c < n" using eq [of c] c by simp
    moreover have "v = push_bit c (mask (n - c))"
    proof (rule bit_word_eqI)
      fix i assume i: "i < LENGTH('a)"
      have "bit v i \<longleftrightarrow> c \<le> i \<and> i < n" using eq [OF i] c(2) by (metis not_less)
      then show "bit v i \<longleftrightarrow> bit (push_bit c (mask (n - c)) :: 'a word) i"
        using i by (auto simp: bit_push_bit_iff bit_mask_iff)
    qed
    ultimately show ?R using n by (intro disjI2 exI [of _ c] exI [of _ "n - c"]) auto
  next
    assume ?R
    then obtain t n where n: "0 < n" "t + n \<le> LENGTH('a)" "v = push_bit t (mask n)"
      using False by blast
    then have b: "bit v t" "\<forall>j<t. \<not> bit v j" by (auto simp: bit_push_bit_iff bit_mask_iff)
    have "(v - 1) OR v = push_bit t (mask n) OR mask t"
      using shifted_mask_low [OF b] n(3) by metis
    also have "\<dots> = mask (t + n)"
      by (rule bit_word_eqI) (auto simp: bit_or_iff bit_push_bit_iff bit_mask_iff)
    finally show ?L using n by (intro exI [of _ "t + n"]) auto
  qed
qed

lemma isShiftedMask_32_iff:
  "isShiftedMask_32 v \<longleftrightarrow> v = 0 \<or> (\<exists>s n. 0 < n \<and> s + n \<le> 32 \<and> v = push_bit s (mask n))"
  unfolding isShiftedMask_32_def isMask_32_iff using shifted_mask_iff [of v] by simp

lemma isShiftedMask_64_iff:
  "isShiftedMask_64 v \<longleftrightarrow> v = 0 \<or> (\<exists>s n. 0 < n \<and> s + n \<le> 64 \<and> v = push_bit s (mask n))"
  unfolding isShiftedMask_64_def isMask_64_iff using shifted_mask_iff [of v] by simp

section \<open>Leading zeros and logarithms\<close>

text \<open>\<open>log_of v n\<close>: bit \<open>n\<close> is the most significant set bit of \<open>v\<close>.\<close>

definition log_of :: "'a::len word \<Rightarrow> nat \<Rightarrow> bool" where
  "log_of v n \<longleftrightarrow> 2 ^ n \<le> unat v \<and> unat v < 2 ^ Suc n"

lemma log_of_unique: "log_of v n \<Longrightarrow> log_of v m \<Longrightarrow> n = m"
proof (rule ccontr)
  assume *: "log_of v n" "log_of v m" "n \<noteq> m"
  have "(2::nat) ^ Suc a \<le> 2 ^ b" if "a < b" for a b
    using that by (intro power_increasing) auto
  with * show False unfolding log_of_def by (metis leD linorder_neqE_nat order_le_less_trans)
qed

lemma log_of_iff_bit:
  fixes v :: "'a::len word"
  shows "log_of v n \<longleftrightarrow> bit v n \<and> (\<forall>j>n. \<not> bit v j)"
  unfolding log_of_def using unat_ge_iff_bit [of n v] unat_ge_iff_bit [of "Suc n" v]
  by (metis Suc_le_eq le_neq_implies_less not_less)

lemma builtin_clz_from_le: "builtin_clz_from i v \<le> i"
  by (induction i) auto

lemma builtin_clz_from_spec:
  assumes "\<exists>j<i. bit v j"
  shows "builtin_clz_from i v < i \<and> bit v (i - 1 - builtin_clz_from i v) \<and>
    (\<forall>j<i. i - 1 - builtin_clz_from i v < j \<longrightarrow> \<not> bit v j)"
  using assms
proof (induction i)
  case (Suc i)
  show ?case
  proof (cases "bit v i")
    case False
    then have "\<exists>j<i. bit v j" using Suc.prems less_Suc_eq by auto
    from Suc.IH [OF this] False show ?thesis by (auto simp: less_Suc_eq)
  qed auto
qed simp

lemma builtin_clz_spec:
  fixes v :: "'a::len word"
  assumes "v \<noteq> 0"
  shows "builtin_clz v < LENGTH('a)" and "log_of v (LENGTH('a) - 1 - builtin_clz v)"
proof -
  obtain c where "bit v c" "c < LENGTH('a)" using assms by (rule word_lowest_bitE)
  then have ex: "\<exists>j<LENGTH('a). bit v j" by blast
  note * = builtin_clz_from_spec [OF ex, folded builtin_clz_def]
  show "builtin_clz v < LENGTH('a)" using * by blast
  show "log_of v (LENGTH('a) - 1 - builtin_clz v)"
    unfolding log_of_iff_bit using * bit_imp_le_length by blast
qed

lemma log_of_drop_bit:
  fixes v :: "'a::len word"
  assumes "log_of (drop_bit k v) m"
  shows "log_of v (m + k)"
  using assms unfolding log_of_iff_bit
  by (auto simp: bit_drop_bit_eq add.commute) (metis less_diff_conv le_add_diff_inverse less_or_eq_imp_le
      add.commute trans_le_add1 order_le_less_trans le_add1 less_imp_le)

lemma or_pow2_multiple:
  assumes "2 ^ Suc k dvd (C::nat)"
  shows "C OR 2 ^ k = C + 2 ^ k"
proof -
  have "\<not> bit C k" using assms by (auto simp: bit_iff_odd dvd_def)
  then show ?thesis by (intro disjunctive_add [symmetric]) (auto simp: bit_exp_iff)
qed

lemma clz_bisect_log:
  fixes V :: "'a::len word"
  assumes "V \<noteq> 0" "unat V < 2 ^ (2 ^ k)" "2 ^ k dvd C"
  shows "\<exists>n. log_of V n \<and> clz_bisect (2 ^ k div 2) V C + Suc n = C + 2 ^ k"
  using assms
proof (induction k arbitrary: V C)
  case 0
  then have "0 < unat V" "unat V < 2" by (simp_all add: unat_gt_0)
  then have "log_of V 0" unfolding log_of_def by simp
  then show ?case by (auto simp: clz_bisect.simps)
next
  case (Suc k)
  let ?T = "drop_bit (2 ^ k) V"
  have ut: "unat ?T = unat V div 2 ^ (2 ^ k)" by (rule unat_drop_bit_div)
  have step: "clz_bisect (2 ^ Suc k div 2) V C =
    (if ?T \<noteq> 0 then clz_bisect (2 ^ k div 2) ?T C else clz_bisect (2 ^ k div 2) V (C OR 2 ^ k))"
    by (subst clz_bisect.simps) (simp add: Let_def)
  show ?case
  proof (cases "?T = 0")
    case False
    have "unat ?T < 2 ^ (2 ^ k)"
      unfolding ut using Suc.prems(2) by (intro less_mult_imp_div_less) (simp add: mult_2 power_add)
    moreover have "2 ^ k dvd C" using Suc.prems(3) by (auto intro: dvd_mult_right)
    ultimately obtain n where n: "log_of ?T n" "clz_bisect (2 ^ k div 2) ?T C + Suc n = C + 2 ^ k"
      using Suc.IH [of ?T C] False by blast
    from log_of_drop_bit [OF n(1)] have "log_of V (n + 2 ^ k)" .
    with n(2) step False show ?thesis by (intro exI [of _ "n + 2 ^ k"]) simp
  next
    case True
    then have "unat V < 2 ^ (2 ^ k)" using ut by (simp add: div_eq_0_iff)
    moreover have "2 ^ k dvd C OR 2 ^ k"
      unfolding or_pow2_multiple [OF Suc.prems(3)] using Suc.prems(3) by (auto intro: dvd_mult_right)
    ultimately obtain n where "log_of V n"
      "clz_bisect (2 ^ k div 2) V (C OR 2 ^ k) + Suc n = (C OR 2 ^ k) + 2 ^ k"
      using Suc.IH [of V "C OR 2 ^ k"] Suc.prems(1) by blast
    with step True show ?thesis unfolding or_pow2_multiple [OF Suc.prems(3)] by auto
  qed
qed

lemma clz_bisect_eq:
  fixes V :: "'a::len word"
  assumes "V \<noteq> 0" "LENGTH('a) = 2 ^ k"
  shows "clz_bisect (LENGTH('a) div 2) V 0 = builtin_clz V"
proof -
  have "unat V < 2 ^ (2 ^ k)" using unsigned_less [of V] assms(2) by simp
  then obtain n where n: "log_of V n" "clz_bisect (2 ^ k div 2) V 0 + Suc n = 2 ^ k"
    using clz_bisect_log [of V k 0] assms(1) by auto
  have "n = LENGTH('a) - 1 - builtin_clz V"
    using n(1) builtin_clz_spec(2) [OF assms(1)] by (rule log_of_unique)
  then show ?thesis using n(2) assms(2) builtin_clz_spec(1) [OF assms(1)] by simp
qed

lemma CountLeadingZeros_32_portable_eq:
  "CountLeadingZeros_32_portable v = CountLeadingZeros_32 v"
  using clz_bisect_eq [of v 5]
  by (simp add: CountLeadingZeros_32_portable_def CountLeadingZeros_32_def)

lemma CountLeadingZeros_32_log:
  "v \<noteq> 0 \<Longrightarrow> CountLeadingZeros_32 v < 32 \<and> log_of v (31 - CountLeadingZeros_32 v)"
  using builtin_clz_spec [of v] by (simp add: CountLeadingZeros_32_def)

lemma CountLeadingZeros_64_log:
  "v \<noteq> 0 \<Longrightarrow> CountLeadingZeros_64 v < 64 \<and> log_of v (63 - CountLeadingZeros_64 v)"
  using builtin_clz_spec [of v] by (simp add: CountLeadingZeros_64_def)

lemma unat_Hi_32: "unat (Hi_32 v) = unat v div 2 ^ 32"
proof -
  have "unat v < 2 ^ 64" using unsigned_less [of v] by simp
  then have "unat v div 2 ^ 32 < 2 ^ 32" by (intro less_mult_imp_div_less) simp
  then show ?thesis by (simp add: Hi_32_def unsigned_ucast_eq take_bit_nat_eq_self drop_bit_eq_div unat_div)
qed

lemma unat_Lo_32: "unat (Lo_32 v) = unat v mod 2 ^ 32"
  by (simp add: Lo_32_def unsigned_ucast_eq take_bit_eq_mod)

lemma log_of_Hi_32: "log_of (Hi_32 v) n \<Longrightarrow> log_of v (n + 32)"
  using log_of_drop_bit [of 32 v n] by (simp add: log_of_def unat_Hi_32 unat_drop_bit_div)

lemma unat_Lo_32_small: "Hi_32 v = 0 \<Longrightarrow> unat (Lo_32 v) = unat v"
  using unat_Hi_32 [of v] unat_Lo_32 [of v] by (simp add: div_eq_0_iff)

lemma CountLeadingZeros_64_portable_eq:
  "CountLeadingZeros_64_portable long_is_64 v = CountLeadingZeros_64 v"
proof (cases long_is_64)
  case True
  then show ?thesis using clz_bisect_eq [of v 6]
    by (simp add: CountLeadingZeros_64_portable_def CountLeadingZeros_64_def)
next
  case False
  show ?thesis
  proof (cases "Hi_32 v = 0")
    case hi: False
    then have v: "v \<noteq> 0" by (auto simp: Hi_32_def)
    note h = CountLeadingZeros_32_log [OF hi] and w = CountLeadingZeros_64_log [OF v]
    have "31 - CountLeadingZeros_32 (Hi_32 v) + 32 = 63 - CountLeadingZeros_64 v"
      using h w by (blast intro: log_of_unique log_of_Hi_32)
    then have "CountLeadingZeros_32 (Hi_32 v) = CountLeadingZeros_64 v" using h w by linarith
    then show ?thesis using False hi
      by (simp add: CountLeadingZeros_64_portable_def CountLeadingZeros_32_portable_eq)
  next
    case True
    note lo = unat_Lo_32_small [OF True]
    show ?thesis
    proof (cases "v = 0")
      case v: False
      then have "Lo_32 v \<noteq> 0" using lo by (auto simp: unat_eq_zero)
      note h = CountLeadingZeros_32_log [OF this] and w = CountLeadingZeros_64_log [OF v]
      have "31 - CountLeadingZeros_32 (Lo_32 v) = 63 - CountLeadingZeros_64 v"
        using h w lo by (auto simp: log_of_def intro: log_of_unique [of v, unfolded log_of_def])
      then have "CountLeadingZeros_32 (Lo_32 v) + 32 = CountLeadingZeros_64 v" using h w by linarith
      then show ?thesis using False True
        by (simp add: CountLeadingZeros_64_portable_def CountLeadingZeros_32_portable_eq)
    qed (use False True in \<open>simp add: CountLeadingZeros_64_portable_def CountLeadingZeros_64_def
        CountLeadingZeros_32_portable_def Lo_32_def\<close>)
  qed
qed

lemma Log2_32_log: "v \<noteq> 0 \<Longrightarrow> log_of v (Log2_32 v)"
  using CountLeadingZeros_32_log [of v] by (auto simp: Log2_32_def u32sub_id)

lemma Log2_64_log: "v \<noteq> 0 \<Longrightarrow> log_of v (Log2_64 v)"
  using CountLeadingZeros_64_log [of v] by (auto simp: Log2_64_def u32sub_id)

lemma Log2_zero: "Log2_32 0 = 2 ^ 32 - 1" "Log2_64 0 = 2 ^ 32 - 1"
  by (simp_all add: Log2_32_def Log2_64_def CountLeadingZeros_32_def CountLeadingZeros_64_def
      u32sub_def u32w_def)

lemma unat_minus_1_word: "v \<noteq> 0 \<Longrightarrow> unat (v - 1) = unat (v :: 'a::len word) - 1"
  by (rule unat_minus_one)

lemma Log2_32_Ceil_spec:
  assumes "v \<noteq> 0"
  shows "unat v \<le> 2 ^ Log2_32_Ceil v \<and> (\<forall>k. unat v \<le> 2 ^ k \<longrightarrow> Log2_32_Ceil v \<le> k)"
proof (cases "v = 1")
  case True
  then show ?thesis
    by (simp add: Log2_32_Ceil_def CountLeadingZeros_32_def u32sub_id)
next
  case False
  then have nz: "v - 1 \<noteq> 0" by simp
  note c = CountLeadingZeros_32_log [OF nz]
  define n where "n = 31 - CountLeadingZeros_32 (v - 1)"
  have "Log2_32_Ceil v = 32 - CountLeadingZeros_32 (v - 1)"
    unfolding Log2_32_Ceil_def using c by (intro u32sub_id) auto
  then have n: "Log2_32_Ceil v = Suc n" unfolding n_def using c by linarith
  have pos: "0 < unat v" using assms by (simp add: unat_gt_0)
  have "2 ^ n \<le> unat v - 1" "unat v - 1 < 2 ^ Suc n"
    using c unat_minus_1_word [OF assms] by (auto simp: log_of_def n_def)
  then have lo: "2 ^ n < unat v" and hi: "unat v \<le> 2 ^ Suc n" using pos by linarith+
  have "Suc n \<le> k" if "unat v \<le> 2 ^ k" for k
  proof -
    have "(2::nat) ^ n < 2 ^ k" using lo that by linarith
    then show ?thesis using power_less_imp_less_exp [of 2 n k] by simp
  qed
  then show ?thesis using hi n by simp
qed

section \<open>Trailing zeros\<close>

lemma builtin_ctz_from_spec:
  assumes "\<exists>j<n. bit v (i + j)"
  shows "builtin_ctz_from n i v < n \<and> bit v (i + builtin_ctz_from n i v) \<and>
    (\<forall>j<builtin_ctz_from n i v. \<not> bit v (i + j))"
  using assms
proof (induction n arbitrary: i)
  case (Suc n)
  show ?case
  proof (cases "bit v i")
    case False
    then have "\<exists>j<n. bit v (Suc i + j)" using Suc.prems
      by (metis add.right_neutral add_Suc_shift less_Suc_eq_0_disj)
    from Suc.IH [OF this] False show ?thesis by (auto simp: less_Suc_eq_0_disj)
  qed auto
qed simp

lemma builtin_ctz_spec:
  fixes v :: "'a::len word"
  assumes "v \<noteq> 0"
  shows "builtin_ctz v < LENGTH('a)" "bit v (builtin_ctz v)" "\<forall>j<builtin_ctz v. \<not> bit v j"
proof -
  obtain c where "bit v c" "c < LENGTH('a)" using assms by (rule word_lowest_bitE)
  then have ex: "\<exists>j<LENGTH('a). bit v (0 + j)" by auto
  from builtin_ctz_from_spec [OF ex, folded builtin_ctz_def]
  show "builtin_ctz v < LENGTH('a)" "bit v (builtin_ctz v)" "\<forall>j<builtin_ctz v. \<not> bit v j"
    by auto
qed

lemma Mod37_table: "list_all (\<lambda>c. Mod37BitPosition ! unat ((2 :: u32) ^ c mod 37) = c) [0..<32]"
  by code_simp

lemma Mod67_table: "list_all (\<lambda>c. Mod67Position ! unat ((2 :: u64) ^ c mod 67) = c) [0..<64]"
  by code_simp

lemma CountTrailingZeros_32_portable_eq:
  "CountTrailingZeros_32_portable v = CountTrailingZeros_32 v"
proof (cases "v = 0")
  case False
  note c = builtin_ctz_spec [OF False]
  have "Mod37BitPosition ! unat ((2 :: u32) ^ builtin_ctz v mod 37) = builtin_ctz v"
    using Mod37_table c(1) by (auto simp: list_all_iff)
  then show ?thesis using False
    by (simp add: CountTrailingZeros_32_portable_def CountTrailingZeros_32_def low_bit_isolate [OF c(2,3)])
qed (simp add: CountTrailingZeros_32_portable_def CountTrailingZeros_32_def Mod37BitPosition_def)

lemma CountTrailingZeros_64_portable_eq:
  "CountTrailingZeros_64_portable v = CountTrailingZeros_64 v"
proof (cases "v = 0")
  case False
  note c = builtin_ctz_spec [OF False]
  have "Mod67Position ! unat ((2 :: u64) ^ builtin_ctz v mod 67) = builtin_ctz v"
    using Mod67_table c(1) by (auto simp: list_all_iff)
  then show ?thesis using False
    by (simp add: CountTrailingZeros_64_portable_def CountTrailingZeros_64_def low_bit_isolate [OF c(2,3)])
qed (simp add: CountTrailingZeros_64_portable_def CountTrailingZeros_64_def Mod67Position_def)

lemma MinAlign_spec:
  assumes "A \<noteq> 0 \<or> B \<noteq> 0"
  shows "\<exists>c<64. MinAlign A B = 2 ^ c \<and> 2 ^ c dvd unat A \<and> 2 ^ c dvd unat B \<and>
    \<not> (2 ^ Suc c dvd unat A \<and> 2 ^ Suc c dvd unat B)"
proof -
  have "A OR B \<noteq> 0" using assms by (simp add: or_eq_0_iff)
  then obtain c where c: "bit (A OR B) c" "\<forall>j<c. \<not> bit (A OR B) j" "c < LENGTH(64)"
    by (rule word_lowest_bitE)
  have dvd: "2 ^ k dvd unat w \<longleftrightarrow> (\<forall>j<k. \<not> bit w j)" for k and w :: u64
  proof -
    have "2 ^ k dvd unat w \<longleftrightarrow> take_bit k (unat w) = 0" by (simp add: take_bit_eq_0_iff)
    also have "\<dots> \<longleftrightarrow> (\<forall>j<k. \<not> bit w j)"
      by (auto simp: bit_eq_iff bit_take_bit_iff bit_unsigned_iff)
    finally show ?thesis .
  qed
  have "MinAlign A B = 2 ^ c"
    unfolding MinAlign_def using low_bit_isolate [OF c(1,2)] by (simp add: and.commute)
  then show ?thesis using c
    by (intro exI [of _ c]) (auto simp: dvd bit_or_iff less_Suc_eq simp del: power_Suc)
qed

lemma GreatestCommonDivisor64_gcd: "unat (GreatestCommonDivisor64 A B) = gcd (unat A) (unat B)"
proof (induction A B rule: GreatestCommonDivisor64.induct)
  case (1 A B)
  show ?case
  proof (cases "B = 0")
    case False
    then have "unat (GreatestCommonDivisor64 A B) = gcd (unat B) (unat (A mod B))"
      using 1 by (simp add: GreatestCommonDivisor64.simps [of A B])
    then show ?thesis by (simp add: unat_mod gcd_red_nat [of "unat A" "unat B"])
  qed (simp add: GreatestCommonDivisor64.simps)
qed

section \<open>Next power of two\<close>

text \<open>\<open>smeared n A B\<close>: \<open>B\<close> has a bit set wherever \<open>A\<close> has one at most \<open>n - 1\<close>
  places above.  Each \<open>A |= A >> n\<close> doubles the distance.\<close>

definition smeared :: "nat \<Rightarrow> 'a::len word \<Rightarrow> 'a word \<Rightarrow> bool" where
  "smeared n A B \<longleftrightarrow> (\<forall>i. bit B i \<longleftrightarrow> (\<exists>d<n. bit A (i + d)))"

lemma smeared_1: "smeared 1 A A"
  by (simp add: smeared_def)

lemma smeared_double:
  assumes "smeared n A B"
  shows "smeared (2 * n) A (B OR drop_bit n B)"
proof -
  have "(\<exists>d<n. bit A (i + d)) \<or> (\<exists>d<n. bit A (i + n + d)) \<longleftrightarrow> (\<exists>d<2 * n. bit A (i + d))"
    (is "?l \<or> ?r \<longleftrightarrow> ?g") for i
  proof
    assume ?g
    then obtain d where d: "d < 2 * n" "bit A (i + d)" by blast
    show "?l \<or> ?r"
    proof (cases "d < n")
      case False
      with d have "d - n < n" "bit A (i + n + (d - n))" by auto
      then show ?thesis by blast
    qed (use d in blast)
  next
    assume "?l \<or> ?r"
    then show ?g
    proof
      assume ?r
      then obtain d where "d < n" "bit A (i + (n + d))" by (auto simp: add.assoc)
      then show ?g by (intro exI [of _ "n + d"]) auto
    qed (metis mult_2 trans_less_add1)
  qed
  then show ?thesis using assms
    by (simp add: smeared_def bit_or_iff bit_drop_bit_eq add.commute add.left_commute)
qed

lemma smeared_mask:
  fixes A :: "'a::len word"
  assumes "smeared LENGTH('a) A B" "log_of A n"
  shows "B = mask (Suc n)"
proof (rule bit_word_eqI)
  fix i assume i: "i < LENGTH('a)"
  have n: "bit A n" "\<forall>j>n. \<not> bit A j" "n < LENGTH('a)"
    using assms(2) bit_imp_le_length by (auto simp: log_of_iff_bit)
  have "(\<exists>d<LENGTH('a). bit A (i + d)) \<longleftrightarrow> i \<le> n"
  proof
    assume "i \<le> n"
    with n show "\<exists>d<LENGTH('a). bit A (i + d)" by (intro exI [of _ "n - i"]) auto
  qed (use n in \<open>metis le_add1 le_trans not_le\<close>)
  then show "bit B i \<longleftrightarrow> bit (mask (Suc n) :: 'a word) i"
    using assms(1) i by (simp add: smeared_def bit_mask_iff less_Suc_eq_le)
qed

lemma mask_plus_1_word: "mask k + 1 = (2 ^ k :: 'a::len word)"
  by (simp add: mask_eq_exp_minus_1)

lemma NextPowerOf2_64_log: "log_of A n \<Longrightarrow> NextPowerOf2_64 A = 2 ^ Suc n"
proof -
  assume n: "log_of A n"
  obtain B where B: "NextPowerOf2_64 A = B + 1" "smeared 64 A B"
    using smeared_double [OF smeared_double [OF smeared_double [OF smeared_double [OF
      smeared_double [OF smeared_double [OF smeared_1 [of A]]]]]]]
    by (simp add: NextPowerOf2_64_def Let_def)
  then have "B = mask (Suc n)" using n by (intro smeared_mask [of A]) auto
  then show ?thesis by (simp only: B(1) mask_plus_1_word)
qed

lemma NextPowerOf2_32_log: "log_of A n \<Longrightarrow> NextPowerOf2_32 A = 2 ^ Suc n"
proof -
  assume n: "log_of A n"
  obtain B where B: "NextPowerOf2_32 A = B + 1" "smeared 32 A B"
    using smeared_double [OF smeared_double [OF smeared_double [OF smeared_double [OF
      smeared_double [OF smeared_1 [of A]]]]]]
    by (simp add: NextPowerOf2_32_def Let_def)
  then have "B = mask (Suc n)" using n by (intro smeared_mask [of A]) auto
  then show ?thesis by (simp only: B(1) mask_plus_1_word)
qed

lemma NextPowerOf2_zero: "NextPowerOf2_64 0 = 1" "NextPowerOf2_32 0 = 1"
  by (simp_all add: NextPowerOf2_64_def NextPowerOf2_32_def)

lemma log_of_ex: "v \<noteq> 0 \<Longrightarrow> \<exists>n. log_of v n"
  using builtin_clz_spec(2) by blast

lemma log_of_less_length:
  fixes v :: "'a::len word"
  shows "log_of v n \<Longrightarrow> n < LENGTH('a)"
  by (auto simp: log_of_iff_bit dest: bit_imp_le_length)

lemma unat_exp_word: "n < LENGTH('a) \<Longrightarrow> unat (2 ^ n :: 'a::len word) = 2 ^ n"
  using unsigned_of_nat [of "2 ^ n", where 'b = 'a and 'a = nat] by (simp add: take_bit_nat_eq_self)

text \<open>The least power of two strictly above \<open>A\<close>, and zero when there is none.\<close>

lemma next_pow2_spec:
  fixes A R :: "'a::len word"
  assumes "A = 0 \<Longrightarrow> R = 1" "\<And>n. log_of A n \<Longrightarrow> R = 2 ^ Suc n" "unat A < 2 ^ (LENGTH('a) - 1)"
  shows "is_pow2 (unat R)" and "unat A < unat R" and "unat A < 2 ^ k \<Longrightarrow> unat R \<le> 2 ^ k"
proof -
  have "\<exists>m. unat R = 2 ^ m \<and> unat A < 2 ^ m \<and> (m = 0 \<or> 2 ^ (m - 1) \<le> unat A)"
  proof (cases "A = 0")
    case True
    then show ?thesis using assms(1) by (intro exI [of _ 0]) simp
  next
    case False
    then obtain n where n: "log_of A n" using log_of_ex by blast
    have "(2::nat) ^ n < 2 ^ (LENGTH('a) - 1)" using n assms(3) unfolding log_of_def by linarith
    then have "n < LENGTH('a) - 1" by (rule power_less_imp_less_exp [rotated]) simp
    then have "unat R = 2 ^ Suc n"
      unfolding assms(2) [OF n] by (intro unat_exp_word) simp
    then show ?thesis using n by (intro exI [of _ "Suc n"]) (auto simp: log_of_def)
  qed
  then obtain m where m: "unat R = 2 ^ m" "unat A < 2 ^ m" "m = 0 \<or> 2 ^ (m - 1) \<le> unat A" by blast
  show "is_pow2 (unat R)" "unat A < unat R" using m by auto
  assume k: "unat A < 2 ^ k"
  have "m \<le> k"
  proof (cases m)
    case (Suc m')
    have "(2::nat) ^ m' \<le> unat A" using m(3) Suc by simp
    with k have "(2::nat) ^ m' < 2 ^ k" by (rule le_less_trans [rotated])
    then have "m' < k" by (rule power_less_imp_less_exp [rotated]) simp
    then show ?thesis using Suc by simp
  qed simp
  then show "unat R \<le> 2 ^ k" unfolding m(1) by (simp add: power_increasing)
qed

lemma NextPowerOf2_64_spec:
  assumes "unat A < 2 ^ 63"
  shows "is_pow2 (unat (NextPowerOf2_64 A))" and "unat A < unat (NextPowerOf2_64 A)"
    and "unat A < 2 ^ k \<Longrightarrow> unat (NextPowerOf2_64 A) \<le> 2 ^ k"
  using next_pow2_spec [of A "NextPowerOf2_64 A"] NextPowerOf2_zero NextPowerOf2_64_log assms by auto

lemma NextPowerOf2_32_spec:
  assumes "unat A < 2 ^ 31"
  shows "is_pow2 (unat (NextPowerOf2_32 A))" and "unat A < unat (NextPowerOf2_32 A)"
    and "unat A < 2 ^ k \<Longrightarrow> unat (NextPowerOf2_32 A) \<le> 2 ^ k"
  using next_pow2_spec [of A "NextPowerOf2_32 A"] NextPowerOf2_zero NextPowerOf2_32_log assms by auto

lemma NextPowerOf2_64_overflow:
  assumes "2 ^ 63 \<le> unat A"
  shows "NextPowerOf2_64 A = 0"
proof -
  have "log_of A 63" using assms unsigned_less [of A] by (simp add: log_of_def)
  then have "NextPowerOf2_64 A = 2 ^ Suc 63" by (rule NextPowerOf2_64_log)
  then show ?thesis by simp
qed

lemma NextPowerOf2_32_overflow:
  assumes "2 ^ 31 \<le> unat A"
  shows "NextPowerOf2_32 A = 0"
proof -
  have "log_of A 31" using assms unsigned_less [of A] by (simp add: log_of_def)
  then have "NextPowerOf2_32 A = 2 ^ Suc 31" by (rule NextPowerOf2_32_log)
  then show ?thesis by simp
qed

section \<open>Alignment\<close>

lemma RoundUpToAlignment_spec:
  assumes "0 < unat Align" "unat Value + unat Align - 1 < 2 ^ 64"
  shows "unat (RoundUpToAlignment Value Align) = (unat Value + unat Align - 1) div unat Align * unat Align"
    and "unat Value \<le> unat (RoundUpToAlignment Value Align)"
    and "unat Align dvd m \<Longrightarrow> unat Value \<le> m \<Longrightarrow> unat (RoundUpToAlignment Value Align) \<le> m"
proof -
  let ?V = "unat Value" and ?A = "unat Align"
  define q where "q = (?V + ?A - 1) div ?A"
  have qle: "q * ?A \<le> ?V + ?A - 1" unfolding q_def by (rule div_times_less_eq_dividend)
  have "?V + ?A - 1 < q * ?A + ?A" unfolding q_def using assms(1)
    by (metis dividend_less_div_times add.commute)
  then have lo: "?V \<le> q * ?A" by linarith
  have "unat (Value + Align - 1) = ?V + ?A - 1"
  proof -
    have a: "unat (Align - 1) = ?A - 1" using assms(1) by (intro unat_minus_one) auto
    have "Value + Align - 1 = Value + (Align - 1)" by simp
    then have "unat (Value + Align - 1) = (?V + (?A - 1)) mod 2 ^ 64"
      by (simp only: unat_word_ariths a) simp
    then show ?thesis using assms by simp
  qed
  then have "unat ((Value + Align - 1) div Align) = q" by (simp add: unat_div q_def)
  then have r: "unat (RoundUpToAlignment Value Align) = q * ?A"
    using qle assms(2) by (simp add: RoundUpToAlignment_def unat_word_ariths)
  show "unat (RoundUpToAlignment Value Align) = (?V + ?A - 1) div ?A * ?A"
    using r by (simp add: q_def)
  show "?V \<le> unat (RoundUpToAlignment Value Align)" using r lo by simp
  assume "?A dvd m" "?V \<le> m"
  then obtain j where j: "m = j * ?A" by (auto simp: dvd_def mult.commute)
  have "q * ?A < Suc j * ?A" using qle j \<open>?V \<le> m\<close> assms(1) by simp
  then have "q < Suc j" by (metis mult_less_cancel2)
  then have "q \<le> j" by simp
  then show "unat (RoundUpToAlignment Value Align) \<le> m" using r j by simp
qed

section \<open>Range checks and sign extension\<close>

lemma sint_ucast_take:
  "LENGTH('b::len) \<le> LENGTH('a::len) \<Longrightarrow>
    sint (ucast (x :: 'a word) :: 'b word) = signed_take_bit (LENGTH('b) - 1) (sint x)"
  unfolding signed_ucast_eq by (subst sint_uint) (simp add: min_def diff_le_mono)

lemma isInt_8_eq: "isInt_8 x \<longleftrightarrow> isInt 8 x"
  by (simp add: isInt_8_def isInt_def sint_ucast_take signed_take_bit_int_eq_self_iff)

lemma isInt_16_eq: "isInt_16 x \<longleftrightarrow> isInt 16 x"
  by (simp add: isInt_16_def isInt_def sint_ucast_take signed_take_bit_int_eq_self_iff)

lemma isInt_32_eq: "isInt_32 x \<longleftrightarrow> isInt 32 x"
  by (simp add: isInt_32_def isInt_def sint_ucast_take signed_take_bit_int_eq_self_iff)

lemma sign_extend_word:
  fixes X :: "'a::len word"
  assumes "0 < B" "B \<le> LENGTH('a)"
  shows "signed_drop_bit (LENGTH('a) - B) (push_bit (LENGTH('a) - B) X) = signed_take_bit (B - 1) X"
proof (rule bit_word_eqI)
  fix n assume n: "n < LENGTH('a)"
  show "bit (signed_drop_bit (LENGTH('a) - B) (push_bit (LENGTH('a) - B) X)) n \<longleftrightarrow>
    bit (signed_take_bit (B - 1) X) n"
  proof (cases "n < B")
    case True
    then have "min (B - 1) n = n" by simp
    with True n assms show ?thesis
      by (auto simp: bit_signed_drop_bit_iff bit_push_bit_iff bit_signed_take_bit_iff)
  next
    case False
    then have "min (B - 1) n = B - 1" by simp
    with False n assms show ?thesis
      by (auto simp: bit_signed_drop_bit_iff bit_push_bit_iff bit_signed_take_bit_iff)
  qed
qed

lemma SignExtend32_eq: "0 < B \<Longrightarrow> B \<le> 32 \<Longrightarrow> SignExtend32 X B = signed_take_bit (B - 1) X"
  using sign_extend_word [of B X] by (simp add: SignExtend32_def)

lemma SignExtend64_eq: "0 < B \<Longrightarrow> B \<le> 64 \<Longrightarrow> SignExtend64 X B = signed_take_bit (B - 1) X"
  using sign_extend_word [of B X] by (simp add: SignExtend64_def)

end
