(* ===== verification/Pointers.thy ===== *)
theory Pointers
  imports Prelude
begin

text \<open>
  Pointer-level helpers of the runtime: the hash functions
  (\<^verbatim>\<open>objc-private.h\<close>: \<open>ptr_hash\<close>, \<open>_objc_strhash\<close>), disguised pointers
  (\<open>DisguisedPtr\<close>), signed pointers (\<^verbatim>\<open>objc-ptrauth.h\<close>), tagged unions of
  pointers (\<^verbatim>\<open>PointerUnion.h\<close>), the chained hook, the small vector and the
  lazily created globals (\<^verbatim>\<open>DenseMapExtras.h\<close>).  The pointer authentication
  instructions are parameters; what is used of them is the locale \<open>ptrauth\<close>.
\<close>

section \<open>Hash functions\<close>

definition bswap64 :: "u64 \<Rightarrow> u64" where
  "bswap64 x = foldr (\<lambda>i acc. push_bit (8 * (7 - i)) (drop_bit (8 * i) x AND 0xFF) OR acc) [0..<8] 0"

definition bswap32 :: "u32 \<Rightarrow> u32" where
  "bswap32 x = foldr (\<lambda>i acc. push_bit (8 * (3 - i)) (drop_bit (8 * i) x AND 0xFF) OR acc) [0..<4] 0"

definition ptr_hash :: "u64 \<Rightarrow> u32" where
  "ptr_hash key0 = (
     let key = key0 XOR drop_bit 4 key0;
         key = key * 0x8a970be7488fda55;
         key = key XOR bswap64 key
     in ucast key)"

definition ptr_hash_ilp32 :: "u32 \<Rightarrow> u32" where
  "ptr_hash_ilp32 key0 = (
     let key = key0 XOR drop_bit 4 key0;
         key = key * 0x5052acdb;
         key = key XOR bswap32 key
     in key)"

text \<open>A C string is the list of its bytes; the first zero byte ends it.\<close>

fun objc_strhash_loop :: "u32 \<Rightarrow> u8 list \<Rightarrow> u32" where
  "objc_strhash_loop hash [] = hash"
| "objc_strhash_loop hash (a # s) =
     (if a = 0 then hash else objc_strhash_loop (hash + (push_bit 8 hash + scast a)) s)"

definition objc_strhash :: "u8 list \<Rightarrow> u32" where
  "objc_strhash s = objc_strhash_loop 0 s"

definition c_str :: "u8 list \<Rightarrow> u8 list" where
  "c_str s = takeWhile (\<lambda>a. a \<noteq> 0) s"

section \<open>Disguised pointers\<close>

definition disguise :: "u64 \<Rightarrow> u64" where
  "disguise p = - p"

definition undisguise :: "u64 \<Rightarrow> u64" where
  "undisguise val = - val"

section \<open>Signed pointers\<close>

definition PtrauthRaw_sign :: "u64 \<Rightarrow> u64 \<Rightarrow> u64" where
  "PtrauthRaw_sign p address = p"

definition PtrauthRaw_auth :: "u64 \<Rightarrow> u64 \<Rightarrow> u64" where
  "PtrauthRaw_auth p address = p"

definition PtrauthStrip_sign :: "u64 \<Rightarrow> u64 \<Rightarrow> u64" where
  "PtrauthStrip_sign p address = p"

definition PtrauthStrip_auth :: "(u64 \<Rightarrow> u64) \<Rightarrow> u64 \<Rightarrow> u64 \<Rightarrow> u64" where
  "PtrauthStrip_auth ptrauth_strip p address = ptrauth_strip p"

definition Ptrauth_sign :: "(u64 \<Rightarrow> u64 \<Rightarrow> u64) \<Rightarrow> (u64 \<Rightarrow> u64) \<Rightarrow> u64 \<Rightarrow> u64 \<Rightarrow> u64" where
  "Ptrauth_sign ptrauth_sign_unauthenticated blend p address =
     (if p = nil then nil else ptrauth_sign_unauthenticated p (blend address))"

definition Ptrauth_auth :: "(u64 \<Rightarrow> u64 \<Rightarrow> u64) \<Rightarrow> (u64 \<Rightarrow> u64) \<Rightarrow> u64 \<Rightarrow> u64 \<Rightarrow> u64" where
  "Ptrauth_auth ptrauth_auth_data blend p address =
     (if p = nil then nil else ptrauth_auth_data p (blend address))"

definition WrappedPtr_set :: "(u64 \<Rightarrow> u64 \<Rightarrow> u64) \<Rightarrow> u64 \<Rightarrow> u64 \<Rightarrow> u64" where
  "WrappedPtr_set sign self p = sign p self"

definition WrappedPtr_get :: "(u64 \<Rightarrow> u64 \<Rightarrow> u64) \<Rightarrow> u64 \<Rightarrow> u64 \<Rightarrow> u64" where
  "WrappedPtr_get auth self ptr = auth ptr self"

text \<open>Copying reads through the source's address and signs for the target's.\<close>

definition WrappedPtr_copy ::
  "(u64 \<Rightarrow> u64 \<Rightarrow> u64) \<Rightarrow> (u64 \<Rightarrow> u64 \<Rightarrow> u64) \<Rightarrow> u64 \<Rightarrow> u64 \<Rightarrow> u64 \<Rightarrow> u64" where
  "WrappedPtr_copy sign auth self other ptr = WrappedPtr_set sign self (WrappedPtr_get auth other ptr)"

section \<open>Pointer unions\<close>

datatype union_alt = PT1 | PT2 | PT3 | PT4

fun union_Num :: "union_alt \<Rightarrow> u64" where
  "union_Num PT1 = 0"
| "union_Num PT2 = 1"
| "union_Num PT3 = 2"
| "union_Num PT4 = 3"

definition PointerUnion_getPointer :: "u64 \<Rightarrow> u64" where
  "PointerUnion_getPointer v = v AND NOT 1"

definition PointerUnion_getTag :: "u64 \<Rightarrow> u64" where
  "PointerUnion_getTag v = v AND 1"

definition PointerUnion_T1 :: "(u64 \<Rightarrow> u64 \<Rightarrow> u64) \<Rightarrow> u64 \<Rightarrow> u64 \<Rightarrow> u64" where
  "PointerUnion_T1 sign1 t address = sign1 t address"

definition PointerUnion_T2 :: "(u64 \<Rightarrow> u64 \<Rightarrow> u64) \<Rightarrow> u64 \<Rightarrow> u64 \<Rightarrow> u64" where
  "PointerUnion_T2 sign2 t address = sign2 t address OR 1"

definition PointerUnion_is :: "union_alt \<Rightarrow> u64 \<Rightarrow> bool" where
  "PointerUnion_is T v \<longleftrightarrow> PointerUnion_getTag v = union_Num T"

definition PointerUnion_get ::
  "(u64 \<Rightarrow> u64 \<Rightarrow> u64) \<Rightarrow> union_alt \<Rightarrow> u64 \<Rightarrow> u64 \<Rightarrow> fault + u64" where
  "PointerUnion_get auth T v address =
     (if PointerUnion_is T v then Inr (auth (PointerUnion_getPointer v) address) else Inl AssertFailed)"

definition PointerUnion_dyn_cast ::
  "(u64 \<Rightarrow> u64 \<Rightarrow> u64) \<Rightarrow> union_alt \<Rightarrow> u64 \<Rightarrow> u64 \<Rightarrow> fault + u64" where
  "PointerUnion_dyn_cast auth T v address =
     (if PointerUnion_is T v then PointerUnion_get auth T v address else Inr nil)"

definition PointerUnion4_getPointer :: "u64 \<Rightarrow> u64" where
  "PointerUnion4_getPointer v = v AND NOT 3"

definition PointerUnion4_getTag :: "u64 \<Rightarrow> u64" where
  "PointerUnion4_getTag v = v AND 3"

definition PointerUnion4 :: "union_alt \<Rightarrow> u64 \<Rightarrow> u64" where
  "PointerUnion4 T t = t OR union_Num T"

definition PointerUnion4_is :: "union_alt \<Rightarrow> u64 \<Rightarrow> bool" where
  "PointerUnion4_is T v \<longleftrightarrow> PointerUnion4_getTag v = union_Num T"

definition PointerUnion4_get :: "union_alt \<Rightarrow> u64 \<Rightarrow> fault + u64" where
  "PointerUnion4_get T v =
     (if PointerUnion4_is T v then Inr (PointerUnion4_getPointer v) else Inl AssertFailed)"

definition PointerUnion4_dyn_cast :: "union_alt \<Rightarrow> u64 \<Rightarrow> fault + u64" where
  "PointerUnion4_dyn_cast T v = (if PointerUnion4_is T v then PointerUnion4_get T v else Inr nil)"

section \<open>Chained hooks\<close>

text \<open>
  \<open>ChainedHookFunction::set\<close> retries a compare-and-exchange.  The list \<open>env\<close>
  holds the values that other threads put into the hook between our load and
  each of our attempts: one value per failed attempt.  The result is the new
  hook and the value left in \<open>*oldVariable\<close>.
\<close>

fun ChainedHook_set_loop :: "u64 \<Rightarrow> u64 \<Rightarrow> u64 list \<Rightarrow> u64 \<times> u64" where
  "ChainedHook_set_loop newValue oldValue [] = (newValue, oldValue)"
| "ChainedHook_set_loop newValue oldValue (seen # env) = ChainedHook_set_loop newValue seen env"

definition ChainedHook_set :: "u64 \<Rightarrow> u64 \<Rightarrow> u64 list \<Rightarrow> u64 \<times> u64" where
  "ChainedHook_set hook newValue env = ChainedHook_set_loop newValue hook env"

section \<open>Small vectors\<close>

text \<open>The union of the inline array and the heap pointer: which member is live
  is told by \<open>count\<close> alone.\<close>

datatype 'a sv_storage = SvInline "'a list" | SvHeap "'a list"

record 'a small_vector =
  sv_count :: nat
  sv_storage :: "'a sv_storage"

definition sv_inlineElements :: "'a small_vector \<Rightarrow> 'a list" where
  "sv_inlineElements v = (case sv_storage v of SvInline xs \<Rightarrow> xs | SvHeap xs \<Rightarrow> [])"

definition sv_elements :: "'a small_vector \<Rightarrow> 'a list" where
  "sv_elements v = (case sv_storage v of SvHeap xs \<Rightarrow> xs | SvInline xs \<Rightarrow> [])"

definition GlobalSmallVector_new :: "nat \<Rightarrow> 'a \<Rightarrow> 'a small_vector" where
  "GlobalSmallVector_new InlineCount zero =
     \<lparr>sv_count = 0, sv_storage = SvInline (replicate InlineCount zero)\<rparr>"

definition GlobalSmallVector_append :: "nat \<Rightarrow> 'a small_vector \<Rightarrow> 'a \<Rightarrow> 'a small_vector" where
  "GlobalSmallVector_append InlineCount v val = (
     let count = sv_count v;
         v1 = (if count < InlineCount then
                 v\<lparr>sv_storage := SvInline ((sv_inlineElements v)[count := val])\<rparr>
               else if count = InlineCount then
                 v\<lparr>sv_storage := SvHeap (take count (sv_inlineElements v) @ [val])\<rparr>
               else
                 v\<lparr>sv_storage := SvHeap (take count (sv_elements v) @ [val])\<rparr>)
     in v1\<lparr>sv_count := u32w (count + 1)\<rparr>)"

definition GlobalSmallVector_begin :: "nat \<Rightarrow> 'a small_vector \<Rightarrow> 'a list" where
  "GlobalSmallVector_begin InlineCount v =
     (if sv_count v \<le> InlineCount then sv_inlineElements v else sv_elements v)"

text \<open>What iterating from \<open>begin()\<close> to \<open>end()\<close> visits.\<close>

definition GlobalSmallVector_range :: "nat \<Rightarrow> 'a small_vector \<Rightarrow> 'a list" where
  "GlobalSmallVector_range InlineCount v = take (sv_count v) (GlobalSmallVector_begin InlineCount v)"

definition SmallVector_initFrom ::
  "nat \<Rightarrow> 'a small_vector \<Rightarrow> nat \<Rightarrow> 'a small_vector \<Rightarrow> fault + 'a small_vector" where
  "SmallVector_initFrom InlineCount v OtherCount other =
     (if sv_count v \<noteq> 0 then Inl AssertFailed
      else let xs = GlobalSmallVector_range OtherCount other; n = length xs in
        if n > InlineCount then Inr \<lparr>sv_count = n, sv_storage = SvHeap xs\<rparr>
        else Inr \<lparr>sv_count = n, sv_storage = SvInline (xs @ drop n (sv_inlineElements v))\<rparr>)"

definition small_vector_wf :: "nat \<Rightarrow> 'a small_vector \<Rightarrow> bool" where
  "small_vector_wf InlineCount v \<longleftrightarrow> (case sv_storage v of
     SvInline xs \<Rightarrow> sv_count v \<le> InlineCount \<and> length xs = InlineCount
   | SvHeap xs \<Rightarrow> InlineCount < sv_count v \<and> length xs = sv_count v)"

section \<open>Lazily created globals\<close>

record 'a lazy_init =
  li_storage :: 'a
  li_didInit :: bool

definition ExplicitInit_init :: "'a \<Rightarrow> 'a \<Rightarrow> 'a" where
  "ExplicitInit_init storage v = v"

definition LazyInit_get :: "bool \<Rightarrow> 'a \<Rightarrow> 'a lazy_init \<Rightarrow> 'a lazy_init \<times> 'a option" where
  "LazyInit_get allowCreate fresh l =
     (if \<not> li_didInit l then
        if \<not> allowCreate then (l, None)
        else (l\<lparr>li_storage := fresh, li_didInit := True\<rparr>, Some fresh)
      else (l, Some (li_storage l)))"

section \<open>Properties\<close>

subsection \<open>String hash\<close>

lemma objc_strhash_loop_c_str: "objc_strhash_loop h (c_str s) = objc_strhash_loop h s"
  by (induction h s rule: objc_strhash_loop.induct) (auto simp: c_str_def)

lemma objc_strhash_c_str: "objc_strhash (c_str s) = objc_strhash s"
  by (simp add: objc_strhash_def objc_strhash_loop_c_str)

lemma objc_strhash_loop_horner:
  "objc_strhash_loop h s = foldl (\<lambda>h a. 257 * h + scast a) h (c_str s)"
  by (induction h s rule: objc_strhash_loop.induct)
    (simp_all add: c_str_def push_bit_eq_mult algebra_simps)

subsection \<open>Disguised pointers\<close>

lemma undisguise_disguise [simp]: "undisguise (disguise p) = p"
  by (simp add: disguise_def undisguise_def)

lemma disguise_undisguise [simp]: "disguise (undisguise p) = p"
  by (simp add: disguise_def undisguise_def)

lemma disguise_eq_iff [simp]: "disguise p = disguise q \<longleftrightarrow> p = q"
  by (simp add: disguise_def)

lemma disguise_nil_iff [simp]: "disguise p = nil \<longleftrightarrow> p = nil"
  by (simp add: disguise_def)

lemma disguise_self_iff: "disguise p = p \<longleftrightarrow> p = nil \<or> p = 2 ^ 63"
proof
  assume "disguise p = p"
  then have "p + p = 0" by (simp add: disguise_def)
  then have "push_bit 1 p = 0" by (simp add: push_bit_eq_mult mult.commute)
  then have "\<not> bit (push_bit 1 p) (Suc i)" for i by (simp only: bit_0_eq bot_apply bot_bool_def not_False_eq_True)
  then have z: "\<not> bit p i" if "i < 63" for i
    using that unfolding bit_push_bit_iff by (auto dest: spec [of _ i])
  have "p = (if bit p 63 then 2 ^ 63 else 0)"
  proof (rule bit_word_eqI)
    fix i :: nat assume "i < LENGTH(64)"
    then consider "i < 63" | "i = 63" by fastforce
    then show "bit p i \<longleftrightarrow> bit (if bit p 63 then 2 ^ 63 else 0 :: u64) i"
      using z by cases (auto simp: bit_exp_iff simp del: power_numeral)
  qed
  then show "p = nil \<or> p = 2 ^ 63" by metis
qed (auto simp: disguise_def)

subsection \<open>Signed pointers and pointer unions\<close>

text \<open>What a signing scheme promises: a signed canonical pointer authenticates
  back to itself at the same address, and signing leaves the two low bits.\<close>

locale ptrauth =
  fixes sign auth :: "u64 \<Rightarrow> u64 \<Rightarrow> u64" and canonical :: "u64 \<Rightarrow> bool"
  assumes auth_sign: "canonical p \<Longrightarrow> auth (sign p a) a = p"
    and sign_low: "canonical p \<Longrightarrow> sign p a AND 3 = p AND 3"
begin

lemma wrapped_get_set: "canonical p \<Longrightarrow> WrappedPtr_get auth self (WrappedPtr_set sign self p) = p"
  by (simp add: WrappedPtr_get_def WrappedPtr_set_def auth_sign)

lemma wrapped_copy:
  "canonical p \<Longrightarrow> WrappedPtr_get auth self
     (WrappedPtr_copy sign auth self other (WrappedPtr_set sign other p)) = p"
  by (simp add: WrappedPtr_copy_def wrapped_get_set)

lemma sign_bit0: "canonical p \<Longrightarrow> p AND 1 = 0 \<Longrightarrow> sign p a AND 1 = 0"
proof -
  assume c: "canonical p" and p: "p AND 1 = 0"
  have "x AND 1 = (x AND 3) AND (1::u64)" for x by (simp add: and.assoc)
  then show ?thesis using sign_low [OF c] p by metis
qed

lemma union_T1:
  assumes "canonical t" "t AND 1 = 0"
  shows "PointerUnion_is PT1 (PointerUnion_T1 sign t a)" "\<not> PointerUnion_is PT2 (PointerUnion_T1 sign t a)"
    "PointerUnion_get auth PT1 (PointerUnion_T1 sign t a) a = Inr t"
proof -
  have z: "sign t a AND 1 = 0" using assms by (rule sign_bit0)
  then have "sign t a AND NOT 1 = sign t a" by (rule and_not_eq_self)
  with z show "PointerUnion_is PT1 (PointerUnion_T1 sign t a)" "\<not> PointerUnion_is PT2 (PointerUnion_T1 sign t a)"
    "PointerUnion_get auth PT1 (PointerUnion_T1 sign t a) a = Inr t"
    by (simp_all add: PointerUnion_is_def PointerUnion_T1_def PointerUnion_getTag_def
        PointerUnion_get_def PointerUnion_getPointer_def auth_sign assms)
qed

lemma union_T2:
  assumes "canonical t" "t AND 1 = 0"
  shows "PointerUnion_is PT2 (PointerUnion_T2 sign t a)" "\<not> PointerUnion_is PT1 (PointerUnion_T2 sign t a)"
    "PointerUnion_get auth PT2 (PointerUnion_T2 sign t a) a = Inr t"
proof -
  have z: "sign t a AND 1 = 0" using assms by (rule sign_bit0)
  then have p: "(sign t a OR 1) AND NOT 1 = sign t a"
    by (intro bit_word_eqI) (auto simp: bit_and_iff bit_or_iff bit_not_iff word_eq_iff_bit bit_1_iff)
  have "(sign t a OR 1) AND 1 = 1"
    by (intro bit_word_eqI) (auto simp: bit_and_iff bit_or_iff bit_1_iff)
  with p show "PointerUnion_is PT2 (PointerUnion_T2 sign t a)" "\<not> PointerUnion_is PT1 (PointerUnion_T2 sign t a)"
    "PointerUnion_get auth PT2 (PointerUnion_T2 sign t a) a = Inr t"
    by (simp_all add: PointerUnion_is_def PointerUnion_T2_def PointerUnion_getTag_def
        PointerUnion_get_def PointerUnion_getPointer_def auth_sign assms)
qed

end

interpretation raw_auth: ptrauth PtrauthRaw_sign PtrauthRaw_auth "\<lambda>_. True"
  by unfold_locales (simp_all add: PtrauthRaw_sign_def PtrauthRaw_auth_def)

lemma Ptrauth_is_ptrauth:
  assumes "\<And>p d. canonical p \<Longrightarrow> hw_auth (hw_sign p d) d = p"
    and "\<And>p d. canonical p \<Longrightarrow> p \<noteq> nil \<Longrightarrow> hw_sign p d \<noteq> nil \<and> hw_sign p d AND 3 = p AND 3"
  shows "ptrauth (Ptrauth_sign hw_sign blend) (Ptrauth_auth hw_auth blend) canonical"
  using assms by unfold_locales (auto simp: Ptrauth_sign_def Ptrauth_auth_def)

lemma union_Num_low: "union_Num T AND 3 = union_Num T" "union_Num T AND NOT 3 = 0"
  by (cases T; simp)+

lemma PointerUnion4_roundtrip:
  assumes "t AND 3 = 0"
  shows "PointerUnion4_get T (PointerUnion4 T t) = Inr t"
    and "PointerUnion4_is U (PointerUnion4 T t) \<longleftrightarrow> U = T"
proof -
  have "t AND NOT 3 = t" using assms by (rule and_not_eq_self)
  then have "(t OR union_Num T) AND NOT 3 = t"
    by (simp only: bit.conj_disj_distrib2 union_Num_low or.right_neutral)
  moreover have tag: "(t OR union_Num T) AND 3 = union_Num T"
    using assms by (simp only: bit.conj_disj_distrib2 union_Num_low or.left_neutral)
  ultimately show "PointerUnion4_get T (PointerUnion4 T t) = Inr t"
    by (simp add: PointerUnion4_get_def PointerUnion4_is_def PointerUnion4_def
        PointerUnion4_getTag_def PointerUnion4_getPointer_def)
  show "PointerUnion4_is U (PointerUnion4 T t) \<longleftrightarrow> U = T"
    using tag by (cases U; cases T)
      (simp_all add: PointerUnion4_is_def PointerUnion4_def PointerUnion4_getTag_def)
qed

subsection \<open>Chained hooks, small vectors, lazy globals\<close>

text \<open>The saved value is the one the successful exchange replaced.\<close>

lemma ChainedHook_set_eq: "ChainedHook_set hook newValue env = (newValue, last (hook # env))"
  unfolding ChainedHook_set_def
  by (induction newValue hook env rule: ChainedHook_set_loop.induct) auto

lemma small_vector_wf_new: "small_vector_wf n (GlobalSmallVector_new n z)"
  by (simp add: small_vector_wf_def GlobalSmallVector_new_def)

lemma GlobalSmallVector_append_wf:
  assumes "small_vector_wf n v" "sv_count v + 1 < 2 ^ 32"
  shows "small_vector_wf n (GlobalSmallVector_append n v x)"
  using assms unfolding small_vector_wf_def GlobalSmallVector_append_def
  by (auto simp: Let_def sv_inlineElements_def sv_elements_def split: sv_storage.splits)

lemma GlobalSmallVector_append_range:
  assumes "small_vector_wf n v" "sv_count v + 1 < 2 ^ 32"
  shows "GlobalSmallVector_range n (GlobalSmallVector_append n v x) = GlobalSmallVector_range n v @ [x]"
  using assms unfolding small_vector_wf_def GlobalSmallVector_append_def GlobalSmallVector_range_def
    GlobalSmallVector_begin_def
  by (auto simp: Let_def sv_inlineElements_def sv_elements_def take_Suc_conv_app_nth
      split: sv_storage.splits)

lemma SmallVector_initFrom_range:
  assumes "small_vector_wf n v" "sv_count v = 0" "small_vector_wf m w"
  shows "\<exists>u. SmallVector_initFrom n v m w = Inr u \<and> small_vector_wf n u \<and>
    GlobalSmallVector_range n u = GlobalSmallVector_range m w"
  using assms unfolding small_vector_wf_def SmallVector_initFrom_def GlobalSmallVector_range_def
    GlobalSmallVector_begin_def
  by (auto simp: Let_def sv_inlineElements_def sv_elements_def split: sv_storage.splits)

lemma LazyInit_get_stable:
  assumes "LazyInit_get c f l = (l', Some x)"
  shows "LazyInit_get c' f' l' = (l', Some x)"
  using assms by (auto simp: LazyInit_get_def split: if_splits)

end
