(* ===== verification/DenseMapInfo.thy ===== *)
theory DenseMapInfo
  imports Pointers
begin

text \<open>
  The key traits of \<^verbatim>\<open>llvm-DenseMapInfo.h\<close>: a \<open>DenseMapInfo<T>\<close> is a record
  of its four static functions, one instance per specialisation of the
  template.  The locale \<open>key_info\<close> is what the hash table relies on, and
  every specialisation is an interpretation of it.
\<close>

section \<open>Key traits\<close>

record 'k key_traits =
  getEmptyKey :: 'k
  getTombstoneKey :: 'k
  getHashValue :: "'k \<Rightarrow> u32"
  isEqual :: "'k \<Rightarrow> 'k \<Rightarrow> bool"

definition ptr_info :: "u64 key_traits" where
  "ptr_info = \<lparr>getEmptyKey = - 1, getTombstoneKey = - 2, getHashValue = ptr_hash, isEqual = (=)\<rparr>"

text \<open>The stored key is the disguised word; comparing and hashing go through
  the conversion back to a pointer.\<close>

definition disguised_info :: "u64 key_traits" where
  "disguised_info = \<lparr>
     getEmptyKey = disguise (- 1),
     getTombstoneKey = disguise (- 2),
     getHashValue = (\<lambda>v. ptr_hash (undisguise v)),
     isEqual = (\<lambda>LHS RHS. undisguise LHS = undisguise RHS)\<rparr>"

text \<open>\<open>mem\<close> gives the bytes from an address on, for \<open>strcmp\<close> and the hash.\<close>

definition cstring_info :: "(u64 \<Rightarrow> u8 list) \<Rightarrow> u64 key_traits" where
  "cstring_info mem = \<lparr>
     getEmptyKey = - 1,
     getTombstoneKey = - 2,
     getHashValue = (\<lambda>Val. objc_strhash (mem Val)),
     isEqual = (\<lambda>LHS RHS.
       if LHS = RHS then True
       else if LHS = - 1 \<or> RHS = - 1 then False
       else if LHS = - 2 \<or> RHS = - 2 then False
       else c_str (mem LHS) = c_str (mem RHS))\<rparr>"

definition char_info :: "u8 key_traits" where
  "char_info = \<lparr>getEmptyKey = NOT 0, getTombstoneKey = NOT 0 - 1,
     getHashValue = (\<lambda>Val. scast Val * 37), isEqual = (=)\<rparr>"

definition unsigned_info :: "u32 key_traits" where
  "unsigned_info = \<lparr>getEmptyKey = NOT 0, getTombstoneKey = NOT 0 - 1,
     getHashValue = (\<lambda>Val. Val * 37), isEqual = (=)\<rparr>"

definition unsigned_long_info :: "u64 key_traits" where
  "unsigned_long_info = \<lparr>getEmptyKey = NOT 0, getTombstoneKey = NOT 0 - 1,
     getHashValue = (\<lambda>Val. ucast (Val * 37)), isEqual = (=)\<rparr>"

definition unsigned_long_long_info :: "u64 key_traits" where
  "unsigned_long_long_info = \<lparr>getEmptyKey = NOT 0, getTombstoneKey = NOT 0 - 1,
     getHashValue = (\<lambda>Val. ucast (Val * 37)), isEqual = (=)\<rparr>"

definition int_info :: "u32 key_traits" where
  "int_info = \<lparr>getEmptyKey = 0x7fffffff, getTombstoneKey = - 0x7fffffff - 1,
     getHashValue = (\<lambda>Val. Val * 37), isEqual = (=)\<rparr>"

definition long_info :: "u64 key_traits" where
  "long_info = \<lparr>getEmptyKey = push_bit (8 * 8 - 1) 1 - 1,
     getTombstoneKey = (push_bit (8 * 8 - 1) 1 - 1) - 1,
     getHashValue = (\<lambda>Val. ucast (Val * 37)), isEqual = (=)\<rparr>"

definition long_long_info :: "u64 key_traits" where
  "long_long_info = \<lparr>getEmptyKey = 0x7fffffffffffffff, getTombstoneKey = - 0x7fffffffffffffff - 1,
     getHashValue = (\<lambda>Val. ucast (Val * 37)), isEqual = (=)\<rparr>"

definition pair_hash :: "u32 \<Rightarrow> u32 \<Rightarrow> u32" where
  "pair_hash h1 h2 = (
     let key = push_bit 32 (ucast h1 :: u64) OR ucast h2;
         key = key + NOT (push_bit 32 key);
         key = key XOR drop_bit 22 key;
         key = key + NOT (push_bit 13 key);
         key = key XOR drop_bit 8 key;
         key = key + push_bit 3 key;
         key = key XOR drop_bit 15 key;
         key = key + NOT (push_bit 27 key);
         key = key XOR drop_bit 31 key
     in ucast key)"

definition pair_info :: "'a key_traits \<Rightarrow> 'b key_traits \<Rightarrow> ('a \<times> 'b) key_traits" where
  "pair_info FirstInfo SecondInfo = \<lparr>
     getEmptyKey = (getEmptyKey FirstInfo, getEmptyKey SecondInfo),
     getTombstoneKey = (getTombstoneKey FirstInfo, getTombstoneKey SecondInfo),
     getHashValue = (\<lambda>p. pair_hash (getHashValue FirstInfo (fst p)) (getHashValue SecondInfo (snd p))),
     isEqual = (\<lambda>LHS RHS. isEqual FirstInfo (fst LHS) (fst RHS) \<and>
                           isEqual SecondInfo (snd LHS) (snd RHS))\<rparr>"

text \<open>The default \<open>DenseMapValueInfo\<close>: no value is purgeable.\<close>

definition DenseMapValueInfo_isPurgeable :: "'v \<Rightarrow> bool" where
  "DenseMapValueInfo_isPurgeable v = False"

section \<open>What the table relies on\<close>

text \<open>\<open>isEqual\<close> is an equivalence the hash respects, and the two reserved keys
  differ.\<close>

locale key_info =
  fixes I :: "'k key_traits"
  assumes eq_refl: "isEqual I k k"
    and eq_sym: "isEqual I j k \<Longrightarrow> isEqual I k j"
    and eq_trans: "isEqual I i j \<Longrightarrow> isEqual I j k \<Longrightarrow> isEqual I i k"
    and eq_hash: "isEqual I j k \<Longrightarrow> getHashValue I j = getHashValue I k"
    and empty_tombstone: "\<not> isEqual I (getEmptyKey I) (getTombstoneKey I)"
begin

lemma eq_commute: "isEqual I j k \<longleftrightarrow> isEqual I k j"
  using eq_sym by blast

lemma eq_cong: "isEqual I j k \<Longrightarrow> isEqual I i j \<longleftrightarrow> isEqual I i k"
  using eq_sym eq_trans by blast

lemma eq_cong_left: "isEqual I j k \<Longrightarrow> isEqual I j i \<longleftrightarrow> isEqual I k i"
  using eq_sym eq_trans by blast

lemma tombstone_empty: "\<not> isEqual I (getTombstoneKey I) (getEmptyKey I)"
  using empty_tombstone eq_sym by blast

end

interpretation ptr_info: key_info ptr_info
  by unfold_locales (simp_all add: ptr_info_def)

interpretation disguised_info: key_info disguised_info
  by unfold_locales (simp_all add: disguised_info_def)

lemma objc_strhash_cong: "c_str s = c_str t \<Longrightarrow> objc_strhash s = objc_strhash t"
  by (metis objc_strhash_c_str)

interpretation cstring_info: key_info "cstring_info mem" for mem
  by unfold_locales (auto simp: cstring_info_def intro: objc_strhash_cong split: if_splits)

interpretation char_info: key_info char_info
  by unfold_locales (simp_all add: char_info_def)

interpretation unsigned_info: key_info unsigned_info
  by unfold_locales (simp_all add: unsigned_info_def)

interpretation unsigned_long_info: key_info unsigned_long_info
  by unfold_locales (simp_all add: unsigned_long_info_def)

interpretation unsigned_long_long_info: key_info unsigned_long_long_info
  by unfold_locales (simp_all add: unsigned_long_long_info_def)

interpretation int_info: key_info int_info
  by unfold_locales (simp_all add: int_info_def)

interpretation long_info: key_info long_info
  by unfold_locales (simp_all add: long_info_def)

interpretation long_long_info: key_info long_long_info
  by unfold_locales (simp_all add: long_long_info_def)

lemma pair_info_key_info:
  assumes "key_info A" "key_info B"
  shows "key_info (pair_info A B)"
proof -
  have eq: "isEqual (pair_info A B) p q \<longleftrightarrow>
      isEqual A (fst p) (fst q) \<and> isEqual B (snd p) (snd q)" for p q
    by (simp add: pair_info_def)
  show ?thesis
  proof (unfold_locales, goal_cases)
    case (1 k)
    then show ?case by (simp add: eq key_info.eq_refl assms)
  next
    case (2 j k)
    then show ?case unfolding eq using key_info.eq_sym [OF assms(1)] key_info.eq_sym [OF assms(2)] by blast
  next
    case (3 i j k)
    then show ?case
      unfolding eq using key_info.eq_trans [OF assms(1)] key_info.eq_trans [OF assms(2)] by blast
  next
    case (4 j k)
    then have "getHashValue A (fst j) = getHashValue A (fst k)"
      "getHashValue B (snd j) = getHashValue B (snd k)"
      unfolding eq by (auto intro: key_info.eq_hash [OF assms(1)] key_info.eq_hash [OF assms(2)])
    then show ?case by (simp add: pair_info_def)
  next
    case 5
    then show ?case unfolding eq using key_info.empty_tombstone [OF assms(1)]
      by (simp add: pair_info_def)
  qed
qed

end
