(* ===== verification/DenseMap.thy ===== *)
theory DenseMap
  imports MathExtras DenseMapInfo
begin

text \<open>
  The hash table \<open>objc::DenseMap\<close> of \<^verbatim>\<open>llvm-DenseMap.h\<close>: one flat bucket
  array, quadratic probing, tombstones for erased keys, and the runtime's
  extension that lets an insertion or a rehash reclaim an entry whose value
  is purgeable.  \<open>DenseMapBase\<close> and \<open>DenseMap\<close> are one record and one
  definition per member function.

  A bucket pointer is an index into the array and \<open>nullptr\<close> is \<open>None\<close>; the
  array is the empty list when the table has no storage.  The counters are
  \<open>unsigned\<close> and wrap where the code's arithmetic can.  \<open>ASSERT\<close> failures,
  a dereference of \<open>nullptr\<close> and the fatal "hash table corrupted" stop are
  fault values.
\<close>

section \<open>The table\<close>

text \<open>The template parameters: key traits, \<open>ValueInfoT::isPurgeable\<close>, the
  default-constructed value, what fresh storage holds, and whether key and value
  are trivially copyable.\<close>

record ('k, 'v) dm_params =
  KeyInfo :: "'k key_traits"
  isPurgeable :: "'v \<Rightarrow> bool"
  ValueT :: 'v
  uninit :: "'k \<times> 'v"
  is_trivially_copyable :: bool

record ('k, 'v) dense_map =
  Buckets :: "('k \<times> 'v) list"
  NumEntries :: nat
  NumTombstones :: nat
  NumBuckets :: nat

definition MIN_BUCKETS :: nat where
  "MIN_BUCKETS = 4"

definition MIN_COMPACT :: nat where
  "MIN_COMPACT = 1024"

definition is_empty_key :: "('k, 'v) dm_params \<Rightarrow> 'k \<Rightarrow> bool" where
  "is_empty_key p k \<longleftrightarrow> isEqual (KeyInfo p) k (getEmptyKey (KeyInfo p))"

definition is_tombstone_key :: "('k, 'v) dm_params \<Rightarrow> 'k \<Rightarrow> bool" where
  "is_tombstone_key p k \<longleftrightarrow> isEqual (KeyInfo p) k (getTombstoneKey (KeyInfo p))"

definition is_live_key :: "('k, 'v) dm_params \<Rightarrow> 'k \<Rightarrow> bool" where
  "is_live_key p k \<longleftrightarrow> \<not> is_empty_key p k \<and> \<not> is_tombstone_key p k"

section \<open>Probing\<close>

text \<open>The probe loop.  \<open>ProbeAmt\<close> never exceeds \<open>NumBuckets + 1\<close>, and the
  bucket number is masked after each step, so neither needs its wrap-around.\<close>

function lookup_loop ::
  "('k, 'v) dm_params \<Rightarrow> ('k \<times> 'v) list \<Rightarrow> nat \<Rightarrow> 'k \<Rightarrow> nat option \<Rightarrow> nat \<Rightarrow> nat \<Rightarrow>
    fault + (bool \<times> nat option)" where
  "lookup_loop p BucketsPtr Num Val FoundTombstone BucketNo ProbeAmt = (
     let ThisBucket = BucketsPtr ! BucketNo in
     if isEqual (KeyInfo p) Val (fst ThisBucket) then Inr (True, Some BucketNo)
     else if is_empty_key p (fst ThisBucket) then
       Inr (False, if FoundTombstone \<noteq> None then FoundTombstone else Some BucketNo)
     else
       let FT1 = (if is_tombstone_key p (fst ThisBucket) \<and> FoundTombstone = None
                  then Some BucketNo else FoundTombstone);
           FT2 = (if isPurgeable p (snd ThisBucket) \<and> FT1 = None then Some BucketNo else FT1)
       in if ProbeAmt > Num then Inl FatalCorruptHashTables
          else lookup_loop p BucketsPtr Num Val FT2 ((BucketNo + ProbeAmt) AND (Num - 1)) (ProbeAmt + 1))"
  by pat_completeness auto
termination
  by (relation "measure (\<lambda>(p, bs, Num, Val, ft, b, ProbeAmt). Num + 1 - ProbeAmt)") auto

declare lookup_loop.simps [simp del]

definition LookupBucketFor ::
  "('k, 'v) dm_params \<Rightarrow> ('k, 'v) dense_map \<Rightarrow> 'k \<Rightarrow> fault + (bool \<times> nat option)" where
  "LookupBucketFor p m Val = (
     if NumBuckets m = 0 then Inr (False, None)
     else if is_empty_key p Val \<or> is_tombstone_key p Val then Inl AssertFailed
     else lookup_loop p (Buckets m) (NumBuckets m) Val None
       (unat (getHashValue (KeyInfo p) Val) AND (NumBuckets m - 1)) 1)"

section \<open>Storage\<close>

definition allocateBuckets ::
  "('k, 'v) dm_params \<Rightarrow> nat \<Rightarrow> ('k, 'v) dense_map \<Rightarrow> ('k, 'v) dense_map \<times> bool" where
  "allocateBuckets p Num m =
     (if Num = 0 then (m\<lparr>NumBuckets := Num, Buckets := []\<rparr>, False)
      else (m\<lparr>NumBuckets := Num, Buckets := replicate Num (uninit p)\<rparr>, True))"

definition initEmpty :: "('k, 'v) dm_params \<Rightarrow> ('k, 'v) dense_map \<Rightarrow> fault + ('k, 'v) dense_map" where
  "initEmpty p m =
     (if NumBuckets m AND (NumBuckets m - 1) \<noteq> 0 then Inl AssertFailed
      else Inr (m\<lparr>NumEntries := 0, NumTombstones := 0,
                  Buckets := map (\<lambda>B. (getEmptyKey (KeyInfo p), snd B)) (Buckets m)\<rparr>))"

definition getMinBucketToReserveForEntries :: "nat \<Rightarrow> nat" where
  "getMinBucketToReserveForEntries n =
     (if n = 0 then 0
      else unat (NextPowerOf2_32 (of_nat (u32w (u32w (n * 4) div 3 + 1)))))"

definition dm_init ::
  "('k, 'v) dm_params \<Rightarrow> nat \<Rightarrow> ('k, 'v) dense_map \<Rightarrow> fault + ('k, 'v) dense_map" where
  "dm_init p InitNumEntries m = (
     let InitBuckets = getMinBucketToReserveForEntries InitNumEntries;
         (m1, ok) = allocateBuckets p InitBuckets m
     in if ok then initEmpty p m1
        else Inr (m1\<lparr>NumEntries := 0, NumTombstones := 0\<rparr>))"

definition dm_new :: "('k, 'v) dm_params \<Rightarrow> nat \<Rightarrow> fault + ('k, 'v) dense_map" where
  "dm_new p InitialReserve =
     dm_init p InitialReserve \<lparr>Buckets = [], NumEntries = 0, NumTombstones = 0, NumBuckets = 0\<rparr>"

fun move_loop ::
  "('k, 'v) dm_params \<Rightarrow> ('k \<times> 'v) list \<Rightarrow> ('k, 'v) dense_map \<Rightarrow> fault + ('k, 'v) dense_map" where
  "move_loop p [] m = Inr m"
| "move_loop p (B # Bs) m =
     (if isPurgeable p (snd B) then move_loop p Bs m
      else if \<not> is_empty_key p (fst B) \<and> \<not> is_tombstone_key p (fst B) then
        bindE (LookupBucketFor p m (fst B)) (\<lambda>(FoundVal, DestBucket).
          if FoundVal then Inl AssertFailed
          else case DestBucket of
            None \<Rightarrow> Inl NullDereference
          | Some d \<Rightarrow> move_loop p Bs (m\<lparr>Buckets := (Buckets m)[d := B],
                                       NumEntries := u32w (NumEntries m + 1)\<rparr>))
      else move_loop p Bs m)"

definition moveFromOldBuckets ::
  "('k, 'v) dm_params \<Rightarrow> ('k \<times> 'v) list \<Rightarrow> ('k, 'v) dense_map \<Rightarrow> fault + ('k, 'v) dense_map" where
  "moveFromOldBuckets p old m = bindE (initEmpty p m) (move_loop p old)"

definition grow ::
  "('k, 'v) dm_params \<Rightarrow> nat \<Rightarrow> ('k, 'v) dense_map \<Rightarrow> fault + ('k, 'v) dense_map" where
  "grow p AtLeast m = (
     let OldBuckets = Buckets m;
         m1 = fst (allocateBuckets p
                (max MIN_BUCKETS (unat (NextPowerOf2_32 (of_nat (u32sub AtLeast 1))))) m)
     in if Buckets m1 = [] then Inl AssertFailed
        else if OldBuckets = [] then initEmpty p m1
        else moveFromOldBuckets p OldBuckets m1)"

definition shrink_and_clear ::
  "('k, 'v) dm_params \<Rightarrow> ('k, 'v) dense_map \<Rightarrow> fault + ('k, 'v) dense_map" where
  "shrink_and_clear p m = (
     let NewNumBuckets =
           (if NumEntries m \<noteq> 0
            then nat (max (int MIN_BUCKETS)
                   (sint (push_bit (Log2_32_Ceil (of_nat (NumEntries m)) + 1) (1 :: u32)))) else 0)
     in if NewNumBuckets = NumBuckets m then initEmpty p m
        else dm_init p NewNumBuckets m)"

definition reserve ::
  "('k, 'v) dm_params \<Rightarrow> nat \<Rightarrow> ('k, 'v) dense_map \<Rightarrow> fault + ('k, 'v) dense_map" where
  "reserve p n m = (
     let Num = getMinBucketToReserveForEntries n
     in if Num > NumBuckets m then grow p Num m else Inr m)"

section \<open>Clearing, compacting, erasing\<close>

fun clear_loop :: "('k, 'v) dm_params \<Rightarrow> ('k \<times> 'v) list \<Rightarrow> nat \<Rightarrow> ('k \<times> 'v) list \<times> nat" where
  "clear_loop p [] n = ([], n)"
| "clear_loop p (B # Bs) n =
     (if \<not> is_empty_key p (fst B) then
        let n1 = (if \<not> is_tombstone_key p (fst B) then u32sub n 1 else n);
            (Bs', n2) = clear_loop p Bs n1
        in ((getEmptyKey (KeyInfo p), snd B) # Bs', n2)
      else let (Bs', n2) = clear_loop p Bs n in (B # Bs', n2))"

definition dm_clear :: "('k, 'v) dm_params \<Rightarrow> ('k, 'v) dense_map \<Rightarrow> fault + ('k, 'v) dense_map" where
  "dm_clear p m =
     (if NumEntries m = 0 \<and> NumTombstones m = 0 then Inr m
      else if u32w (NumEntries m * 4) < NumBuckets m \<and> NumBuckets m > MIN_BUCKETS then shrink_and_clear p m
      else if is_trivially_copyable p then
        Inr (m\<lparr>Buckets := map (\<lambda>B. (getEmptyKey (KeyInfo p), snd B)) (Buckets m),
               NumEntries := 0, NumTombstones := 0\<rparr>)
      else let (Bs, n) = clear_loop p (Buckets m) (NumEntries m) in
        if n \<noteq> 0 then Inl AssertFailed
        else Inr (m\<lparr>Buckets := Bs, NumEntries := 0, NumTombstones := 0\<rparr>))"

definition compact :: "('k, 'v) dm_params \<Rightarrow> ('k, 'v) dense_map \<Rightarrow> fault + ('k, 'v) dense_map" where
  "compact p m =
     (if NumEntries m = 0 then shrink_and_clear p m
      else if NumBuckets m div 16 > NumEntries m \<and> NumBuckets m > MIN_COMPACT
        then grow p (u32w (NumEntries m * 2)) m
      else Inr m)"

text \<open>The destructor call leaves the value's storage as it is.\<close>

definition erase_bucket ::
  "('k, 'v) dm_params \<Rightarrow> nat \<Rightarrow> ('k, 'v) dense_map \<Rightarrow> fault + ('k, 'v) dense_map" where
  "erase_bucket p i m =
     compact p (m\<lparr>Buckets := (Buckets m)[i := (getTombstoneKey (KeyInfo p), snd (Buckets m ! i))],
                  NumEntries := u32sub (NumEntries m) 1,
                  NumTombstones := u32w (NumTombstones m + 1)\<rparr>)"

definition dm_erase ::
  "('k, 'v) dm_params \<Rightarrow> 'k \<Rightarrow> ('k, 'v) dense_map \<Rightarrow> fault + (('k, 'v) dense_map \<times> bool)" where
  "dm_erase p Val m = bindE (LookupBucketFor p m Val) (\<lambda>(found, TheBucket).
     if \<not> found then Inr (m, False)
     else case TheBucket of
       None \<Rightarrow> Inl NullDereference
     | Some i \<Rightarrow> bindE (erase_bucket p i m) (\<lambda>m'. Inr (m', True)))"

section \<open>Lookup\<close>

definition dm_empty :: "('k, 'v) dense_map \<Rightarrow> bool" where
  "dm_empty m \<longleftrightarrow> NumEntries m = 0"

definition dm_size :: "('k, 'v) dense_map \<Rightarrow> nat" where
  "dm_size m = NumEntries m"

definition dm_count :: "('k, 'v) dm_params \<Rightarrow> 'k \<Rightarrow> ('k, 'v) dense_map \<Rightarrow> fault + nat" where
  "dm_count p Val m = bindE (LookupBucketFor p m Val) (\<lambda>(found, b). Inr (if found then 1 else 0))"

text \<open>An iterator is a bucket index; \<open>end()\<close> is the index past the array.\<close>

definition dm_end :: "('k, 'v) dense_map \<Rightarrow> nat" where
  "dm_end m = NumBuckets m"

definition dm_find :: "('k, 'v) dm_params \<Rightarrow> 'k \<Rightarrow> ('k, 'v) dense_map \<Rightarrow> fault + nat" where
  "dm_find p Val m = bindE (LookupBucketFor p m Val) (\<lambda>(found, b).
     if found then (case b of None \<Rightarrow> Inl NullDereference | Some i \<Rightarrow> Inr i) else Inr (dm_end m))"

definition dm_lookup :: "('k, 'v) dm_params \<Rightarrow> 'k \<Rightarrow> ('k, 'v) dense_map \<Rightarrow> fault + 'v" where
  "dm_lookup p Val m = bindE (LookupBucketFor p m Val) (\<lambda>(found, b).
     if found then (case b of None \<Rightarrow> Inl NullDereference | Some i \<Rightarrow> Inr (snd (Buckets m ! i)))
     else Inr (ValueT p))"

section \<open>Insertion\<close>

definition InsertIntoBucketImpl ::
  "('k, 'v) dm_params \<Rightarrow> 'k \<Rightarrow> nat option \<Rightarrow> ('k, 'v) dense_map \<Rightarrow>
    fault + (('k, 'v) dense_map \<times> nat)" where
  "InsertIntoBucketImpl p Lookup TheBucket0 m0 = (
     let NewNumEntries = u32w (NumEntries m0 + 1);
         Num = NumBuckets m0
     in bindE
       (if u32w (NewNumEntries * 4) \<ge> u32w (Num * 3) then
          bindE (grow p (u32w (Num * 2)) m0) (\<lambda>m.
          bindE (LookupBucketFor p m Lookup) (\<lambda>(_, b). Inr (m, b)))
        else if u32sub Num (u32w (NewNumEntries + NumTombstones m0)) \<le> Num div 8 then
          bindE (grow p Num m0) (\<lambda>m.
          bindE (LookupBucketFor p m Lookup) (\<lambda>(_, b). Inr (m, b)))
        else Inr (m0, TheBucket0))
       (\<lambda>(m, TheBucket). case TheBucket of
          None \<Rightarrow> Inl AssertFailed
        | Some i \<Rightarrow>
          if is_empty_key p (fst (Buckets m ! i)) then
            Inr (m\<lparr>NumEntries := u32w (NumEntries m + 1)\<rparr>, i)
          else if is_tombstone_key p (fst (Buckets m ! i)) then
            Inr (m\<lparr>NumEntries := u32w (NumEntries m + 1),
                   NumTombstones := u32sub (NumTombstones m) 1\<rparr>, i)
          else if \<not> isPurgeable p (snd (Buckets m ! i)) then Inl AssertFailed
          else Inr (m, i)))"

definition InsertIntoBucket ::
  "('k, 'v) dm_params \<Rightarrow> nat option \<Rightarrow> 'k \<Rightarrow> 'v \<Rightarrow> ('k, 'v) dense_map \<Rightarrow>
    fault + (('k, 'v) dense_map \<times> nat)" where
  "InsertIntoBucket p TheBucket Key Value m =
     bindE (InsertIntoBucketImpl p Key TheBucket m) (\<lambda>(m1, i).
       Inr (m1\<lparr>Buckets := (Buckets m1)[i := (Key, Value)]\<rparr>, i))"

definition InsertIntoBucketWithLookup ::
  "('k, 'v) dm_params \<Rightarrow> nat option \<Rightarrow> 'k \<Rightarrow> 'v \<Rightarrow> 'k \<Rightarrow> ('k, 'v) dense_map \<Rightarrow>
    fault + (('k, 'v) dense_map \<times> nat)" where
  "InsertIntoBucketWithLookup p TheBucket Key Value Lookup m =
     bindE (InsertIntoBucketImpl p Lookup TheBucket m) (\<lambda>(m1, i).
       Inr (m1\<lparr>Buckets := (Buckets m1)[i := (Key, Value)]\<rparr>, i))"

text \<open>The result carries the iterator and whether a new entry was made.\<close>

definition try_emplace ::
  "('k, 'v) dm_params \<Rightarrow> 'k \<Rightarrow> 'v \<Rightarrow> ('k, 'v) dense_map \<Rightarrow>
    fault + (('k, 'v) dense_map \<times> nat \<times> bool)" where
  "try_emplace p Key Value m = bindE (LookupBucketFor p m Key) (\<lambda>(found, TheBucket).
     if found then (case TheBucket of None \<Rightarrow> Inl NullDereference | Some i \<Rightarrow> Inr (m, i, False))
     else bindE (InsertIntoBucket p TheBucket Key Value m) (\<lambda>(m1, i). Inr (m1, i, True)))"

definition dm_insert ::
  "('k, 'v) dm_params \<Rightarrow> 'k \<times> 'v \<Rightarrow> ('k, 'v) dense_map \<Rightarrow>
    fault + (('k, 'v) dense_map \<times> nat \<times> bool)" where
  "dm_insert p KV m = try_emplace p (fst KV) (snd KV) m"

definition insert_as ::
  "('k, 'v) dm_params \<Rightarrow> 'k \<times> 'v \<Rightarrow> 'k \<Rightarrow> ('k, 'v) dense_map \<Rightarrow>
    fault + (('k, 'v) dense_map \<times> nat \<times> bool)" where
  "insert_as p KV Val m = bindE (LookupBucketFor p m Val) (\<lambda>(found, TheBucket).
     if found then (case TheBucket of None \<Rightarrow> Inl NullDereference | Some i \<Rightarrow> Inr (m, i, False))
     else bindE (InsertIntoBucketWithLookup p TheBucket (fst KV) (snd KV) Val m)
       (\<lambda>(m1, i). Inr (m1, i, True)))"

fun insert_range ::
  "('k, 'v) dm_params \<Rightarrow> ('k \<times> 'v) list \<Rightarrow> ('k, 'v) dense_map \<Rightarrow> fault + ('k, 'v) dense_map" where
  "insert_range p [] m = Inr m"
| "insert_range p (KV # KVs) m = bindE (dm_insert p KV m) (\<lambda>(m1, _). insert_range p KVs m1)"

text \<open>\<open>FindAndConstruct\<close> and \<open>operator[]\<close> give the bucket the caller then
  reads or writes.\<close>

definition FindAndConstruct ::
  "('k, 'v) dm_params \<Rightarrow> 'k \<Rightarrow> ('k, 'v) dense_map \<Rightarrow> fault + (('k, 'v) dense_map \<times> nat)" where
  "FindAndConstruct p Key m = bindE (LookupBucketFor p m Key) (\<lambda>(found, TheBucket).
     if found then (case TheBucket of None \<Rightarrow> Inl NullDereference | Some i \<Rightarrow> Inr (m, i))
     else InsertIntoBucket p TheBucket Key (ValueT p) m)"

definition set_second :: "nat \<Rightarrow> 'v \<Rightarrow> ('k, 'v) dense_map \<Rightarrow> ('k, 'v) dense_map" where
  "set_second i v m = m\<lparr>Buckets := (Buckets m)[i := (fst (Buckets m ! i), v)]\<rparr>"

section \<open>Copies, iteration, comparison\<close>

definition copy_bucket :: "('k, 'v) dm_params \<Rightarrow> 'k \<times> 'v \<Rightarrow> 'k \<times> 'v" where
  "copy_bucket p B =
     (if is_trivially_copyable p then B
      else (fst B, if is_live_key p (fst B) then snd B else snd (uninit p)))"

text \<open>Not checked here: that a map is not copied onto itself (a map is a value) and
  that both have the same number of buckets, which the allocation makes true.\<close>

definition dm_copyFrom ::
  "('k, 'v) dm_params \<Rightarrow> ('k, 'v) dense_map \<Rightarrow> ('k, 'v) dense_map \<Rightarrow> ('k, 'v) dense_map" where
  "dm_copyFrom p other m = (
     let (m1, ok) = allocateBuckets p (NumBuckets other) m
     in if ok then m1\<lparr>NumEntries := NumEntries other, NumTombstones := NumTombstones other,
                      Buckets := map (copy_bucket p) (Buckets other)\<rparr>
        else m1\<lparr>NumEntries := 0, NumTombstones := 0\<rparr>)"

definition dm_swap ::
  "('k, 'v) dense_map \<times> ('k, 'v) dense_map \<Rightarrow> ('k, 'v) dense_map \<times> ('k, 'v) dense_map" where
  "dm_swap = (\<lambda>(l, r).
     (\<lparr>Buckets = Buckets r, NumEntries = NumEntries r, NumTombstones = NumTombstones r,
       NumBuckets = NumBuckets r\<rparr>,
      \<lparr>Buckets = Buckets l, NumEntries = NumEntries l, NumTombstones = NumTombstones l,
       NumBuckets = NumBuckets l\<rparr>))"

text \<open>The iterator asserts that it is not past its end; the loop stops there.\<close>

function AdvancePastEmptyBuckets :: "('k, 'v) dm_params \<Rightarrow> ('k, 'v) dense_map \<Rightarrow> nat \<Rightarrow> nat" where
  "AdvancePastEmptyBuckets p m Ptr =
     (if Ptr < NumBuckets m \<and>
         (is_empty_key p (fst (Buckets m ! Ptr)) \<or> is_tombstone_key p (fst (Buckets m ! Ptr)))
      then AdvancePastEmptyBuckets p m (Ptr + 1) else Ptr)"
  by pat_completeness auto
termination
  by (relation "measure (\<lambda>(p, m, Ptr). NumBuckets m - Ptr)") auto

declare AdvancePastEmptyBuckets.simps [simp del]

definition dm_begin :: "('k, 'v) dm_params \<Rightarrow> ('k, 'v) dense_map \<Rightarrow> nat" where
  "dm_begin p m = (if dm_empty m then dm_end m else AdvancePastEmptyBuckets p m 0)"

definition dm_next :: "('k, 'v) dm_params \<Rightarrow> ('k, 'v) dense_map \<Rightarrow> nat \<Rightarrow> nat" where
  "dm_next p m Ptr = AdvancePastEmptyBuckets p m (Ptr + 1)"

lemma AdvancePastEmptyBuckets_ge: "Ptr \<le> AdvancePastEmptyBuckets p m Ptr"
  by (induction p m Ptr rule: AdvancePastEmptyBuckets.induct)
    (subst AdvancePastEmptyBuckets.simps, auto)

text \<open>What a \<open>for (auto \&KV : map)\<close> loop visits, from iterator \<open>Ptr\<close> on.\<close>

function iterate_from :: "('k, 'v) dm_params \<Rightarrow> ('k, 'v) dense_map \<Rightarrow> nat \<Rightarrow> ('k \<times> 'v) list" where
  "iterate_from p m Ptr =
     (if Ptr < NumBuckets m then (Buckets m ! Ptr) # iterate_from p m (dm_next p m Ptr) else [])"
  by pat_completeness auto
termination
proof (relation "measure (\<lambda>(p, m, Ptr). NumBuckets m - Ptr)", goal_cases)
  case (2 p m Ptr)
  then show ?case using AdvancePastEmptyBuckets_ge [of "Ptr + 1" p m] by (simp add: dm_next_def)
qed simp

declare iterate_from.simps [simp del]

definition dm_iterate :: "('k, 'v) dm_params \<Rightarrow> ('k, 'v) dense_map \<Rightarrow> ('k \<times> 'v) list" where
  "dm_iterate p m = iterate_from p m (dm_begin p m)"

fun equal_loop ::
  "('k, 'v) dm_params \<Rightarrow> ('k \<times> 'v) list \<Rightarrow> ('k, 'v) dense_map \<Rightarrow> fault + bool" where
  "equal_loop p [] RHS = Inr True"
| "equal_loop p (KV # KVs) RHS = bindE (dm_find p (fst KV) RHS) (\<lambda>i.
     if i = dm_end RHS \<or> snd (Buckets RHS ! i) \<noteq> snd KV then Inr False
     else equal_loop p KVs RHS)"

definition dm_equal ::
  "('k, 'v) dm_params \<Rightarrow> ('k, 'v) dense_map \<Rightarrow> ('k, 'v) dense_map \<Rightarrow> fault + bool" where
  "dm_equal p LHS RHS =
     (if dm_size LHS \<noteq> dm_size RHS then Inr False else equal_loop p (dm_iterate p LHS) RHS)"

end
