(* ===== verification/Probing.thy ===== *)
theory Probing
  imports Prelude
begin

text \<open>
  Quadratic probing with triangular steps, as the hash table performs it:
  the i-th bucket visited from hash \<open>h\<close> is \<open>h + (1 + 2 + ... + i)\<close> modulo the
  table size.  For a power-of-two size the first \<open>N\<close> probes visit every
  bucket exactly once.
\<close>

fun tri :: "nat \<Rightarrow> nat" where
  "tri 0 = 0"
| "tri (Suc i) = tri i + Suc i"

definition probe :: "nat \<Rightarrow> nat \<Rightarrow> nat \<Rightarrow> nat" where
  "probe N h i = (h + tri i) mod N"

lemma two_tri: "2 * tri i = i * (i + 1)"
  by (induction i) auto

lemma tri_mono: "i \<le> j \<Longrightarrow> tri i \<le> tri j"
  by (induction j) (auto simp: le_Suc_eq)

lemma tri_diff:
  assumes "i \<le> j"
  shows "2 * (tri j - tri i) = (j - i) * (j + i + 1)"
proof -
  obtain d where d: "j = i + d" using assms le_Suc_ex by blast
  have "2 * (tri j - tri i) = j * (j + 1) - i * (i + 1)"
    by (simp only: diff_mult_distrib2 two_tri)
  also have "\<dots> = (j - i) * (j + i + 1)" unfolding d by (simp add: algebra_simps)
  finally show ?thesis .
qed

lemma tri_mod_inj:
  assumes "i < j" "j < 2 ^ k"
  shows "(h + tri i) mod 2 ^ k \<noteq> (h + tri j) mod 2 ^ k"
proof
  assume eq: "(h + tri i) mod 2 ^ k = (h + tri j) mod 2 ^ k"
  have le: "h + tri i \<le> h + tri j" using tri_mono [of i j] assms by simp
  have "2 ^ k dvd (h + tri j) - (h + tri i)"
    using mod_eq_dvd_iff_nat [OF le, of "2 ^ k"] eq by simp
  then have "2 * 2 ^ k dvd 2 * (tri j - tri i)" by (intro mult_dvd_mono) simp_all
  then have d: "2 ^ Suc k dvd (j - i) * (j + i + 1)"
    using tri_diff [of i j] assms by simp
  show False
  proof (cases "odd (j - i)")
    case True
    then have "coprime (2 ^ Suc k) (j - i)" by simp
    from coprime_dvd_mult_right_iff [OF this] d have "2 ^ Suc k dvd j + i + 1" by blast
    then have "2 ^ Suc k \<le> j + i + 1" by (rule dvd_imp_le) simp
    with assms show False by simp
  next
    case False
    then have "odd (j + i + 1)" using assms by auto
    then have "coprime (2 ^ Suc k) (j + i + 1)" by simp
    from coprime_dvd_mult_left_iff [OF this] d have "2 ^ Suc k dvd j - i" by blast
    then have "2 ^ Suc k \<le> j - i" using assms by (intro dvd_imp_le) auto
    with assms show False by simp
  qed
qed

lemma probe_inj: "is_pow2 N \<Longrightarrow> inj_on (probe N h) {..<N}"
  unfolding inj_on_def probe_def is_pow2_def
  by (metis lessThan_iff linorder_neqE_nat tri_mod_inj)

lemma probe_less: "0 < N \<Longrightarrow> probe N h i < N"
  by (simp add: probe_def)

lemma probe_surj:
  assumes "is_pow2 N" "b < N"
  shows "\<exists>i<N. probe N h i = b"
proof -
  have "probe N h ` {..<N} \<subseteq> {..<N}" using probe_less [of N h] assms by auto
  then have "probe N h ` {..<N} = {..<N}"
    using probe_inj [OF assms(1)] by (intro endo_inj_surj) auto
  with assms(2) have "b \<in> probe N h ` {..<N}" by simp
  then show ?thesis by auto
qed

lemma probe_0: "probe N h 0 = h mod N"
  by (simp add: probe_def)

lemma probe_Suc: "probe N h (Suc i) = (probe N h i + Suc i) mod N"
  unfolding probe_def tri.simps mod_add_left_eq by (simp only: add.assoc)

end
