(* ===== verification/DenseMap_Lookup.thy ===== *)
theory DenseMap_Lookup
  imports DenseMap Probing
begin

text \<open>
  The invariant of a \<open>DenseMap\<close>, the finite map it stands for, and the
  correctness of \<open>LookupBucketFor\<close>: on a table that satisfies the invariant
  the probe loop always stops before the corruption check fires, finds the
  entry when there is one, and otherwise hands back a bucket where the key
  may be stored.
\<close>

section \<open>Invariant and abstraction\<close>

definition key_at :: "('k, 'v) dense_map \<Rightarrow> nat \<Rightarrow> 'k" where
  "key_at m b = fst (Buckets m ! b)"

definition val_at :: "('k, 'v) dense_map \<Rightarrow> nat \<Rightarrow> 'v" where
  "val_at m b = snd (Buckets m ! b)"

definition live_at :: "('k, 'v) dm_params \<Rightarrow> ('k, 'v) dense_map \<Rightarrow> nat \<Rightarrow> bool" where
  "live_at p m b \<longleftrightarrow> b < NumBuckets m \<and> is_live_key p (key_at m b)"

definition live_list :: "('k, 'v) dm_params \<Rightarrow> ('k \<times> 'v) list \<Rightarrow> ('k \<times> 'v) list" where
  "live_list p bs = filter (\<lambda>B. is_live_key p (fst B)) bs"

definition tomb_list :: "('k, 'v) dm_params \<Rightarrow> ('k \<times> 'v) list \<Rightarrow> ('k \<times> 'v) list" where
  "tomb_list p bs = filter (\<lambda>B. is_tombstone_key p (fst B)) bs"

definition key_probe :: "('k, 'v) dm_params \<Rightarrow> ('k, 'v) dense_map \<Rightarrow> 'k \<Rightarrow> nat \<Rightarrow> nat" where
  "key_probe p m k = probe (NumBuckets m) (unat (getHashValue (KeyInfo p) k))"

text \<open>\<open>reaches p m k b\<close>: probing for \<open>k\<close> comes to bucket \<open>b\<close> without passing an
  empty bucket.\<close>

definition reaches :: "('k, 'v) dm_params \<Rightarrow> ('k, 'v) dense_map \<Rightarrow> 'k \<Rightarrow> nat \<Rightarrow> bool" where
  "reaches p m k b \<longleftrightarrow> (\<exists>i<NumBuckets m. key_probe p m k i = b \<and>
     (\<forall>j<i. \<not> is_empty_key p (key_at m (key_probe p m k j))))"

definition dm_shape :: "('k, 'v) dm_params \<Rightarrow> ('k, 'v) dense_map \<Rightarrow> bool" where
  "dm_shape p m \<longleftrightarrow> length (Buckets m) = NumBuckets m \<and> NumBuckets m < 2 ^ 32 \<and>
     (NumBuckets m = 0 \<or> is_pow2 (NumBuckets m))"

definition dm_counts :: "('k, 'v) dm_params \<Rightarrow> ('k, 'v) dense_map \<Rightarrow> bool" where
  "dm_counts p m \<longleftrightarrow> NumEntries m = length (live_list p (Buckets m)) \<and>
     NumTombstones m = length (tomb_list p (Buckets m)) \<and>
     (NumBuckets m \<noteq> 0 \<longrightarrow> NumEntries m + NumTombstones m < NumBuckets m)"

definition dm_distinct :: "('k, 'v) dm_params \<Rightarrow> ('k, 'v) dense_map \<Rightarrow> bool" where
  "dm_distinct p m \<longleftrightarrow> (\<forall>i j. live_at p m i \<longrightarrow> live_at p m j \<longrightarrow>
     isEqual (KeyInfo p) (key_at m i) (key_at m j) \<longrightarrow> i = j)"

definition dm_reachable :: "('k, 'v) dm_params \<Rightarrow> ('k, 'v) dense_map \<Rightarrow> bool" where
  "dm_reachable p m \<longleftrightarrow> (\<forall>b. live_at p m b \<longrightarrow> reaches p m (key_at m b) b)"

definition dm_inv :: "('k, 'v) dm_params \<Rightarrow> ('k, 'v) dense_map \<Rightarrow> bool" where
  "dm_inv p m \<longleftrightarrow> dm_shape p m \<and> dm_counts p m \<and> dm_distinct p m \<and> dm_reachable p m"

text \<open>The map a bucket list stands for, and the part of it that insertions
  and rehashes may not drop.\<close>

definition list_map :: "('k, 'v) dm_params \<Rightarrow> ('k \<times> 'v) list \<Rightarrow> 'k \<Rightarrow> 'v option" where
  "list_map p bs k = map_option snd (find (\<lambda>B. is_live_key p (fst B) \<and> isEqual (KeyInfo p) k (fst B)) bs)"

definition dm_map :: "('k, 'v) dm_params \<Rightarrow> ('k, 'v) dense_map \<Rightarrow> 'k \<Rightarrow> 'v option" where
  "dm_map p m = list_map p (Buckets m)"

definition keep :: "('k, 'v) dm_params \<Rightarrow> 'v option \<Rightarrow> 'v option" where
  "keep p x = (case x of None \<Rightarrow> None | Some v \<Rightarrow> if isPurgeable p v then None else Some v)"

definition dm_kept :: "('k, 'v) dm_params \<Rightarrow> ('k, 'v) dense_map \<Rightarrow> 'k \<Rightarrow> 'v option" where
  "dm_kept p m k = keep p (dm_map p m k)"

lemma keep_simps [simp]:
  "keep p None = None"
  "keep p (Some v) = (if isPurgeable p v then None else Some v)"
  "keep p (keep p x) = keep p x"
  by (auto simp: keep_def split: option.splits)

lemma keep_id: "(\<And>v. \<not> isPurgeable p v) \<Longrightarrow> keep p x = x"
  by (cases x) auto

text \<open>Update of a function on keys at all keys equal to \<open>k\<close>.\<close>

definition upd_eq :: "'k key_traits \<Rightarrow> ('k \<Rightarrow> 'b) \<Rightarrow> 'k \<Rightarrow> 'b \<Rightarrow> 'k \<Rightarrow> 'b" where
  "upd_eq I f k v = (\<lambda>k'. if isEqual I k' k then v else f k')"

lemma upd_eq_fun_upd: "isEqual I = (=) \<Longrightarrow> upd_eq I f k v = f(k := v)"
  by (auto simp: upd_eq_def)

section \<open>The probe loop\<close>

definition reusable :: "('k, 'v) dm_params \<Rightarrow> 'k \<times> 'v \<Rightarrow> bool" where
  "reusable p B \<longleftrightarrow> is_tombstone_key p (fst B) \<or> isPurgeable p (snd B)"

definition stops :: "('k, 'v) dm_params \<Rightarrow> 'k \<Rightarrow> 'k \<times> 'v \<Rightarrow> bool" where
  "stops p Val B \<longleftrightarrow> isEqual (KeyInfo p) Val (fst B) \<or> is_empty_key p (fst B)"

definition first_reusable ::
  "('k, 'v) dm_params \<Rightarrow> ('k \<times> 'v) list \<Rightarrow> (nat \<Rightarrow> nat) \<Rightarrow> nat \<Rightarrow> nat \<Rightarrow> nat" where
  "first_reusable p bs pr i n =
     (case find (\<lambda>b. reusable p (bs ! b)) (map pr [i..<n]) of Some b \<Rightarrow> b | None \<Rightarrow> pr n)"

lemma first_reusable_step:
  assumes "i < n"
  shows "first_reusable p bs pr i n =
    (if reusable p (bs ! pr i) then pr i else first_reusable p bs pr (Suc i) n)"
  using assms by (simp add: first_reusable_def upt_conv_Cons)

lemma lookup_loop_spec:
  assumes "is_pow2 N" "i \<le> n" "n < N" "stops p Val (bs ! probe N h n)"
    "\<And>j. i \<le> j \<Longrightarrow> j < n \<Longrightarrow> \<not> stops p Val (bs ! probe N h j)"
  shows "lookup_loop p bs N Val ft (probe N h i) (Suc i) = Inr (
    if isEqual (KeyInfo p) Val (fst (bs ! probe N h n)) then (True, Some (probe N h n))
    else (False, Some (case ft of Some t \<Rightarrow> t | None \<Rightarrow> first_reusable p bs (probe N h) i n)))"
  using assms(2-)
proof (induction "n - i" arbitrary: i ft)
  case 0
  then have "i = n" by simp
  with 0 show ?case
    by (subst lookup_loop.simps)
      (auto simp: Let_def stops_def first_reusable_def split: option.splits)
next
  case (Suc d)
  then have lt: "i < n" by simp
  let ?B = "bs ! probe N h i"
  define ft' where "ft' = (if reusable p ?B \<and> ft = None then Some (probe N h i) else ft)"
  have ns: "\<not> isEqual (KeyInfo p) Val (fst ?B)" "\<not> is_empty_key p (fst ?B)"
    using Suc.prems(4) [of i] lt by (auto simp: stops_def)
  have nx: "(probe N h i + Suc i) AND (N - 1) = probe N h (Suc i)"
    unfolding probe_Suc by (rule and_mask_is_pow2 [OF assms(1)])
  have "lookup_loop p bs N Val ft (probe N h i) (Suc i) =
      lookup_loop p bs N Val ft' (probe N h (Suc i)) (Suc (Suc i))"
    using ns lt Suc.prems(2)
    by (subst lookup_loop.simps) (auto simp: Let_def nx ft'_def reusable_def simp flip: nx)
  also have "\<dots> = Inr (
    if isEqual (KeyInfo p) Val (fst (bs ! probe N h n)) then (True, Some (probe N h n))
    else (False, Some (case ft' of Some t \<Rightarrow> t | None \<Rightarrow> first_reusable p bs (probe N h) (Suc i) n)))"
    using Suc.hyps(2) Suc.prems lt by (intro Suc.hyps(1)) auto
  finally show ?case
    unfolding ft'_def first_reusable_step [OF lt] by (cases ft) auto
qed

lemma first_reusable_cases:
  obtains j where "i \<le> j" "j < n" "first_reusable p bs pr i n = pr j" "reusable p (bs ! pr j)"
  | "first_reusable p bs pr i n = pr n" "\<And>j. i \<le> j \<Longrightarrow> j < n \<Longrightarrow> \<not> reusable p (bs ! pr j)"
proof (cases "find (\<lambda>b. reusable p (bs ! b)) (map pr [i..<n])")
  case None
  then have "first_reusable p bs pr i n = pr n" by (simp add: first_reusable_def)
  moreover have "\<not> reusable p (bs ! pr j)" if "i \<le> j" "j < n" for j
    using None that by (auto simp: find_None_iff)
  ultimately show ?thesis using that(2) by blast
next
  case (Some b)
  then have "b \<in> set (map pr [i..<n])" "reusable p (bs ! b)"
    by (auto simp: find_Some_iff in_set_conv_nth)
  then obtain j where "i \<le> j" "j < n" "b = pr j" "reusable p (bs ! b)" by auto
  with Some show ?thesis using that(1) by (auto simp: first_reusable_def)
qed

section \<open>Lookup on a table that satisfies the invariant\<close>

locale dense_map_laws = key_info "KeyInfo p" for p :: "('k, 'v) dm_params"
begin

lemma empty_cong: "isEqual (KeyInfo p) j k \<Longrightarrow> is_empty_key p j \<longleftrightarrow> is_empty_key p k"
  unfolding is_empty_key_def by (rule eq_cong_left)

lemma tombstone_cong: "isEqual (KeyInfo p) j k \<Longrightarrow> is_tombstone_key p j \<longleftrightarrow> is_tombstone_key p k"
  unfolding is_tombstone_key_def by (rule eq_cong_left)

lemma live_cong: "isEqual (KeyInfo p) j k \<Longrightarrow> is_live_key p j \<longleftrightarrow> is_live_key p k"
  unfolding is_live_key_def using empty_cong tombstone_cong by blast

lemma not_empty_and_tombstone: "is_empty_key p k \<Longrightarrow> \<not> is_tombstone_key p k"
  unfolding is_empty_key_def is_tombstone_key_def
  using empty_tombstone eq_sym eq_trans by blast

lemma empty_key_simps [simp]:
  "is_empty_key p (getEmptyKey (KeyInfo p))" "\<not> is_tombstone_key p (getEmptyKey (KeyInfo p))"
  "is_tombstone_key p (getTombstoneKey (KeyInfo p))" "\<not> is_empty_key p (getTombstoneKey (KeyInfo p))"
  "\<not> is_live_key p (getEmptyKey (KeyInfo p))" "\<not> is_live_key p (getTombstoneKey (KeyInfo p))"
  by (simp_all add: is_live_key_def is_empty_key_def is_tombstone_key_def eq_refl empty_tombstone
      tombstone_empty)

lemma key_probe_cong: "isEqual (KeyInfo p) j k \<Longrightarrow> key_probe p m j = key_probe p m k"
  unfolding key_probe_def using eq_hash by metis

lemma key_probe_inj: "is_pow2 (NumBuckets m) \<Longrightarrow> inj_on (key_probe p m k) {..<NumBuckets m}"
  unfolding key_probe_def by (rule probe_inj)

lemma reaches_cong: "isEqual (KeyInfo p) j k \<Longrightarrow> reaches p m j b \<longleftrightarrow> reaches p m k b"
  unfolding reaches_def by (simp add: key_probe_cong)

lemma list_map_cong: "isEqual (KeyInfo p) j k \<Longrightarrow> list_map p bs j = list_map p bs k"
  unfolding list_map_def using eq_cong_left [of j k] by presburger

lemma list_map_None_iff:
  "list_map p bs k = None \<longleftrightarrow> (\<forall>B\<in>set bs. is_live_key p (fst B) \<longrightarrow> \<not> isEqual (KeyInfo p) k (fst B))"
  by (auto simp: list_map_def find_None_iff)

lemma length_partition:
  "length bs = length (live_list p bs) + length (tomb_list p bs)
    + length (filter (\<lambda>B. is_empty_key p (fst B)) bs)"
  by (induction bs)
    (auto simp: live_list_def tomb_list_def is_live_key_def dest: not_empty_and_tombstone)

lemma has_empty:
  assumes "dm_inv p m" "NumBuckets m \<noteq> 0"
  shows "\<exists>b<NumBuckets m. is_empty_key p (key_at m b)"
proof -
  have "filter (\<lambda>B. is_empty_key p (fst B)) (Buckets m) \<noteq> []"
    using assms length_partition [of "Buckets m"] by (auto simp: dm_inv_def dm_shape_def dm_counts_def)
  then obtain B where "B \<in> set (Buckets m)" "is_empty_key p (fst B)" by (auto simp: filter_empty_conv)
  then show ?thesis using assms
    by (auto simp: in_set_conv_nth key_at_def dm_inv_def dm_shape_def)
qed

lemma LookupBucketFor_spec:
  assumes "dm_shape p m" "NumBuckets m \<noteq> 0" "is_live_key p k" "n < NumBuckets m"
    "stops p k (Buckets m ! key_probe p m k n)"
    "\<And>j. j < n \<Longrightarrow> \<not> stops p k (Buckets m ! key_probe p m k j)"
  shows "LookupBucketFor p m k = Inr (
    if isEqual (KeyInfo p) k (key_at m (key_probe p m k n)) then (True, Some (key_probe p m k n))
    else (False, Some (first_reusable p (Buckets m) (key_probe p m k) 0 n)))"
proof -
  have pow: "is_pow2 (NumBuckets m)" using assms(1,2) by (simp add: dm_shape_def)
  have start: "h AND (NumBuckets m - Suc 0) = probe (NumBuckets m) h 0" for h
    unfolding probe_0 using and_mask_is_pow2 [OF pow] by simp
  have "LookupBucketFor p m k = lookup_loop p (Buckets m) (NumBuckets m) k None (key_probe p m k 0) (Suc 0)"
    using assms(2,3) by (simp add: LookupBucketFor_def start key_probe_def is_live_key_def)
  also have "\<dots> = Inr (
    if isEqual (KeyInfo p) k (key_at m (key_probe p m k n)) then (True, Some (key_probe p m k n))
    else (False, Some (first_reusable p (Buckets m) (key_probe p m k) 0 n)))"
    using assms(4-6) unfolding key_probe_def key_at_def
    by (subst lookup_loop_spec [OF pow, of 0 n]) auto
  finally show ?thesis .
qed

lemma LookupBucketFor_found:
  assumes "dm_inv p m" "live_at p m b" "isEqual (KeyInfo p) k (key_at m b)"
  shows "LookupBucketFor p m k = Inr (True, Some b)"
proof -
  have N: "NumBuckets m \<noteq> 0" "is_pow2 (NumBuckets m)" and live: "is_live_key p k"
    using assms live_cong [OF assms(3)] by (auto simp: live_at_def dm_inv_def dm_shape_def)
  obtain n where n: "n < NumBuckets m" "key_probe p m k n = b"
    "\<And>j. j < n \<Longrightarrow> \<not> is_empty_key p (key_at m (key_probe p m k j))"
    using assms reaches_cong [OF assms(3)] unfolding dm_inv_def dm_reachable_def reaches_def by blast
  have "\<not> isEqual (KeyInfo p) k (key_at m (key_probe p m k j))" if "j < n" for j
  proof
    assume e: "isEqual (KeyInfo p) k (key_at m (key_probe p m k j))"
    then have "live_at p m (key_probe p m k j)"
      using live live_cong N probe_less by (auto simp: live_at_def key_probe_def)
    moreover have "isEqual (KeyInfo p) (key_at m (key_probe p m k j)) (key_at m b)"
      using e assms(3) eq_sym eq_trans by blast
    ultimately have "key_probe p m k j = key_probe p m k n"
      using assms(1,2) n(2) unfolding dm_inv_def dm_distinct_def by blast
    then have "j = n"
      by (rule inj_onD [OF key_probe_inj [OF N(2)]]) (use that n(1) in auto)
    with that show False by simp
  qed
  then have "\<And>j. j < n \<Longrightarrow> \<not> stops p k (Buckets m ! key_probe p m k j)"
    using n(3) by (auto simp: stops_def key_at_def)
  moreover have "stops p k (Buckets m ! key_probe p m k n)" using n(2) assms(3) by (simp add: stops_def key_at_def)
  ultimately show ?thesis
    using LookupBucketFor_spec [of m k n] N live n assms by (simp add: dm_inv_def)
qed

lemma LookupBucketFor_missing:
  assumes "dm_inv p m" "NumBuckets m \<noteq> 0" "is_live_key p k"
    "\<And>b. live_at p m b \<Longrightarrow> \<not> isEqual (KeyInfo p) k (key_at m b)"
  shows "\<exists>b<NumBuckets m. LookupBucketFor p m k = Inr (False, Some b) \<and> reaches p m k b \<and>
    (is_empty_key p (key_at m b) \<or> is_tombstone_key p (key_at m b) \<or> isPurgeable p (val_at m b))"
proof -
  let ?pr = "key_probe p m k"
  have N: "is_pow2 (NumBuckets m)" using assms by (simp add: dm_inv_def dm_shape_def)
  have less: "?pr i < NumBuckets m" for i unfolding key_probe_def using assms(2) by (intro probe_less) simp
  obtain e where e: "e < NumBuckets m" "is_empty_key p (key_at m e)" using has_empty [OF assms(1,2)] by blast
  then obtain i where i: "i < NumBuckets m" "?pr i = e" using probe_surj [OF N] unfolding key_probe_def by blast
  define n where "n = (LEAST i. stops p k (Buckets m ! ?pr i))"
  have si: "stops p k (Buckets m ! ?pr i)" using i e by (simp add: stops_def key_at_def)
  then have sn: "stops p k (Buckets m ! ?pr n)" unfolding n_def by (rule LeastI)
  have n: "n < NumBuckets m" using Least_le [where P = "\<lambda>i. stops p k (Buckets m ! ?pr i)", OF si] i unfolding n_def by (meson le_less_trans)
  have before: "\<not> stops p k (Buckets m ! ?pr j)" if "j < n" for j
    using that not_less_Least unfolding n_def by blast
  have ne: "\<not> isEqual (KeyInfo p) k (key_at m (?pr n))"
    using assms(3,4) live_cong less unfolding live_at_def by blast
  then have en: "is_empty_key p (key_at m (?pr n))" using sn by (simp add: stops_def key_at_def)
  have L: "LookupBucketFor p m k = Inr (False, Some (first_reusable p (Buckets m) ?pr 0 n))"
    using LookupBucketFor_spec [of m k n] assms(1-3) n sn before ne by (simp add: dm_inv_def)
  have r: "reaches p m k (?pr j)" if "j \<le> n" for j
    using that n before unfolding reaches_def stops_def key_at_def
    by (intro exI [of _ j]) (auto intro: le_less_trans)
  show ?thesis
  proof (cases rule: first_reusable_cases [of 0 n p "Buckets m" ?pr])
    case (1 j)
    then show ?thesis using L less r [of j] by (auto simp: reusable_def key_at_def val_at_def)
  next
    case 2
    then show ?thesis using L less r [of n] en by auto
  qed
qed

end

end
