(* ===== verification/DenseMap_Update.thy ===== *)
theory DenseMap_Update
  imports DenseMap_Lookup
begin

text \<open>
  Writing one bucket of a \<open>DenseMap\<close>: what storing a key, a tombstone or a new
  value does to the invariant and to the map, and then the correctness of
  \<open>moveFromOldBuckets\<close> and \<open>grow\<close>, which rebuild the table bucket by bucket.
\<close>

section \<open>Writing one bucket\<close>

definition set_bucket :: "nat \<Rightarrow> 'k \<times> 'v \<Rightarrow> ('k, 'v) dense_map \<Rightarrow> ('k, 'v) dense_map" where
  "set_bucket b B m = m\<lparr>Buckets := (Buckets m)[b := B]\<rparr>"

lemma counter_simps [simp]:
  "key_at (m\<lparr>NumEntries := e\<rparr>) = key_at m" "key_at (m\<lparr>NumTombstones := t\<rparr>) = key_at m"
  "val_at (m\<lparr>NumEntries := e\<rparr>) = val_at m" "val_at (m\<lparr>NumTombstones := t\<rparr>) = val_at m"
  "live_at p (m\<lparr>NumEntries := e\<rparr>) = live_at p m" "live_at p (m\<lparr>NumTombstones := t\<rparr>) = live_at p m"
  "reaches p (m\<lparr>NumEntries := e\<rparr>) = reaches p m" "reaches p (m\<lparr>NumTombstones := t\<rparr>) = reaches p m"
  "dm_shape p (m\<lparr>NumEntries := e\<rparr>) = dm_shape p m" "dm_shape p (m\<lparr>NumTombstones := t\<rparr>) = dm_shape p m"
  "dm_distinct p (m\<lparr>NumEntries := e\<rparr>) = dm_distinct p m"
  "dm_distinct p (m\<lparr>NumTombstones := t\<rparr>) = dm_distinct p m"
  "dm_reachable p (m\<lparr>NumEntries := e\<rparr>) = dm_reachable p m"
  "dm_reachable p (m\<lparr>NumTombstones := t\<rparr>) = dm_reachable p m"
  "dm_map p (m\<lparr>NumEntries := e\<rparr>) = dm_map p m" "dm_map p (m\<lparr>NumTombstones := t\<rparr>) = dm_map p m"
  "set_bucket b B (m\<lparr>NumEntries := e\<rparr>) = (set_bucket b B m)\<lparr>NumEntries := e\<rparr>"
  "set_bucket b B (m\<lparr>NumTombstones := t\<rparr>) = (set_bucket b B m)\<lparr>NumTombstones := t\<rparr>"
  by (simp_all add: fun_eq_iff key_at_def val_at_def live_at_def reaches_def key_probe_def dm_shape_def
      dm_distinct_def dm_reachable_def dm_map_def set_bucket_def)

lemma set_bucket_fields [simp]:
  "NumBuckets (set_bucket b B m) = NumBuckets m" "NumEntries (set_bucket b B m) = NumEntries m"
  "NumTombstones (set_bucket b B m) = NumTombstones m"
  "Buckets (set_bucket b B m) = (Buckets m)[b := B]"
  by (simp_all add: set_bucket_def)

lemma key_probe_set_bucket [simp]: "key_probe p (set_bucket b B m) = key_probe p m"
  by (simp add: key_probe_def fun_eq_iff)

lemma at_set_bucket:
  assumes "dm_shape p m" "b < NumBuckets m"
  shows "key_at (set_bucket b B m) i = (if i = b then fst B else key_at m i)"
    and "val_at (set_bucket b B m) i = (if i = b then snd B else val_at m i)"
  using assms by (auto simp: key_at_def val_at_def dm_shape_def nth_list_update)

lemma length_filter_update:
  "b < length xs \<Longrightarrow>
    length (filter P (xs[b := x])) + of_bool (P (xs ! b)) = length (filter P xs) + of_bool (P x)"
proof (induction xs arbitrary: b)
  case (Cons y xs)
  then show ?case by (cases b) auto
qed simp

lemma dm_shape_set_bucket [simp]: "dm_shape p (set_bucket b B m) = dm_shape p m"
  by (simp add: dm_shape_def)

lemma list_map_SomeD:
  assumes "list_map p bs k = Some v"
  shows "\<exists>b<length bs. is_live_key p (fst (bs ! b)) \<and> isEqual (KeyInfo p) k (fst (bs ! b)) \<and>
    snd (bs ! b) = v"
proof -
  obtain B where B: "find (\<lambda>B. is_live_key p (fst B) \<and> isEqual (KeyInfo p) k (fst B)) bs = Some B" "snd B = v"
    using assms by (auto simp: list_map_def)
  from B(1) show ?thesis unfolding find_Some_iff using B(2) by metis
qed

context dense_map_laws
begin

lemma reaches_set_bucket:
  assumes "dm_shape p m" "b < NumBuckets m" "\<not> is_empty_key p (fst B)" "reaches p m k c"
  shows "reaches p (set_bucket b B m) k c"
  using assms unfolding reaches_def by (auto simp: at_set_bucket [OF assms(1,2)])

lemma dm_reachable_set_bucket:
  assumes "dm_shape p m" "b < NumBuckets m" "\<not> is_empty_key p (fst B)" "dm_reachable p m"
    "is_live_key p (fst B) \<Longrightarrow> reaches p m (fst B) b"
  shows "dm_reachable p (set_bucket b B m)"
  unfolding dm_reachable_def
proof (intro allI impI)
  fix c assume c: "live_at p (set_bucket b B m) c"
  have "reaches p m (key_at (set_bucket b B m) c) c"
    using c assms(4,5) by (auto simp: live_at_def at_set_bucket [OF assms(1,2)] dm_reachable_def split: if_splits)
  then show "reaches p (set_bucket b B m) (key_at (set_bucket b B m) c) c"
    by (rule reaches_set_bucket [OF assms(1-3)])
qed

lemma dm_distinct_set_bucket:
  assumes "dm_shape p m" "b < NumBuckets m" "dm_distinct p m"
    "\<And>c. live_at p m c \<Longrightarrow> c \<noteq> b \<Longrightarrow> is_live_key p (fst B) \<Longrightarrow> \<not> isEqual (KeyInfo p) (fst B) (key_at m c)"
  shows "dm_distinct p (set_bucket b B m)"
  unfolding dm_distinct_def
proof (intro allI impI)
  fix i j
  assume i: "live_at p (set_bucket b B m) i" and j: "live_at p (set_bucket b B m) j"
    and e: "isEqual (KeyInfo p) (key_at (set_bucket b B m) i) (key_at (set_bucket b B m) j)"
  show "i = j"
    using i j e assms(3,4) eq_sym
    by (cases "i = b"; cases "j = b")
      (simp_all add: live_at_def at_set_bucket [OF assms(1,2)] dm_distinct_def, blast+)
qed

lemma dm_map_eq_Some_iff:
  assumes "dm_shape p m" "dm_distinct p m"
  shows "dm_map p m k = Some v \<longleftrightarrow> (\<exists>b. live_at p m b \<and> isEqual (KeyInfo p) k (key_at m b) \<and> val_at m b = v)"
proof
  assume "dm_map p m k = Some v"
  then obtain b where "b < length (Buckets m)" "is_live_key p (key_at m b)"
    "isEqual (KeyInfo p) k (key_at m b)" "val_at m b = v"
    using list_map_SomeD [of p "Buckets m"] by (auto simp: dm_map_def key_at_def val_at_def)
  then show "\<exists>b. live_at p m b \<and> isEqual (KeyInfo p) k (key_at m b) \<and> val_at m b = v"
    using assms(1) by (auto simp: live_at_def dm_shape_def)
next
  assume "\<exists>b. live_at p m b \<and> isEqual (KeyInfo p) k (key_at m b) \<and> val_at m b = v"
  then obtain b where b: "live_at p m b" "isEqual (KeyInfo p) k (key_at m b)" "val_at m b = v" by blast
  have "Buckets m ! b \<in> set (Buckets m)" using b(1) assms(1) by (simp add: live_at_def dm_shape_def)
  then have "dm_map p m k \<noteq> None"
    using b unfolding dm_map_def list_map_None_iff by (auto simp: live_at_def key_at_def)
  then obtain i where i: "i < length (Buckets m)" "is_live_key p (key_at m i)"
    "isEqual (KeyInfo p) k (key_at m i)" "dm_map p m k = Some (val_at m i)"
    using list_map_SomeD [of p "Buckets m"] by (force simp: dm_map_def key_at_def val_at_def)
  have "live_at p m i" using i assms(1) by (simp add: live_at_def dm_shape_def)
  moreover have "isEqual (KeyInfo p) (key_at m i) (key_at m b)"
    using i(3) b(2) eq_sym eq_trans by blast
  ultimately have "i = b" using assms(2) b(1) unfolding dm_distinct_def by blast
  then show "dm_map p m k = Some v" using i(4) b(3) by simp
qed

lemma dm_map_eq_None_iff:
  assumes "dm_shape p m"
  shows "dm_map p m k = None \<longleftrightarrow> (\<forall>b. live_at p m b \<longrightarrow> \<not> isEqual (KeyInfo p) k (key_at m b))"
  using assms unfolding dm_map_def list_map_None_iff all_set_conv_all_nth
  by (auto simp: live_at_def key_at_def dm_shape_def)

lemma dm_map_cong: "isEqual (KeyInfo p) j k \<Longrightarrow> dm_map p m j = dm_map p m k"
  unfolding dm_map_def by (rule list_map_cong)

lemma same_bucket:
  assumes "dm_distinct p m" "live_at p m i" "live_at p m j"
    "isEqual (KeyInfo p) k (key_at m i)" "isEqual (KeyInfo p) k (key_at m j)"
  shows "i = j"
proof -
  have "isEqual (KeyInfo p) (key_at m i) (key_at m j)"
    using assms(4,5) by (blast intro: eq_trans eq_sym)
  then show ?thesis using assms(1-3) unfolding dm_distinct_def by blast
qed

text \<open>Storing a new live key in a bucket that probing for it reaches: the
  entry that was there, if any, is gone.\<close>

lemma dm_map_set_bucket_live:
  assumes "dm_shape p m" "dm_distinct p m" "b < NumBuckets m" "is_live_key p k" "dm_map p m k = None"
  shows "dm_map p (set_bucket b (k, v) m) =
    upd_eq (KeyInfo p) (\<lambda>k'. if live_at p m b \<and> isEqual (KeyInfo p) k' (key_at m b) then None
      else dm_map p m k') k (Some v)"
proof
  fix k'
  let ?m = "set_bucket b (k, v) m"
  have none: "\<not> isEqual (KeyInfo p) k (key_at m c)" if "live_at p m c" for c
    using assms(5) that unfolding dm_map_eq_None_iff [OF assms(1)] by blast
  have d: "dm_distinct p ?m" using assms none by (intro dm_distinct_set_bucket) auto
  note at = at_set_bucket [OF assms(1,3)]
  have L: "live_at p ?m c \<longleftrightarrow> c = b \<or> live_at p m c" for c
    using assms(3,4) by (auto simp: live_at_def at)
  have S: "dm_map p ?m k' = Some w \<longleftrightarrow> isEqual (KeyInfo p) k' k \<and> w = v \<or>
      (\<exists>c. c \<noteq> b \<and> live_at p m c \<and> isEqual (KeyInfo p) k' (key_at m c) \<and> val_at m c = w)" for w
    unfolding dm_map_eq_Some_iff [OF dm_shape_set_bucket [THEN iffD2, OF assms(1)] d] L at by auto
  show "dm_map p ?m k' = upd_eq (KeyInfo p) (\<lambda>k'. if live_at p m b \<and> isEqual (KeyInfo p) k' (key_at m b)
      then None else dm_map p m k') k (Some v) k'"
  proof (cases "isEqual (KeyInfo p) k' k")
    case True
    then show ?thesis using S [of v] by (simp add: upd_eq_def)
  next
    case False
    have "dm_map p ?m k' = Some w \<longleftrightarrow>
        \<not> (live_at p m b \<and> isEqual (KeyInfo p) k' (key_at m b)) \<and> dm_map p m k' = Some w" for w
      unfolding S dm_map_eq_Some_iff [OF assms(1,2)]
      using False same_bucket [OF assms(2), of _ b k'] by metis
    then show ?thesis using False by (intro option_eqI) (auto simp: upd_eq_def)
  qed
qed

lemma dm_map_set_bucket_dead:
  assumes "dm_shape p m" "dm_distinct p m" "live_at p m b" "\<not> is_live_key p (fst B)"
  shows "dm_map p (set_bucket b B m) = upd_eq (KeyInfo p) (dm_map p m) (key_at m b) None"
proof
  fix k'
  let ?m = "set_bucket b B m"
  have b: "b < NumBuckets m" using assms(3) by (simp add: live_at_def)
  have d: "dm_distinct p ?m" using assms b by (intro dm_distinct_set_bucket) auto
  note at = at_set_bucket [OF assms(1) b]
  have L: "live_at p ?m c \<longleftrightarrow> c \<noteq> b \<and> live_at p m c" for c
    using assms(4) by (auto simp: live_at_def at)
  have S: "dm_map p ?m k' = Some w \<longleftrightarrow>
      (\<exists>c. c \<noteq> b \<and> live_at p m c \<and> isEqual (KeyInfo p) k' (key_at m c) \<and> val_at m c = w)" for w
    unfolding dm_map_eq_Some_iff [OF dm_shape_set_bucket [THEN iffD2, OF assms(1)] d] L at by auto
  have "dm_map p ?m k' = Some w \<longleftrightarrow>
      \<not> isEqual (KeyInfo p) k' (key_at m b) \<and> dm_map p m k' = Some w" for w
    unfolding S dm_map_eq_Some_iff [OF assms(1,2)]
    using assms(3) same_bucket [OF assms(2), of _ b k'] by metis
  then show "dm_map p ?m k' = upd_eq (KeyInfo p) (dm_map p m) (key_at m b) None k'"
    by (intro option_eqI) (auto simp: upd_eq_def)
qed

lemma dm_map_set_bucket_value:
  assumes "dm_shape p m" "dm_distinct p m" "live_at p m b"
  shows "dm_map p (set_bucket b (key_at m b, v) m) = upd_eq (KeyInfo p) (dm_map p m) (key_at m b) (Some v)"
proof
  fix k'
  let ?m = "set_bucket b (key_at m b, v) m"
  have b: "b < NumBuckets m" using assms(3) by (simp add: live_at_def)
  note at = at_set_bucket [OF assms(1) b]
  have k: "key_at ?m = key_at m" by (auto simp: at)
  have L: "live_at p ?m = live_at p m" by (auto simp: live_at_def k)
  have d: "dm_distinct p ?m" using assms(2) by (simp add: dm_distinct_def k L)
  have S: "dm_map p ?m k' = Some w \<longleftrightarrow> isEqual (KeyInfo p) k' (key_at m b) \<and> w = v \<or>
      (\<exists>c. c \<noteq> b \<and> live_at p m c \<and> isEqual (KeyInfo p) k' (key_at m c) \<and> val_at m c = w)" for w
    unfolding dm_map_eq_Some_iff [OF dm_shape_set_bucket [THEN iffD2, OF assms(1)] d] L k at(2)
    using assms(3) by auto
  have "dm_map p ?m k' = Some w \<longleftrightarrow>
      (if isEqual (KeyInfo p) k' (key_at m b) then w = v else dm_map p m k' = Some w)" for w
    unfolding S dm_map_eq_Some_iff [OF assms(1,2)]
    using assms(3) same_bucket [OF assms(2), of _ b k'] by metis
  then show "dm_map p ?m k' = upd_eq (KeyInfo p) (dm_map p m) (key_at m b) (Some v) k'"
    by (intro option_eqI) (auto simp: upd_eq_def)
qed

end

end
