(* ===== verification/DenseMap_Rehash.thy ===== *)
theory DenseMap_Rehash
  imports DenseMap_Update
begin

text \<open>
  Rebuilding the table: \<open>initEmpty\<close>, \<open>moveFromOldBuckets\<close> and \<open>grow\<close>.  A
  rehash keeps exactly the entries whose value is not purgeable, drops every
  tombstone, and never trips an assertion or the corruption check.
\<close>

definition kept_list :: "('k, 'v) dm_params \<Rightarrow> ('k \<times> 'v) list \<Rightarrow> ('k \<times> 'v) list" where
  "kept_list p bs = filter (\<lambda>B. is_live_key p (fst B) \<and> \<not> isPurgeable p (snd B)) bs"

primrec list_distinct :: "('k, 'v) dm_params \<Rightarrow> ('k \<times> 'v) list \<Rightarrow> bool" where
  "list_distinct p [] \<longleftrightarrow> True"
| "list_distinct p (B # Bs) \<longleftrightarrow>
     (is_live_key p (fst B) \<longrightarrow> list_map p Bs (fst B) = None) \<and> list_distinct p Bs"

definition no_purgeable :: "('k, 'v) dm_params \<Rightarrow> ('k, 'v) dense_map \<Rightarrow> bool" where
  "no_purgeable p m \<longleftrightarrow> (\<forall>b. live_at p m b \<longrightarrow> \<not> isPurgeable p (val_at m b))"

definition grow_size :: "nat \<Rightarrow> nat" where
  "grow_size AtLeast = max MIN_BUCKETS (unat (NextPowerOf2_32 (of_nat (u32sub AtLeast 1))))"

lemma kept_list_le: "length (kept_list p bs) \<le> length (live_list p bs)"
  by (induction bs) (auto simp: kept_list_def live_list_def)

lemma list_map_Nil [simp]: "list_map p [] k = None"
  by (simp add: list_map_def)

lemma list_map_Cons:
  "list_map p (B # Bs) k =
    (if is_live_key p (fst B) \<and> isEqual (KeyInfo p) k (fst B) then Some (snd B) else list_map p Bs k)"
  by (simp add: list_map_def)

section \<open>Table sizes\<close>

lemma grow_size_0: "grow_size 0 = 4"
proof -
  have "u32sub 0 1 = 2 ^ 32 - 1" by (simp add: u32sub_def u32w_def)
  then have "NextPowerOf2_32 (of_nat (u32sub 0 1)) = 0"
    by (intro NextPowerOf2_32_overflow) simp
  then show ?thesis by (simp add: grow_size_def MIN_BUCKETS_def)
qed

lemma is_pow2_4: "is_pow2 4"
  using is_pow2_pow [of 2] by simp

lemma grow_size_spec:
  assumes "AtLeast \<le> 2 ^ 31"
  shows "is_pow2 (grow_size AtLeast)" "AtLeast \<le> grow_size AtLeast" "4 \<le> grow_size AtLeast"
    "grow_size AtLeast < 2 ^ 32" "AtLeast \<le> 2 ^ k \<Longrightarrow> 2 \<le> k \<Longrightarrow> grow_size AtLeast \<le> 2 ^ k"
proof -
  have all: "is_pow2 (grow_size AtLeast) \<and> AtLeast \<le> grow_size AtLeast \<and>
    (\<forall>k. AtLeast \<le> 2 ^ k \<longrightarrow> 2 \<le> k \<longrightarrow> grow_size AtLeast \<le> 2 ^ k)"
  proof (cases "AtLeast = 0")
    case True
    have "(4::nat) \<le> 2 ^ k" if "2 \<le> k" for k using power_increasing [OF that, of "2::nat"] by simp
    then show ?thesis using True by (simp add: grow_size_0 is_pow2_4)
  next
    case False
    then have s: "u32sub AtLeast 1 = AtLeast - 1" using assms by (intro u32sub_id) auto
    define A :: u32 where "A = of_nat (AtLeast - 1)"
    have A: "unat A = AtLeast - 1"
      using assms by (simp add: A_def unsigned_of_nat take_bit_nat_eq_self)
    have g: "grow_size AtLeast = max 4 (unat (NextPowerOf2_32 A))"
      by (simp only: grow_size_def s MIN_BUCKETS_def A_def)
    have lt: "unat A < 2 ^ 31" using A assms False by simp
    note np = NextPowerOf2_32_spec [OF lt]
    have "is_pow2 (grow_size AtLeast)" unfolding g max_def using np(1) is_pow2_4 by simp
    moreover have "AtLeast \<le> grow_size AtLeast" using np(2) A unfolding g by simp
    moreover have "grow_size AtLeast \<le> 2 ^ k" if "AtLeast \<le> 2 ^ k" "2 \<le> k" for k
    proof -
      have "unat A < 2 ^ k" using that(1) A False by simp
      then show ?thesis using np(3) power_increasing [OF that(2), of "2::nat"] unfolding g by simp
    qed
    ultimately show ?thesis by blast
  qed
  then show "is_pow2 (grow_size AtLeast)" "AtLeast \<le> grow_size AtLeast"
    "AtLeast \<le> 2 ^ k \<Longrightarrow> 2 \<le> k \<Longrightarrow> grow_size AtLeast \<le> 2 ^ k" by auto
  show "4 \<le> grow_size AtLeast" by (simp add: grow_size_def MIN_BUCKETS_def)
  have "grow_size AtLeast \<le> 2 ^ 31"
    using all [THEN conjunct2, THEN conjunct2, THEN spec, of 31] assms by simp
  then show "grow_size AtLeast < 2 ^ 32" by simp
qed

lemma grow_size_pow2:
  assumes "is_pow2 n" "n \<le> 2 ^ 31" "4 \<le> n"
  shows "grow_size n = n"
proof -
  obtain k where k: "n = 2 ^ k" using assms(1) by (auto simp: is_pow2_def)
  have "2 \<le> k" using assms(3) k power_le_imp_le_exp [of "2::nat" 2 k] by simp
  then have "grow_size n \<le> n" using grow_size_spec(5) [OF assms(2), of k] k by simp
  then show ?thesis using grow_size_spec(2) [OF assms(2)] by simp
qed

context dense_map_laws
begin

section \<open>Empty tables\<close>

lemma list_distinct_of_nth:
  "(\<And>i j. i < length bs \<Longrightarrow> j < length bs \<Longrightarrow> is_live_key p (fst (bs ! i)) \<Longrightarrow>
      is_live_key p (fst (bs ! j)) \<Longrightarrow> isEqual (KeyInfo p) (fst (bs ! i)) (fst (bs ! j)) \<Longrightarrow> i = j) \<Longrightarrow>
    list_distinct p bs"
proof (induction bs)
  case (Cons B Bs)
  have "list_distinct p Bs"
    using Cons.prems [of "Suc _" "Suc _"] by (intro Cons.IH) auto
  moreover have "list_map p Bs (fst B) = None" if "is_live_key p (fst B)"
    unfolding list_map_None_iff all_set_conv_all_nth using Cons.prems [of 0 "Suc _"] that by auto
  ultimately show ?case by simp
qed simp

lemma list_distinct_Buckets: "dm_inv p m \<Longrightarrow> list_distinct p (Buckets m)"
  by (rule list_distinct_of_nth) (auto simp: dm_inv_def dm_shape_def dm_distinct_def live_at_def key_at_def)

lemma initEmpty_spec:
  assumes "length (Buckets m) = NumBuckets m" "NumBuckets m < 2 ^ 32"
    "NumBuckets m = 0 \<or> is_pow2 (NumBuckets m)"
  shows "\<exists>m'. initEmpty p m = Inr m' \<and> dm_inv p m' \<and> dm_map p m' = Map.empty \<and> NumEntries m' = 0 \<and>
    NumTombstones m' = 0 \<and> NumBuckets m' = NumBuckets m \<and> no_purgeable p m'"
proof -
  define m' where "m' = m\<lparr>NumEntries := 0, NumTombstones := 0,
    Buckets := map (\<lambda>B. (getEmptyKey (KeyInfo p), snd B)) (Buckets m)\<rparr>"
  have "NumBuckets m AND (NumBuckets m - 1) = 0"
    using assms(3) and_mask_is_pow2 [of "NumBuckets m" "NumBuckets m"] by auto
  then have "initEmpty p m = Inr m'" by (simp add: initEmpty_def m'_def)
  moreover have dead: "\<not> live_at p m' b" for b
    using assms(1) by (simp add: live_at_def key_at_def m'_def)
  moreover have "dm_shape p m'" using assms by (simp add: dm_shape_def m'_def)
  moreover have "dm_counts p m'"
    by (simp add: dm_counts_def m'_def live_list_def tomb_list_def filter_map o_def)
  moreover have "dm_map p m' = Map.empty"
    using dead \<open>dm_shape p m'\<close> by (intro ext) (simp add: dm_map_eq_None_iff)
  ultimately show ?thesis
    by (auto simp: dm_inv_def dm_distinct_def dm_reachable_def no_purgeable_def m'_def)
qed

section \<open>Storing a key\<close>

lemma live_count_set_bucket:
  assumes "dm_shape p m" "b < NumBuckets m"
  shows "length (live_list p ((Buckets m)[b := B])) + of_bool (live_at p m b) =
      length (live_list p (Buckets m)) + of_bool (is_live_key p (fst B))"
    and "length (tomb_list p ((Buckets m)[b := B])) + of_bool (is_tombstone_key p (key_at m b)) =
      length (tomb_list p (Buckets m)) + of_bool (is_tombstone_key p (fst B))"
  using assms length_filter_update [of b "Buckets m" "\<lambda>B. is_live_key p (fst B)" B]
    length_filter_update [of b "Buckets m" "\<lambda>B. is_tombstone_key p (fst B)" B]
  by (auto simp: live_list_def tomb_list_def live_at_def key_at_def dm_shape_def)

lemma tomb_count_pos:
  assumes "dm_inv p m" "b < NumBuckets m" "is_tombstone_key p (key_at m b)"
  shows "0 < NumTombstones m"
proof -
  have "Buckets m ! b \<in> set (tomb_list p (Buckets m))"
    using assms by (auto simp: tomb_list_def key_at_def dm_inv_def dm_shape_def)
  then show ?thesis using assms(1) by (auto simp: dm_inv_def dm_counts_def dest: length_pos_if_in_set)
qed

lemma live_count_pos:
  assumes "dm_inv p m" "live_at p m b"
  shows "0 < NumEntries m"
proof -
  have "Buckets m ! b \<in> set (live_list p (Buckets m))"
    using assms by (auto simp: live_list_def live_at_def key_at_def dm_inv_def dm_shape_def)
  then show ?thesis using assms(1) by (auto simp: dm_inv_def dm_counts_def dest: length_pos_if_in_set)
qed

lemma dm_inv_store:
  assumes "dm_inv p m" "b < NumBuckets m" "is_live_key p k" "dm_map p m k = None" "reaches p m k b"
    "e + of_bool (live_at p m b) = NumEntries m + 1"
    "t + of_bool (is_tombstone_key p (key_at m b)) = NumTombstones m"
    "e + t < NumBuckets m"
  shows "dm_inv p ((set_bucket b (k, v) m)\<lparr>NumEntries := e, NumTombstones := t\<rparr>)"
proof -
  have i: "dm_shape p m" "dm_counts p m" "dm_distinct p m" "dm_reachable p m"
    using assms(1) by (auto simp: dm_inv_def)
  have "\<not> is_empty_key p k" "\<not> is_tombstone_key p k" using assms(3) by (auto simp: is_live_key_def)
  then have "dm_distinct p (set_bucket b (k, v) m)" "dm_reachable p (set_bucket b (k, v) m)"
    using i assms(2-5) unfolding dm_map_eq_None_iff [OF i(1)]
    by (auto intro!: dm_distinct_set_bucket dm_reachable_set_bucket)
  moreover have "dm_counts p ((set_bucket b (k, v) m)\<lparr>NumEntries := e, NumTombstones := t\<rparr>)"
    using live_count_set_bucket [OF i(1) assms(2), of "(k, v)"] i(2) assms(3,6-8) \<open>\<not> is_tombstone_key p k\<close>
    by (simp add: dm_counts_def)
  ultimately show ?thesis using i(1) by (simp add: dm_inv_def)
qed

section \<open>Moving the old buckets\<close>

lemma move_step:
  assumes "dm_inv p m" "NumTombstones m = 0" "no_purgeable p m" "is_live_key p (fst B)"
    "\<not> isPurgeable p (snd B)" "dm_map p m (fst B) = None" "NumEntries m + 1 < NumBuckets m"
  shows "\<exists>d m'. LookupBucketFor p m (fst B) = Inr (False, Some d) \<and>
    m' = m\<lparr>Buckets := (Buckets m)[d := B], NumEntries := u32w (NumEntries m + 1)\<rparr> \<and>
    dm_inv p m' \<and> NumTombstones m' = 0 \<and> no_purgeable p m' \<and> NumBuckets m' = NumBuckets m \<and>
    NumEntries m' = NumEntries m + 1 \<and> dm_map p m' = upd_eq (KeyInfo p) (dm_map p m) (fst B) (Some (snd B))"
proof -
  have i: "dm_shape p m" "dm_counts p m" "dm_distinct p m" using assms(1) by (auto simp: dm_inv_def)
  have "NumBuckets m \<noteq> 0" using assms(7) by simp
  then obtain d where d: "d < NumBuckets m" "LookupBucketFor p m (fst B) = Inr (False, Some d)"
    "reaches p m (fst B) d"
    "is_empty_key p (key_at m d) \<or> is_tombstone_key p (key_at m d) \<or> isPurgeable p (val_at m d)"
    using LookupBucketFor_missing [OF assms(1) _ assms(4)] assms(6) unfolding dm_map_eq_None_iff [OF i(1)]
    by blast
  have nt: "\<not> is_tombstone_key p (key_at m d)" using tomb_count_pos [OF assms(1) d(1)] assms(2) by auto
  have nl: "\<not> live_at p m d" using d(4) nt assms(3) by (auto simp: no_purgeable_def live_at_def is_live_key_def)
  define m' where "m' = m\<lparr>Buckets := (Buckets m)[d := B], NumEntries := u32w (NumEntries m + 1)\<rparr>"
  have u: "u32w (NumEntries m + 1) = NumEntries m + 1" using assms(7) i(1) by (intro u32w_id) (simp add: dm_shape_def)
  have m': "m' = (set_bucket d (fst B, snd B) m)\<lparr>NumEntries := NumEntries m + 1, NumTombstones := 0\<rparr>"
    unfolding m'_def u using assms(2) by (cases m) (simp add: set_bucket_def)
  have "dm_inv p m'"
    unfolding m' using d nt nl assms by (intro dm_inv_store) auto
  moreover have "dm_map p m' = upd_eq (KeyInfo p) (dm_map p m) (fst B) (Some (snd B))"
    unfolding m' using dm_map_set_bucket_live [OF i(1,3) d(1) assms(4,6), of "snd B"] nl by simp
  moreover have "no_purgeable p m'"
    using assms(3,5) unfolding no_purgeable_def m'
    by (auto simp: live_at_def at_set_bucket [OF i(1) d(1)])
  moreover have "NumTombstones m' = 0" "NumBuckets m' = NumBuckets m" "NumEntries m' = NumEntries m + 1"
    unfolding m' by simp_all
  ultimately show ?thesis using d(2) m'_def by blast
qed

lemma move_loop_spec:
  assumes "dm_inv p m" "NumTombstones m = 0" "no_purgeable p m" "list_distinct p bs"
    "\<And>B. B \<in> set bs \<Longrightarrow> is_live_key p (fst B) \<Longrightarrow> dm_map p m (fst B) = None"
    "NumEntries m + length (kept_list p bs) < NumBuckets m"
  shows "\<exists>m'. move_loop p bs m = Inr m' \<and> dm_inv p m' \<and> NumTombstones m' = 0 \<and> no_purgeable p m' \<and>
    NumBuckets m' = NumBuckets m \<and> NumEntries m' = NumEntries m + length (kept_list p bs) \<and>
    dm_map p m' = (\<lambda>k. case keep p (list_map p bs k) of None \<Rightarrow> dm_map p m k | Some v \<Rightarrow> Some v)"
  using assms
proof (induction bs arbitrary: m)
  case Nil
  then show ?case by (simp add: kept_list_def)
next
  case (Cons B Bs)
  show ?case
  proof (cases "is_live_key p (fst B) \<and> \<not> isPurgeable p (snd B)")
    case False
    then have eq: "move_loop p (B # Bs) m = move_loop p Bs m" "kept_list p (B # Bs) = kept_list p Bs"
      by (auto simp: is_live_key_def kept_list_def)
    have "keep p (list_map p (B # Bs) k) = keep p (list_map p Bs k)" for k
    proof (cases "is_live_key p (fst B) \<and> isEqual (KeyInfo p) k (fst B)")
      case True
      then have "list_map p Bs k = None" using Cons.prems(4) list_map_cong by auto
      with True False show ?thesis by (simp add: list_map_Cons)
    qed (auto simp: list_map_Cons)
    then show ?thesis using Cons.IH [of m] Cons.prems eq by simp
  next
    case True
    have lt: "NumEntries m + 1 < NumBuckets m" using Cons.prems(6) True by (simp add: kept_list_def)
    have nm: "dm_map p m (fst B) = None" using Cons.prems(5) True by simp
    obtain d m' where s: "LookupBucketFor p m (fst B) = Inr (False, Some d)"
      "m' = m\<lparr>Buckets := (Buckets m)[d := B], NumEntries := u32w (NumEntries m + 1)\<rparr>"
      "dm_inv p m'" "NumTombstones m' = 0" "no_purgeable p m'" "NumBuckets m' = NumBuckets m"
      "NumEntries m' = NumEntries m + 1"
      "dm_map p m' = upd_eq (KeyInfo p) (dm_map p m) (fst B) (Some (snd B))"
      using move_step [OF Cons.prems(1-3) _ _ nm lt] True by blast
    have step: "move_loop p (B # Bs) m = move_loop p Bs m'"
      using True s(1,2) by (simp add: is_live_key_def)
    have nB: "\<not> isEqual (KeyInfo p) (fst C) (fst B)" if "C \<in> set Bs" "is_live_key p (fst C)" for C
      using Cons.prems(4) True that eq_sym unfolding list_distinct.simps list_map_None_iff by blast
    have none': "dm_map p m' (fst C) = None" if "C \<in> set Bs" "is_live_key p (fst C)" for C
      using nB [OF that] Cons.prems(5) that by (simp add: s(8) upd_eq_def)
    have cnt: "NumEntries m' + length (kept_list p Bs) < NumBuckets m'"
      using Cons.prems(6) True s(6,7) by (simp add: kept_list_def)
    have ld: "list_distinct p Bs" using Cons.prems(4) by simp
    from Cons.IH [OF s(3,4,5) ld none' cnt] obtain m'' where m'':
      "move_loop p Bs m' = Inr m''" "dm_inv p m''" "NumTombstones m'' = 0" "no_purgeable p m''"
      "NumBuckets m'' = NumBuckets m'" "NumEntries m'' = NumEntries m' + length (kept_list p Bs)"
      "dm_map p m'' = (\<lambda>k. case keep p (list_map p Bs k) of None \<Rightarrow> dm_map p m' k | Some v \<Rightarrow> Some v)"
      by blast
    have "list_map p Bs k = None" if "isEqual (KeyInfo p) k (fst B)" for k
      using Cons.prems(4) True list_map_cong [OF that] by simp
    then have "dm_map p m'' = (\<lambda>k. case keep p (list_map p (B # Bs) k) of None \<Rightarrow> dm_map p m k | Some v \<Rightarrow> Some v)"
      using True unfolding m''(7) s(8) by (auto simp: fun_eq_iff list_map_Cons upd_eq_def split: option.splits)
    then show ?thesis using step m'' s True by (simp add: kept_list_def)
  qed
qed

section \<open>Growing\<close>

lemma grow_spec:
  assumes "dm_inv p m" "AtLeast \<le> 2 ^ 31" "length (kept_list p (Buckets m)) < grow_size AtLeast"
  shows "\<exists>m'. grow p AtLeast m = Inr m' \<and> dm_inv p m' \<and> NumTombstones m' = 0 \<and> no_purgeable p m' \<and>
    NumBuckets m' = grow_size AtLeast \<and> NumEntries m' = length (kept_list p (Buckets m)) \<and>
    dm_map p m' = dm_kept p m"
proof -
  define m1 where "m1 = m\<lparr>NumBuckets := grow_size AtLeast, Buckets := replicate (grow_size AtLeast) (uninit p)\<rparr>"
  note gs = grow_size_spec [OF assms(2)]
  have g0: "grow_size AtLeast \<noteq> 0" using gs(3) by simp
  have g: "grow p AtLeast m = (if Buckets m = [] then initEmpty p m1 else moveFromOldBuckets p (Buckets m) m1)"
    unfolding grow_def grow_size_def [symmetric] using g0 by (simp add: allocateBuckets_def m1_def Let_def)
  have "length (Buckets m1) = NumBuckets m1" "NumBuckets m1 = grow_size AtLeast" by (simp_all add: m1_def)
  then obtain m2 where m2: "initEmpty p m1 = Inr m2" "dm_inv p m2" "dm_map p m2 = Map.empty"
    "NumEntries m2 = 0" "NumTombstones m2 = 0" "NumBuckets m2 = grow_size AtLeast" "no_purgeable p m2"
    using initEmpty_spec [of m1] gs(1,4) by auto
  show ?thesis
  proof (cases "Buckets m = []")
    case True
    then have "dm_kept p m = Map.empty" by (simp add: dm_kept_def dm_map_def fun_eq_iff)
    with True g m2 show ?thesis by (simp add: kept_list_def)
  next
    case False
    obtain m' where "move_loop p (Buckets m) m2 = Inr m'" "dm_inv p m'" "NumTombstones m' = 0"
      "no_purgeable p m'" "NumBuckets m' = NumBuckets m2"
      "NumEntries m' = NumEntries m2 + length (kept_list p (Buckets m))"
      "dm_map p m' = (\<lambda>k. case keep p (list_map p (Buckets m) k) of None \<Rightarrow> dm_map p m2 k | Some v \<Rightarrow> Some v)"
      using move_loop_spec [OF m2(2,5,7) list_distinct_Buckets [OF assms(1)]] m2(3,4,6) assms(3) by auto
    moreover have "(\<lambda>k. case keep p (list_map p (Buckets m) k) of None \<Rightarrow> dm_map p m2 k | Some v \<Rightarrow> Some v) =
        dm_kept p m"
      by (auto simp: fun_eq_iff dm_kept_def dm_map_def [of p m] m2(3) split: option.splits)
    ultimately show ?thesis using False g m2 by (simp add: moveFromOldBuckets_def)
  qed
qed

end

end
