(* ===== verification/DenseMap_Correct.thy ===== *)
theory DenseMap_Correct
  imports DenseMap_Rehash
begin

text \<open>
  The member functions of \<open>DenseMap\<close> against the map they implement: each
  keeps the invariant, none of them stops the process, and the effect on the
  map is the one the name says.  Insertions and erasures may drop entries
  with a purgeable value, so their effect is stated on \<open>dm_kept\<close>.
\<close>

definition inserted ::
  "('k, 'v) dm_params \<Rightarrow> ('k, 'v) dense_map \<Rightarrow> 'k \<Rightarrow> 'v \<Rightarrow> ('k, 'v) dense_map \<Rightarrow> nat \<Rightarrow> bool" where
  "inserted p m k v m' i \<longleftrightarrow> dm_inv p m' \<and> live_at p m' i \<and> key_at m' i = k \<and> val_at m' i = v \<and>
     dm_map p m' k = Some v \<and> dm_kept p m' = upd_eq (KeyInfo p) (dm_kept p m) k (keep p (Some v)) \<and>
     NumBuckets m' \<le> max (NumBuckets m) (4 * (NumEntries m + 1)) \<and> NumEntries m' \<le> NumEntries m + 1"

context dense_map_laws
begin

section \<open>Lookup\<close>

lemma lookup_cases:
  assumes "dm_inv p m" "is_live_key p k"
  obtains (found) b where "LookupBucketFor p m k = Inr (True, Some b)" "live_at p m b"
      "isEqual (KeyInfo p) k (key_at m b)" "dm_map p m k = Some (val_at m b)"
  | (missing) b where "LookupBucketFor p m k = Inr (False, Some b)" "dm_map p m k = None"
      "NumBuckets m \<noteq> 0" "b < NumBuckets m" "reaches p m k b"
      "is_empty_key p (key_at m b) \<or> is_tombstone_key p (key_at m b) \<or> isPurgeable p (val_at m b)"
  | (no_storage) "LookupBucketFor p m k = Inr (False, None)" "dm_map p m k = None" "NumBuckets m = 0"
proof -
  have i: "dm_shape p m" "dm_distinct p m" using assms(1) by (auto simp: dm_inv_def)
  show ?thesis
  proof (cases "dm_map p m k")
    case (Some v)
    then obtain b where "live_at p m b" "isEqual (KeyInfo p) k (key_at m b)" "val_at m b = v"
      using dm_map_eq_Some_iff [OF i] by blast
    then show ?thesis using found LookupBucketFor_found [OF assms(1)] Some by blast
  next
    case None
    show ?thesis
    proof (cases "NumBuckets m = 0")
      case True
      then show ?thesis using no_storage None by (simp add: LookupBucketFor_def)
    next
      case False
      then show ?thesis
        using LookupBucketFor_missing [OF assms(1) False assms(2)] None missing
        unfolding dm_map_eq_None_iff [OF i(1)] by blast
    qed
  qed
qed

lemma dm_lookup_spec:
  assumes "dm_inv p m" "is_live_key p k"
  shows "dm_lookup p k m = Inr (case dm_map p m k of Some v \<Rightarrow> v | None \<Rightarrow> ValueT p)"
  using assms by (cases rule: lookup_cases) (auto simp: dm_lookup_def val_at_def)

lemma dm_count_spec:
  assumes "dm_inv p m" "is_live_key p k"
  shows "dm_count p k m = Inr (if dm_map p m k = None then 0 else 1)"
  using assms by (cases rule: lookup_cases) (auto simp: dm_count_def)

lemma dm_find_spec:
  assumes "dm_inv p m" "is_live_key p k"
  shows "\<exists>i. dm_find p k m = Inr i \<and> (case dm_map p m k of None \<Rightarrow> i = dm_end m
    | Some v \<Rightarrow> i \<noteq> dm_end m \<and> live_at p m i \<and> isEqual (KeyInfo p) k (key_at m i) \<and> val_at m i = v)"
  using assms by (cases rule: lookup_cases) (auto simp: dm_find_def dm_end_def live_at_def)

section \<open>Insertion\<close>

lemma dm_inv_bounds: "dm_inv p m \<Longrightarrow> NumBuckets m < 2 ^ 32"
  "dm_inv p m \<Longrightarrow> NumBuckets m \<noteq> 0 \<Longrightarrow> NumEntries m + NumTombstones m < NumBuckets m"
  "dm_inv p m \<Longrightarrow> NumEntries m + NumTombstones m \<le> NumBuckets m"
  "dm_inv p m \<Longrightarrow> length (kept_list p (Buckets m)) \<le> NumEntries m"
  using kept_list_le [of p "Buckets m"]
  by (auto simp: dm_inv_def dm_shape_def dm_counts_def live_list_def tomb_list_def)

lemma grow_then_lookup:
  assumes "dm_inv p m" "is_live_key p k" "dm_map p m k = None" "n \<le> 2 ^ 31"
    "NumEntries m + 1 < grow_size n"
  shows "\<exists>m1 b. bindE (grow p n m) (\<lambda>m. bindE (LookupBucketFor p m k) (\<lambda>(_, b). Inr (m, b))) = Inr (m1, Some b) \<and>
    dm_inv p m1 \<and> dm_map p m1 k = None \<and> dm_kept p m1 = dm_kept p m \<and> b < NumBuckets m1 \<and> reaches p m1 k b \<and>
    NumEntries m1 + NumTombstones m1 + 1 < NumBuckets m1 \<and> NumBuckets m1 = grow_size n \<and> NumEntries m1 \<le> NumEntries m \<and>
    (is_empty_key p (key_at m1 b) \<or> is_tombstone_key p (key_at m1 b) \<or> isPurgeable p (val_at m1 b))"
proof -
  have "length (kept_list p (Buckets m)) \<le> NumEntries m" using dm_inv_bounds(4) [OF assms(1)] .
  then obtain m1 where m1: "grow p n m = Inr m1" "dm_inv p m1" "NumTombstones m1 = 0"
    "NumBuckets m1 = grow_size n" "NumEntries m1 \<le> NumEntries m" "dm_map p m1 = dm_kept p m"
    using grow_spec [OF assms(1,4)] assms(5) by force
  have none: "dm_map p m1 k = None" using m1(6) assms(3) by (simp add: dm_kept_def)
  have kept: "dm_kept p m1 = dm_kept p m" by (simp add: fun_eq_iff dm_kept_def [of p m1] m1(6) dm_kept_def)
  have nz: "NumBuckets m1 \<noteq> 0" using m1(4) assms(5) by simp
  from m1(2) assms(2) show ?thesis
  proof (cases rule: lookup_cases)
    case (missing b)
    then show ?thesis using m1 none kept assms(5) by (intro exI [of _ m1] exI [of _ b]) simp
  qed (use none nz in auto)
qed

lemma insert_room:
  assumes "dm_inv p m" "NumBuckets m \<le> 2 ^ 29" "is_live_key p k" "dm_map p m k = None"
    "LookupBucketFor p m k = Inr (False, tb)"
  shows "\<exists>m1 b. (if u32w (u32w (NumEntries m + 1) * 4) \<ge> u32w (NumBuckets m * 3) then
          bindE (grow p (u32w (NumBuckets m * 2)) m) (\<lambda>m.
          bindE (LookupBucketFor p m k) (\<lambda>(_, b). Inr (m, b)))
        else if u32sub (NumBuckets m) (u32w (u32w (NumEntries m + 1) + NumTombstones m)) \<le> NumBuckets m div 8 then
          bindE (grow p (NumBuckets m) m) (\<lambda>m.
          bindE (LookupBucketFor p m k) (\<lambda>(_, b). Inr (m, b)))
        else Inr (m, tb)) = Inr (m1, Some b) \<and>
    dm_inv p m1 \<and> dm_map p m1 k = None \<and> dm_kept p m1 = dm_kept p m \<and> b < NumBuckets m1 \<and> reaches p m1 k b \<and>
    NumEntries m1 + NumTombstones m1 + 1 < NumBuckets m1 \<and> NumBuckets m1 \<le> max (NumBuckets m) (4 * (NumEntries m + 1)) \<and>
    NumEntries m1 \<le> NumEntries m \<and>
    (is_empty_key p (key_at m1 b) \<or> is_tombstone_key p (key_at m1 b) \<or> isPurgeable p (val_at m1 b))"
    (is "\<exists>m1 b. ?I = Inr (m1, Some b) \<and> ?P m1 b")
proof -
  let ?N = "NumBuckets m" and ?E = "NumEntries m" and ?T = "NumTombstones m"
  have sz: "?E + ?T \<le> ?N" "?N \<noteq> 0 \<Longrightarrow> ?E + ?T < ?N" using dm_inv_bounds [OF assms(1)] by auto
  have w: "u32w (?E + 1) = ?E + 1" "u32w (?E + 1 + ?T) = ?E + 1 + ?T" "u32w (?N * 3) = ?N * 3"
    "u32w (?N * 2) = ?N * 2" "u32w ((?E + 1) * 4) = (?E + 1) * 4"
    using sz assms(2) by (auto intro!: u32w_id)
  have pow: "?N = 0 \<or> is_pow2 ?N" using assms(1) by (simp add: dm_inv_def dm_shape_def)
  have gle: "grow_size n \<le> max 4 n" if "n = ?N \<or> n = ?N * 2" for n
  proof (cases "n \<le> 4")
    case True
    then have "grow_size n \<le> 2 ^ 2" by (intro grow_size_spec(5)) auto
    then show ?thesis by simp
  next
    case False
    then have "is_pow2 ?N" using pow that by auto
    then obtain j where "?N = 2 ^ j" by (auto simp: is_pow2_def)
    then have "is_pow2 n" using that is_pow2_pow [of j] is_pow2_pow [of "Suc j"] by (auto simp: mult.commute)
    then have "grow_size n = n" using False that assms(2) by (intro grow_size_pow2) auto
    then show ?thesis using that by auto
  qed
  consider (big) "?N * 3 \<le> (?E + 1) * 4" | (tomb) "(?E + 1) * 4 < ?N * 3" "?N - (?E + 1 + ?T) \<le> ?N div 8"
    | (room) "(?E + 1) * 4 < ?N * 3" "?N div 8 < ?N - (?E + 1 + ?T)" by linarith
  then show ?thesis
  proof cases
    case big
    have "?E + 1 < grow_size (?N * 2)"
      using grow_size_spec(2,3) [of "?N * 2"] sz assms(2) by (cases "?N = 0") auto
    then show ?thesis
      using grow_then_lookup [OF assms(1,3,4), of "?N * 2"] assms(2) gle [of "?N * 2"] big w by auto
  next
    case tomb
    have "?E + 1 < grow_size ?N" using grow_size_spec(2) [of ?N] tomb(1) assms(2) by auto
    moreover have "u32sub ?N (?E + 1 + ?T) = ?N - (?E + 1 + ?T)"
      using sz tomb(1) assms(2) by (intro u32sub_id) auto
    ultimately show ?thesis
      using grow_then_lookup [OF assms(1,3,4), of ?N] assms(2) gle [of ?N] tomb w by auto
  next
    case room
    have I: "?I = Inr (m, tb)"
      using room w u32sub_id [of "?E + 1 + ?T" ?N] assms(2) sz by auto
    from assms(1,3) show ?thesis
    proof (cases rule: lookup_cases)
      case (missing b)
      then show ?thesis using I room assms(1,5) by (intro exI [of _ m] exI [of _ b]) auto
    qed (use assms(4,5) room in auto)
  qed
qed

lemma store_kept:
  assumes "dm_inv p m" "b < NumBuckets m" "is_live_key p k" "dm_map p m k = None"
    "is_empty_key p (key_at m b) \<or> is_tombstone_key p (key_at m b) \<or> isPurgeable p (val_at m b)"
  shows "dm_kept p (set_bucket b (k, v) m) = upd_eq (KeyInfo p) (dm_kept p m) k (keep p (Some v))"
    and "dm_map p (set_bucket b (k, v) m) k = Some v"
proof -
  have i: "dm_shape p m" "dm_distinct p m" using assms(1) by (auto simp: dm_inv_def)
  note M = dm_map_set_bucket_live [OF i assms(2-4), of v]
  have "keep p (dm_map p m k') = None" if "live_at p m b" "isEqual (KeyInfo p) k' (key_at m b)" for k'
  proof -
    have "dm_map p m k' = Some (val_at m b)" using dm_map_eq_Some_iff [OF i] that by blast
    then show ?thesis using assms(5) that(1) by (auto simp: live_at_def is_live_key_def)
  qed
  then show "dm_kept p (set_bucket b (k, v) m) = upd_eq (KeyInfo p) (dm_kept p m) k (keep p (Some v))"
    unfolding dm_kept_def M by (auto simp: fun_eq_iff upd_eq_def)
  show "dm_map p (set_bucket b (k, v) m) k = Some v" unfolding M by (simp add: upd_eq_def eq_refl)
qed

lemma inserted_store:
  assumes "dm_inv p m1" "dm_map p m1 k = None" "dm_kept p m1 = dm_kept p m" "b < NumBuckets m1"
    "reaches p m1 k b" "NumBuckets m1 \<le> max (NumBuckets m) (4 * (NumEntries m + 1))" "is_live_key p k"
    "is_empty_key p (key_at m1 b) \<or> is_tombstone_key p (key_at m1 b) \<or> isPurgeable p (val_at m1 b)"
    "e + of_bool (live_at p m1 b) = NumEntries m1 + 1" "NumEntries m1 \<le> NumEntries m"
    "t + of_bool (is_tombstone_key p (key_at m1 b)) = NumTombstones m1" "e + t < NumBuckets m1"
  shows "inserted p m k v ((set_bucket b (k, v) m1)\<lparr>NumEntries := e, NumTombstones := t\<rparr>) b"
proof -
  have sh: "dm_shape p m1" using assms(1) by (simp add: dm_inv_def)
  note at = at_set_bucket [OF sh assms(4)]
  have "dm_inv p ((set_bucket b (k, v) m1)\<lparr>NumEntries := e, NumTombstones := t\<rparr>)"
    using assms by (intro dm_inv_store) auto
  then show ?thesis
    using store_kept [OF assms(1,4,7,2,8), of v] assms(3,4,6,7,9,10)
    unfolding inserted_def by (auto simp: live_at_def at dm_kept_def fun_eq_iff upd_eq_def)
qed

lemma InsertIntoBucket_spec:
  assumes "dm_inv p m" "NumBuckets m \<le> 2 ^ 29" "is_live_key p k" "dm_map p m k = None"
    "LookupBucketFor p m k = Inr (False, tb)"
  shows "\<exists>m' i. InsertIntoBucket p tb k v m = Inr (m', i) \<and> inserted p m k v m' i"
proof -
  obtain m1 b where r: "(if u32w (u32w (NumEntries m + 1) * 4) \<ge> u32w (NumBuckets m * 3) then
          bindE (grow p (u32w (NumBuckets m * 2)) m) (\<lambda>m.
          bindE (LookupBucketFor p m k) (\<lambda>(_, b). Inr (m, b)))
        else if u32sub (NumBuckets m) (u32w (u32w (NumEntries m + 1) + NumTombstones m)) \<le> NumBuckets m div 8 then
          bindE (grow p (NumBuckets m) m) (\<lambda>m.
          bindE (LookupBucketFor p m k) (\<lambda>(_, b). Inr (m, b)))
        else Inr (m, tb)) = Inr (m1, Some b)"
    and i: "dm_inv p m1" "dm_map p m1 k = None" "dm_kept p m1 = dm_kept p m" "b < NumBuckets m1"
      "reaches p m1 k b" "NumEntries m1 + NumTombstones m1 + 1 < NumBuckets m1"
      "NumBuckets m1 \<le> max (NumBuckets m) (4 * (NumEntries m + 1))"
      "is_empty_key p (key_at m1 b) \<or> is_tombstone_key p (key_at m1 b) \<or> isPurgeable p (val_at m1 b)" "NumEntries m1 \<le> NumEntries m"
    using insert_room [OF assms] by blast
  have u: "u32w (NumEntries m1 + 1) = NumEntries m1 + 1"
    using i(6) dm_inv_bounds(1) [OF i(1)] by (intro u32w_id) linarith
  have u': "u32sub (NumTombstones m1) 1 = NumTombstones m1 - 1" if "0 < NumTombstones m1"
    using that i(6) dm_inv_bounds(1) [OF i(1)] by (intro u32sub_id) linarith+
  let ?store = "\<lambda>e t. (set_bucket b (k, v) m1)\<lparr>NumEntries := e, NumTombstones := t\<rparr>"
  note st = inserted_store [OF i(1-5,7) assms(3) i(8) _ i(9)]
  have impl: "InsertIntoBucketImpl p k tb m =
    (if is_empty_key p (key_at m1 b) then Inr (m1\<lparr>NumEntries := NumEntries m1 + 1\<rparr>, b)
     else if is_tombstone_key p (key_at m1 b) then
       Inr (m1\<lparr>NumEntries := NumEntries m1 + 1, NumTombstones := u32sub (NumTombstones m1) 1\<rparr>, b)
     else if \<not> isPurgeable p (val_at m1 b) then Inl AssertFailed else Inr (m1, b))"
    unfolding InsertIntoBucketImpl_def Let_def r bindE_Inr prod.case option.case u key_at_def val_at_def ..
  consider (empty) "is_empty_key p (key_at m1 b)" | (tomb) "is_tombstone_key p (key_at m1 b)" "\<not> is_empty_key p (key_at m1 b)"
    | (purge) "isPurgeable p (val_at m1 b)" "live_at p m1 b"
    using i(4,8) by (auto simp: live_at_def is_live_key_def)
  then show ?thesis
  proof cases
    case empty
    then have "InsertIntoBucket p tb k v m = Inr (?store (NumEntries m1 + 1) (NumTombstones m1), b)"
      unfolding InsertIntoBucket_def impl by (cases m1) (simp add: set_bucket_def)
    then show ?thesis using st [of "NumEntries m1 + 1" "NumTombstones m1"] empty i(6) not_empty_and_tombstone
      by (auto simp: live_at_def is_live_key_def)
  next
    case tomb
    then have pos: "0 < NumTombstones m1" using tomb_count_pos [OF i(1,4)] by simp
    have "InsertIntoBucket p tb k v m = Inr (?store (NumEntries m1 + 1) (NumTombstones m1 - 1), b)"
      unfolding InsertIntoBucket_def impl u' [OF pos] using tomb by (cases m1) (simp add: set_bucket_def)
    then show ?thesis using st [of "NumEntries m1 + 1" "NumTombstones m1 - 1"] tomb i(6) pos
      by (auto simp: live_at_def is_live_key_def)
  next
    case purge
    then have "InsertIntoBucket p tb k v m = Inr (?store (NumEntries m1) (NumTombstones m1), b)"
      unfolding InsertIntoBucket_def impl by (cases m1) (simp add: set_bucket_def live_at_def is_live_key_def)
    then show ?thesis using st [of "NumEntries m1" "NumTombstones m1"] purge i(6)
      by (auto simp: live_at_def is_live_key_def)
  qed
qed

lemma try_emplace_new:
  assumes "dm_inv p m" "NumBuckets m \<le> 2 ^ 29" "is_live_key p k" "dm_map p m k = None"
  shows "\<exists>m' i. try_emplace p k v m = Inr (m', i, True) \<and> inserted p m k v m' i"
proof -
  obtain tb where L: "LookupBucketFor p m k = Inr (False, tb)"
    using assms(1,3) by (cases rule: lookup_cases) (use assms(4) in auto)
  from InsertIntoBucket_spec [OF assms L] show ?thesis
    by (force simp: try_emplace_def L)
qed

lemma try_emplace_old:
  assumes "dm_inv p m" "is_live_key p k" "dm_map p m k = Some w"
  shows "\<exists>i. try_emplace p k v m = Inr (m, i, False) \<and> live_at p m i \<and>
    isEqual (KeyInfo p) k (key_at m i) \<and> val_at m i = w"
  using assms(1,2) by (cases rule: lookup_cases) (use assms(3) in \<open>auto simp: try_emplace_def\<close>)

lemma FindAndConstruct_new:
  assumes "dm_inv p m" "NumBuckets m \<le> 2 ^ 29" "is_live_key p k" "dm_map p m k = None"
  shows "\<exists>m' i. FindAndConstruct p k m = Inr (m', i) \<and> inserted p m k (ValueT p) m' i"
proof -
  obtain tb where L: "LookupBucketFor p m k = Inr (False, tb)"
    using assms(1,3) by (cases rule: lookup_cases) (use assms(4) in auto)
  from InsertIntoBucket_spec [OF assms L] show ?thesis by (force simp: FindAndConstruct_def L)
qed

lemma FindAndConstruct_old:
  assumes "dm_inv p m" "is_live_key p k" "dm_map p m k = Some w"
  shows "\<exists>i. FindAndConstruct p k m = Inr (m, i) \<and> live_at p m i \<and>
    isEqual (KeyInfo p) k (key_at m i) \<and> val_at m i = w"
  using assms(1,2) by (cases rule: lookup_cases) (use assms(3) in \<open>auto simp: FindAndConstruct_def\<close>)

lemma set_second_spec:
  assumes "dm_inv p m" "live_at p m i"
  shows "dm_inv p (set_second i v m)"
    and "dm_map p (set_second i v m) = upd_eq (KeyInfo p) (dm_map p m) (key_at m i) (Some v)"
    and "NumBuckets (set_second i v m) = NumBuckets m"
proof -
  have s: "set_second i v m = set_bucket i (key_at m i, v) m"
    by (simp add: set_second_def set_bucket_def key_at_def)
  have i: "dm_shape p m" "dm_counts p m" "dm_distinct p m" "dm_reachable p m" "i < NumBuckets m"
    "is_live_key p (key_at m i)"
    using assms by (auto simp: dm_inv_def live_at_def)
  have "key_at (set_second i v m) = key_at m" unfolding s by (auto simp: at_set_bucket [OF i(1,5)])
  then have "dm_distinct p (set_second i v m)" "dm_reachable p (set_second i v m)"
    using i(3,4) by (auto simp: s dm_distinct_def dm_reachable_def live_at_def reaches_def)
  moreover have "dm_counts p (set_second i v m)"
    using live_count_set_bucket [OF i(1,5), of "(key_at m i, v)"] i(2,6) assms(2)
    by (auto simp: s dm_counts_def is_live_key_def)
  ultimately show "dm_inv p (set_second i v m)" using i(1) by (simp add: s dm_inv_def)
  show "dm_map p (set_second i v m) = upd_eq (KeyInfo p) (dm_map p m) (key_at m i) (Some v)"
    unfolding s using i assms(2) by (intro dm_map_set_bucket_value)
  show "NumBuckets (set_second i v m) = NumBuckets m" by (simp add: s)
qed

section \<open>Fresh tables\<close>

lemma min_buckets_spec:
  assumes "n \<le> 2 ^ 29"
  shows "getMinBucketToReserveForEntries n = 0 \<longleftrightarrow> n = 0"
    and "n \<noteq> 0 \<Longrightarrow> is_pow2 (getMinBucketToReserveForEntries n)"
    and "n \<noteq> 0 \<Longrightarrow> n * 4 < getMinBucketToReserveForEntries n * 3"
    and "getMinBucketToReserveForEntries n \<le> 2 ^ 31"
    and "n \<le> 2 ^ k \<Longrightarrow> 1 \<le> k \<Longrightarrow> getMinBucketToReserveForEntries n \<le> 2 ^ Suc k"
proof -
  let ?x = "n * 4 div 3 + 1"
  define A :: u32 where "A = of_nat ?x"
  have w: "u32w (u32w (n * 4) div 3 + 1) = ?x" using assms by (simp add: u32w_def)
  have A: "unat A = ?x" unfolding A_def using assms by (intro unat_of_nat_u32) simp
  have g: "getMinBucketToReserveForEntries n = (if n = 0 then 0 else unat (NextPowerOf2_32 A))"
    by (simp only: getMinBucketToReserveForEntries_def w A_def)
  have lt: "unat A < 2 ^ 31" using A assms by simp
  note np = NextPowerOf2_32_spec [OF lt]
  show "getMinBucketToReserveForEntries n = 0 \<longleftrightarrow> n = 0" using g np(2) by simp
  show "n \<noteq> 0 \<Longrightarrow> is_pow2 (getMinBucketToReserveForEntries n)" using g np(1) by simp
  show "n \<noteq> 0 \<Longrightarrow> n * 4 < getMinBucketToReserveForEntries n * 3" using g np(2) A by simp
  show "getMinBucketToReserveForEntries n \<le> 2 ^ 31" using g np(3) [OF lt] by simp
  show "getMinBucketToReserveForEntries n \<le> 2 ^ Suc k" if k: "n \<le> 2 ^ k" "1 \<le> k"
  proof -
    have "(2::nat) ^ 1 \<le> 2 ^ k" using k(2) by (intro power_increasing) auto
    then have "unat A < 2 ^ Suc k" using A k(1) by simp
    from np(3) [OF this] show ?thesis using g by simp
  qed
qed

lemma dm_init_spec:
  assumes "n \<le> 2 ^ 29"
  shows "\<exists>m'. dm_init p n m = Inr m' \<and> dm_inv p m' \<and> dm_map p m' = Map.empty \<and> NumEntries m' = 0 \<and>
    NumTombstones m' = 0 \<and> NumBuckets m' = getMinBucketToReserveForEntries n"
proof -
  let ?N = "getMinBucketToReserveForEntries n"
  define m1 where "m1 = m\<lparr>NumBuckets := ?N, Buckets := replicate ?N (uninit p)\<rparr>"
  have al: "allocateBuckets p ?N m = (m1, ?N \<noteq> 0)" by (simp add: allocateBuckets_def m1_def)
  show ?thesis
  proof (cases "?N = 0")
    case True
    define m2 where "m2 = m1\<lparr>NumEntries := 0, NumTombstones := 0\<rparr>"
    have "dm_init p n m = Inr m2"
      unfolding dm_init_def Let_def al prod.case using True by (simp add: m2_def)
    moreover have "dm_inv p m2" using True
      by (simp add: m2_def m1_def dm_inv_def dm_shape_def dm_counts_def dm_distinct_def dm_reachable_def
          live_at_def live_list_def tomb_list_def)
    moreover have "dm_map p m2 = Map.empty" using True by (simp add: m2_def m1_def dm_map_def fun_eq_iff)
    ultimately show ?thesis using True by (simp add: m2_def m1_def)
  next
    case False
    then have "is_pow2 ?N" "?N < 2 ^ 32" using min_buckets_spec [OF assms] by auto
    then obtain m' where "initEmpty p m1 = Inr m'" "dm_inv p m'" "dm_map p m' = Map.empty"
      "NumEntries m' = 0" "NumTombstones m' = 0" "NumBuckets m' = NumBuckets m1"
      using initEmpty_spec [of m1] by (auto simp: m1_def)
    then show ?thesis unfolding dm_init_def Let_def al prod.case using False by (simp add: m1_def)
  qed
qed

lemma shrink_size:
  assumes "e \<noteq> 0" "e \<le> 2 ^ k" "1 \<le> k" "k \<le> 28"
  shows "nat (max (int MIN_BUCKETS) (sint (push_bit (Log2_32_Ceil (of_nat e) + 1) (1 :: u32)))) \<le> 2 ^ Suc k"
proof -
  have p: "(2::nat) ^ k \<le> 2 ^ 28" using assms(4) by (intro power_increasing) auto
  define v :: u32 where "v = of_nat e"
  have v: "unat v = e" unfolding v_def using le_trans [OF assms(2) p] by (intro unat_of_nat_u32) simp
  then have "v \<noteq> 0" using assms(1) by auto
  then have L: "Log2_32_Ceil v \<le> k" using Log2_32_Ceil_spec [of v] v assms(2) by auto
  have sh: "sint (push_bit k (1 :: u32)) = 2 ^ k" if "k \<le> 29" for k
  proof -
    have "(2::nat) ^ k < 2 ^ 31" using that by (intro power_strict_increasing) auto
    from sint_of_nat_u32 [OF this] show ?thesis by (simp add: push_bit_eq_mult)
  qed
  have "sint (push_bit (Log2_32_Ceil v + 1) (1 :: u32)) = 2 ^ (Log2_32_Ceil v + 1)"
    by (rule sh) (use L assms(4) in simp)
  moreover have "(2::int) ^ (Log2_32_Ceil v + 1) \<le> 2 ^ Suc k" "(2::int) ^ 2 \<le> 2 ^ Suc k"
    using L assms(3) by (intro power_increasing; simp)+
  ultimately have "max (int MIN_BUCKETS) (sint (push_bit (Log2_32_Ceil v + 1) (1 :: u32))) \<le> 2 ^ Suc k"
    by (simp add: MIN_BUCKETS_def)
  then show ?thesis unfolding v_def nat_le_iff by simp
qed

lemma shrink_and_clear_spec:
  assumes "dm_inv p m" "NumEntries m \<le> 2 ^ k" "1 \<le> k" "k \<le> 28"
  shows "\<exists>m'. shrink_and_clear p m = Inr m' \<and> dm_inv p m' \<and> dm_map p m' = Map.empty \<and> NumEntries m' = 0 \<and>
    NumTombstones m' = 0 \<and> NumBuckets m' \<le> max (NumBuckets m) (if NumEntries m = 0 then 0 else 2 ^ Suc (Suc k))"
proof -
  define n where "n = (if NumEntries m \<noteq> 0
    then nat (max (int MIN_BUCKETS) (sint (push_bit (Log2_32_Ceil (of_nat (NumEntries m)) + 1) (1 :: u32)))) else 0)"
  have nk: "n \<le> 2 ^ Suc k" using assms(2-4) shrink_size [of "NumEntries m" k] unfolding n_def
    by (cases "NumEntries m = 0") simp_all
  have "(2::nat) ^ Suc k \<le> 2 ^ 29" using assms(4) by (intro power_increasing) auto
  then have n: "n \<le> 2 ^ 29" using nk by linarith
  have g: "getMinBucketToReserveForEntries n \<le> (if NumEntries m = 0 then 0 else 2 ^ Suc (Suc k))"
    using min_buckets_spec(5) [OF n nk] min_buckets_spec(1) [OF n] by (auto simp: n_def)
  have "shrink_and_clear p m = (if n = NumBuckets m then initEmpty p m else dm_init p n m)"
    by (simp only: shrink_and_clear_def n_def Let_def)
  moreover have "dm_shape p m" using assms(1) by (simp add: dm_inv_def)
  ultimately show ?thesis using dm_init_spec [OF n, of m] initEmpty_spec [of m] g
    by (cases "n = NumBuckets m") (force simp: dm_shape_def le_max_iff_disj)+
qed

lemma reserve_spec:
  assumes "dm_inv p m" "n \<le> 2 ^ k" "1 \<le> k" "k \<le> 29"
  shows "\<exists>m'. reserve p n m = Inr m' \<and> dm_inv p m' \<and> dm_kept p m' = dm_kept p m \<and>
    (n \<noteq> 0 \<longrightarrow> n * 4 < NumBuckets m' * 3) \<and> NumEntries m' \<le> NumEntries m \<and>
    NumBuckets m' \<le> max (NumBuckets m) (2 ^ Suc k)"
proof -
  have "(2::nat) ^ k \<le> 2 ^ 29" using assms(4) by (intro power_increasing) auto
  then have le_29: "n \<le> 2 ^ 29" using assms(2) by (rule order_trans [rotated])
  show ?thesis
  proof (cases "getMinBucketToReserveForEntries n > NumBuckets m")
    case True
    let ?N = "getMinBucketToReserveForEntries n"
    note mb = min_buckets_spec [OF le_29]
    have "?N \<le> grow_size ?N" using mb(4) by (rule grow_size_spec(2))
    moreover have "length (kept_list p (Buckets m)) < ?N"
      using dm_inv_bounds(3,4) [OF assms(1)] True by linarith
    ultimately obtain m' where "grow p ?N m = Inr m'" "dm_inv p m'" "NumBuckets m' = grow_size ?N"
      "dm_map p m' = dm_kept p m" "NumEntries m' = length (kept_list p (Buckets m))"
      using grow_spec [OF assms(1) mb(4)] by force
    moreover have "grow_size ?N \<le> 2 ^ Suc k"
      using assms(2,3) mb(4,5) by (intro grow_size_spec(5)) auto
    ultimately show ?thesis using True mb(3) \<open>?N \<le> grow_size ?N\<close> dm_inv_bounds(4) [OF assms(1)]
      by (intro exI [of _ m']) (auto simp: reserve_def dm_kept_def fun_eq_iff le_max_iff_disj)
  next
    case False
    then have "n \<noteq> 0 \<Longrightarrow> n * 4 < NumBuckets m * 3" using min_buckets_spec(3) [OF le_29] by linarith
    then show ?thesis using False assms(1) by (simp add: reserve_def)
  qed
qed

section \<open>Erasing and clearing\<close>

lemma compact_spec:
  assumes "dm_inv p m"
  shows "\<exists>m'. compact p m = Inr m' \<and> dm_inv p m' \<and> dm_kept p m' = dm_kept p m \<and>
    NumEntries m' \<le> NumEntries m \<and> NumBuckets m' \<le> NumBuckets m \<and>
    (dm_map p m' = dm_map p m \<or> dm_map p m' = dm_kept p m)"
proof -
  consider (none) "NumEntries m = 0" | (grow) "NumEntries m \<noteq> 0" "NumBuckets m div 16 > NumEntries m" "NumBuckets m > MIN_COMPACT"
    | (same) "NumEntries m \<noteq> 0" "\<not> (NumBuckets m div 16 > NumEntries m \<and> NumBuckets m > MIN_COMPACT)" by blast
  then show ?thesis
  proof cases
    case none
    have "dm_counts p m" using assms by (simp add: dm_inv_def)
    then have "live_list p (Buckets m) = []" using none by (simp add: dm_counts_def)
    then have "dm_map p m = Map.empty"
      by (auto simp: fun_eq_iff dm_map_def list_map_None_iff live_list_def filter_empty_conv)
    then show ?thesis
      using shrink_and_clear_spec [OF assms, of 1] none by (force simp: compact_def dm_kept_def fun_eq_iff)
  next
    case grow
    have "NumBuckets m < 2 ^ 32" using dm_inv_bounds(1) [OF assms] .
    then have w: "u32w (NumEntries m * 2) = NumEntries m * 2" and b: "NumEntries m * 2 \<le> 2 ^ 31"
      using grow(2) by (auto intro!: u32w_id)
    have k: "length (kept_list p (Buckets m)) \<le> NumEntries m" using dm_inv_bounds(4) [OF assms] .
    also have "\<dots> < grow_size (NumEntries m * 2)" using grow_size_spec(2) [OF b] grow(1) by simp
    finally obtain m' where "DenseMap.grow p (NumEntries m * 2) m = Inr m'" "dm_inv p m'"
      "NumEntries m' = length (kept_list p (Buckets m))" "dm_map p m' = dm_kept p m"
      "NumBuckets m' = grow_size (NumEntries m * 2)"
      using grow_spec [OF assms b] by blast
    moreover have "grow_size (NumEntries m * 2) \<le> NumBuckets m"
    proof -
      have "is_pow2 (NumBuckets m)" using assms grow(2) by (auto simp: dm_inv_def dm_shape_def)
      then obtain j where j: "NumBuckets m = 2 ^ j" by (auto simp: is_pow2_def)
      have "2 \<le> j"
      proof (rule ccontr)
        assume "\<not> 2 \<le> j"
        then have "(2::nat) ^ j \<le> 2 ^ 1" by (intro power_increasing) auto
        then show False using grow(3) j by (simp add: MIN_COMPACT_def)
      qed
      then show ?thesis using grow_size_spec(5) [OF b, of j] grow(2) j by simp
    qed
    ultimately show ?thesis using grow w k by (auto simp: compact_def dm_kept_def fun_eq_iff)
  next
    case same
    then show ?thesis using assms by (auto simp: compact_def)
  qed
qed

lemma dm_inv_tombstone:
  assumes "dm_inv p m" "live_at p m b" "NumEntries m = e + 1"
  shows "dm_inv p ((set_bucket b (getTombstoneKey (KeyInfo p), v) m)
    \<lparr>NumEntries := e, NumTombstones := NumTombstones m + 1\<rparr>)"
proof -
  have i: "dm_shape p m" "dm_counts p m" "dm_distinct p m" "dm_reachable p m" "b < NumBuckets m"
    "\<not> is_tombstone_key p (key_at m b)"
    using assms by (auto simp: dm_inv_def live_at_def is_live_key_def)
  let ?B = "(getTombstoneKey (KeyInfo p), v)"
  have "dm_distinct p (set_bucket b ?B m)" "dm_reachable p (set_bucket b ?B m)"
    using i by (auto intro!: dm_distinct_set_bucket dm_reachable_set_bucket)
  moreover have "dm_counts p ((set_bucket b ?B m)\<lparr>NumEntries := e, NumTombstones := NumTombstones m + 1\<rparr>)"
    using live_count_set_bucket [OF i(1,5), of ?B] i(2,6) assms(2,3) by (auto simp: dm_counts_def)
  ultimately show ?thesis using i(1) by (simp add: dm_inv_def)
qed

lemma erase_bucket_spec:
  assumes "dm_inv p m" "live_at p m b"
  shows "\<exists>m'. erase_bucket p b m = Inr m' \<and> dm_inv p m' \<and>
    dm_kept p m' = upd_eq (KeyInfo p) (dm_kept p m) (key_at m b) None \<and>
    dm_map p m' (key_at m b) = None \<and> NumEntries m' < NumEntries m \<and> NumBuckets m' \<le> NumBuckets m"
proof -
  obtain e where e: "NumEntries m = e + 1" using live_count_pos [OF assms] by (metis Suc_eq_plus1 gr0_implies_Suc)
  let ?B = "(getTombstoneKey (KeyInfo p), val_at m b)"
  define m1 where "m1 = (set_bucket b ?B m)\<lparr>NumEntries := e, NumTombstones := NumTombstones m + 1\<rparr>"
  have bd: "NumEntries m + NumTombstones m < 2 ^ 32"
    using dm_inv_bounds(1,3) [OF assms(1)] by linarith
  then have "u32sub (NumEntries m) 1 = e" using e by (subst u32sub_id) auto
  moreover have "u32w (NumTombstones m + 1) = NumTombstones m + 1" using bd e by (intro u32w_id) linarith
  ultimately have eb: "erase_bucket p b m = compact p m1"
    by (simp add: erase_bucket_def m1_def set_bucket_def val_at_def)
  have i: "dm_shape p m" "dm_distinct p m" using assms(1) by (auto simp: dm_inv_def)
  have map1: "dm_map p m1 = upd_eq (KeyInfo p) (dm_map p m) (key_at m b) None"
    unfolding m1_def using dm_map_set_bucket_dead [OF i assms(2), of ?B] by simp
  have "dm_inv p m1" unfolding m1_def by (rule dm_inv_tombstone [OF assms e])
  from compact_spec [OF this] obtain m' where m': "compact p m1 = Inr m'" "dm_inv p m'"
    "dm_kept p m' = dm_kept p m1" "NumEntries m' \<le> NumEntries m1" "NumBuckets m' \<le> NumBuckets m1"
    "dm_map p m' = dm_map p m1 \<or> dm_map p m' = dm_kept p m1" by blast
  have "dm_kept p m1 = upd_eq (KeyInfo p) (dm_kept p m) (key_at m b) None"
    by (auto simp: fun_eq_iff dm_kept_def map1 upd_eq_def)
  moreover have "dm_map p m' (key_at m b) = None"
    using m'(6) by (auto simp: dm_kept_def map1 upd_eq_def eq_refl)
  ultimately show ?thesis using eb m' e by (auto simp: m1_def)
qed

lemma dm_erase_spec:
  assumes "dm_inv p m" "is_live_key p k"
  shows "\<exists>m'. dm_erase p k m = Inr (m', dm_map p m k \<noteq> None) \<and> dm_inv p m' \<and>
    dm_kept p m' = upd_eq (KeyInfo p) (dm_kept p m) k None \<and> dm_map p m' k = None \<and>
    NumEntries m' \<le> NumEntries m \<and> NumBuckets m' \<le> NumBuckets m"
  using assms
proof (cases rule: lookup_cases)
  case (found b)
  have "upd_eq (KeyInfo p) f (key_at m b) x = upd_eq (KeyInfo p) f k x" for f and x :: "'v option"
    using eq_cong [OF found(3)] eq_cong by (auto simp: upd_eq_def fun_eq_iff)
  moreover have "dm_map p m' k = dm_map p m' (key_at m b)" for m' using found(3) by (rule dm_map_cong)
  ultimately show ?thesis
    using erase_bucket_spec [OF assms(1) found(2)] found(1,4) by (force simp: dm_erase_def)
qed (use assms in \<open>auto simp: dm_erase_def upd_eq_def dm_kept_def fun_eq_iff dest: dm_map_cong [of _ _ m]\<close>)

lemma clear_loop_spec:
  "clear_loop p bs n = (map (\<lambda>B. if is_empty_key p (fst B) then B else (getEmptyKey (KeyInfo p), snd B)) bs,
     n - length (live_list p bs))"
  if "length (live_list p bs) \<le> n" "n < 2 ^ 32"
  using that
proof (induction bs arbitrary: n)
  case (Cons B Bs)
  have u: "u32sub n 1 = n - 1" if "0 < n" using that Cons.prems(2) by (intro u32sub_id) auto
  show ?case
    using Cons.IH [of n] Cons.IH [of "n - 1"] Cons.prems u
    by (auto simp: live_list_def is_live_key_def Let_def split: if_splits)
qed (simp add: live_list_def)

lemma dm_clear_spec:
  assumes "dm_inv p m" "NumEntries m \<le> 2 ^ k" "1 \<le> k" "k \<le> 28"
  shows "\<exists>m'. dm_clear p m = Inr m' \<and> dm_inv p m' \<and> dm_map p m' = Map.empty \<and> NumEntries m' = 0 \<and>
    NumBuckets m' \<le> max (NumBuckets m) (2 ^ Suc (Suc k))"
proof -
  have sh: "dm_shape p m" and cn: "dm_counts p m" using assms(1) by (auto simp: dm_inv_def)
  have wipe: "dm_inv p m' \<and> dm_map p m' = Map.empty \<and> NumEntries m' = 0 \<and> NumBuckets m' \<le> max (NumBuckets m) x"
    if m': "m' = m\<lparr>Buckets := bs, NumEntries := 0, NumTombstones := 0\<rparr>" "length bs = NumBuckets m"
      "\<forall>B\<in>set bs. is_empty_key p (fst B)" for m' bs x
  proof -
    have dead: "\<not> live_at p m' b" for b
      using m' by (auto simp: live_at_def key_at_def is_live_key_def)
    have "live_list p bs = []" "tomb_list p bs = []"
      using m'(3) not_empty_and_tombstone by (auto simp: live_list_def tomb_list_def filter_empty_conv is_live_key_def)
    then have "dm_counts p m'" using m'(1) by (simp add: dm_counts_def)
    moreover have s: "dm_shape p m'" using sh m' by (simp add: dm_shape_def)
    moreover have "dm_map p m' = Map.empty" using dead dm_map_eq_None_iff [OF s] by blast
    ultimately show ?thesis using dead m'(1) by (simp add: dm_inv_def dm_distinct_def dm_reachable_def)
  qed
  consider (none) "NumEntries m = 0 \<and> NumTombstones m = 0"
    | (shrink) "\<not> (NumEntries m = 0 \<and> NumTombstones m = 0)" "u32w (NumEntries m * 4) < NumBuckets m \<and> NumBuckets m > MIN_BUCKETS"
    | (wipe) "\<not> (NumEntries m = 0 \<and> NumTombstones m = 0)" "\<not> (u32w (NumEntries m * 4) < NumBuckets m \<and> NumBuckets m > MIN_BUCKETS)"
    by blast
  then show ?thesis
  proof cases
    case none
    then have "live_list p (Buckets m) = []" using cn by (simp add: dm_counts_def)
    then have "dm_map p m = Map.empty"
      by (auto simp: fun_eq_iff dm_map_def list_map_None_iff live_list_def filter_empty_conv)
    with none assms(1) show ?thesis by (simp add: dm_clear_def)
  next
    case shrink
    then show ?thesis using shrink_and_clear_spec [OF assms] by (force simp: dm_clear_def split: if_splits)
  next
    case wipe': wipe
    show ?thesis
    proof (cases "is_trivially_copyable p")
      case True
      let ?bs = "map (\<lambda>B. (getEmptyKey (KeyInfo p), snd B)) (Buckets m)"
      have "dm_clear p m = Inr (m\<lparr>Buckets := ?bs, NumEntries := 0, NumTombstones := 0\<rparr>)"
        unfolding dm_clear_def if_not_P [OF wipe'(1)] if_not_P [OF wipe'(2)] if_P [OF True] ..
      moreover have "length ?bs = NumBuckets m" "\<forall>B\<in>set ?bs. is_empty_key p (fst B)"
        using sh by (auto simp: dm_shape_def)
      ultimately show ?thesis using wipe [OF refl, of ?bs] by blast
    next
      case False
      let ?bs = "map (\<lambda>B. if is_empty_key p (fst B) then B else (getEmptyKey (KeyInfo p), snd B)) (Buckets m)"
      have "clear_loop p (Buckets m) (NumEntries m) = (?bs, 0)"
        using clear_loop_spec [of "Buckets m" "NumEntries m"] cn dm_inv_bounds(1,3) [OF assms(1)]
        by (simp add: dm_counts_def)
      then have "dm_clear p m = Inr (m\<lparr>Buckets := ?bs, NumEntries := 0, NumTombstones := 0\<rparr>)"
        unfolding dm_clear_def if_not_P [OF wipe'(1)] if_not_P [OF wipe'(2)] if_not_P [OF False] by simp
      moreover have "length ?bs = NumBuckets m" "\<forall>B\<in>set ?bs. is_empty_key p (fst B)"
        using sh by (auto simp: dm_shape_def)
      ultimately show ?thesis using wipe [OF refl, of ?bs] by blast
    qed
  qed
qed

end

end
