(* ===== verification/DenseMap_Iterate.thy ===== *)
theory DenseMap_Iterate
  imports DenseMap_Correct
begin

text \<open>
  Iteration over a \<open>DenseMap\<close>, the comparison operator built on it, copying
  and swapping.
\<close>

lemma AdvancePastEmptyBuckets_skip:
  assumes "length (Buckets m) = NumBuckets m"
  shows "live_list p (drop (AdvancePastEmptyBuckets p m i) (Buckets m)) = live_list p (drop i (Buckets m))"
    and "AdvancePastEmptyBuckets p m i < NumBuckets m \<Longrightarrow> live_at p m (AdvancePastEmptyBuckets p m i)"
  using assms
proof (induction p m i rule: AdvancePastEmptyBuckets.induct)
  case (1 p m i)
  note IH = 1(1,2)
  let ?c = "i < NumBuckets m \<and>
    (is_empty_key p (fst (Buckets m ! i)) \<or> is_tombstone_key p (fst (Buckets m ! i)))"
  {
    case 1
    show ?case
    proof (cases ?c)
      case True
      then have "drop i (Buckets m) = Buckets m ! i # drop (i + 1) (Buckets m)"
        using 1 by (simp add: Cons_nth_drop_Suc)
      then have "live_list p (drop (i + 1) (Buckets m)) = live_list p (drop i (Buckets m))"
        using True by (auto simp: live_list_def is_live_key_def)
      then show ?thesis using IH(1) [OF True 1] True by (subst AdvancePastEmptyBuckets.simps) simp
    next
      case False
      then have "AdvancePastEmptyBuckets p m i = i" by (subst AdvancePastEmptyBuckets.simps) auto
      then show ?thesis by simp
    qed
  next
    case 2
    show ?case
    proof (cases ?c)
      case True
      then have eq: "AdvancePastEmptyBuckets p m i = AdvancePastEmptyBuckets p m (i + 1)"
        by (subst AdvancePastEmptyBuckets.simps) simp
      show ?thesis using IH(2) [OF True] 2 unfolding eq by simp
    next
      case False
      then have "AdvancePastEmptyBuckets p m i = i" by (subst AdvancePastEmptyBuckets.simps) auto
      then show ?thesis using 2 False by (auto simp: live_at_def is_live_key_def key_at_def)
    qed
  }
qed

lemma iterate_from_eq:
  assumes "length (Buckets m) = NumBuckets m" "i < NumBuckets m \<Longrightarrow> live_at p m i"
  shows "iterate_from p m i = live_list p (drop i (Buckets m))"
  using assms
proof (induction p m i rule: iterate_from.induct)
  case (1 p m i)
  note adv = AdvancePastEmptyBuckets_skip [OF 1(2), of p "i + 1"]
  show ?case
  proof (cases "i < NumBuckets m")
    case True
    have "iterate_from p m i = Buckets m ! i # iterate_from p m (dm_next p m i)"
      using True by (subst iterate_from.simps) simp
    also have "iterate_from p m (dm_next p m i) = live_list p (drop (i + 1) (Buckets m))"
      using 1(1) [OF True 1(2)] adv by (simp add: dm_next_def)
    also have "Buckets m ! i # live_list p (drop (i + 1) (Buckets m)) = live_list p (drop i (Buckets m))"
      using True 1(2,3) by (simp add: live_list_def live_at_def key_at_def Cons_nth_drop_Suc [symmetric, of i "Buckets m"])
    finally show ?thesis .
  next
    case False
    then show ?thesis using 1(2) by (subst iterate_from.simps) (simp add: live_list_def)
  qed
qed

context dense_map_laws
begin

text \<open>A loop over the map visits every entry once, in bucket order.\<close>

lemma dm_iterate_eq:
  assumes "dm_inv p m"
  shows "dm_iterate p m = live_list p (Buckets m)"
proof -
  have i: "length (Buckets m) = NumBuckets m" "NumEntries m = length (live_list p (Buckets m))"
    using assms by (auto simp: dm_inv_def dm_shape_def dm_counts_def)
  show ?thesis
  proof (cases "NumEntries m = 0")
    case True
    then have "iterate_from p m (NumBuckets m) = []" by (subst iterate_from.simps) simp
    with True i(2) show ?thesis by (simp add: dm_iterate_def dm_begin_def dm_empty_def dm_end_def)
  next
    case False
    note adv = AdvancePastEmptyBuckets_skip [OF i(1), of p 0]
    have "iterate_from p m (AdvancePastEmptyBuckets p m 0) = live_list p (Buckets m)"
      using iterate_from_eq [OF i(1) adv(2)] adv(1) by simp
    with False show ?thesis by (simp add: dm_iterate_def dm_begin_def dm_empty_def)
  qed
qed

lemma dm_iterate_map:
  assumes "dm_inv p m"
  shows "(k, v) \<in> set (dm_iterate p m) \<Longrightarrow> is_live_key p k \<and> dm_map p m k = Some v"
    and "dm_map p m k = Some v \<Longrightarrow> \<exists>k'. isEqual (KeyInfo p) k k' \<and> (k', v) \<in> set (dm_iterate p m)"
    and "length (dm_iterate p m) = dm_size m"
proof -
  have i: "dm_shape p m" "dm_distinct p m" "NumEntries m = length (live_list p (Buckets m))"
    using assms by (auto simp: dm_inv_def dm_counts_def)
  {
    assume "(k, v) \<in> set (dm_iterate p m)"
    then obtain b where b: "live_at p m b" "key_at m b = k" "val_at m b = v" "is_live_key p k"
      using i(1) unfolding dm_iterate_eq [OF assms]
      by (auto simp: live_list_def in_set_conv_nth live_at_def key_at_def val_at_def dm_shape_def)
    then show "is_live_key p k \<and> dm_map p m k = Some v"
      using dm_map_eq_Some_iff [OF i(1,2)] eq_refl by blast
  next
    assume "dm_map p m k = Some v"
    then obtain b where b: "live_at p m b" "isEqual (KeyInfo p) k (key_at m b)" "val_at m b = v"
      using dm_map_eq_Some_iff [OF i(1,2)] by blast
    then have "(key_at m b, v) \<in> set (dm_iterate p m)"
      using i(1) unfolding dm_iterate_eq [OF assms]
      by (auto simp: live_list_def live_at_def key_at_def val_at_def dm_shape_def)
    with b(2) show "\<exists>k'. isEqual (KeyInfo p) k k' \<and> (k', v) \<in> set (dm_iterate p m)" by blast
  }
  show "length (dm_iterate p m) = dm_size m" unfolding dm_iterate_eq [OF assms] by (simp add: i(3) dm_size_def)
qed

section \<open>Comparison\<close>

lemma equal_loop_spec:
  assumes "dm_inv p r" "\<And>B. B \<in> set bs \<Longrightarrow> is_live_key p (fst B)"
  shows "equal_loop p bs r = Inr (\<forall>B\<in>set bs. dm_map p r (fst B) = Some (snd B))"
  using assms(2)
proof (induction bs)
  case (Cons B Bs)
  have "is_live_key p (fst B)" using Cons.prems by simp
  from dm_find_spec [OF assms(1) this] obtain i where i: "dm_find p (fst B) r = Inr i"
    "case dm_map p r (fst B) of None \<Rightarrow> i = dm_end r | Some v \<Rightarrow> i \<noteq> dm_end r \<and> live_at p r i \<and>
      isEqual (KeyInfo p) (fst B) (key_at r i) \<and> val_at r i = v" by blast
  have "equal_loop p Bs r = Inr (\<forall>B\<in>set Bs. dm_map p r (fst B) = Some (snd B))"
    using Cons by simp
  then show ?case using i by (auto simp: val_at_def split: option.splits)
qed simp

lemma card_live:
  assumes "dm_inv p m"
  shows "card {b. live_at p m b} = NumEntries m" "finite {b. live_at p m b}"
proof -
  have "{b. live_at p m b} = {b. b < length (Buckets m) \<and> is_live_key p (fst (Buckets m ! b))}"
    using assms by (auto simp: live_at_def key_at_def dm_inv_def dm_shape_def)
  then show "card {b. live_at p m b} = NumEntries m" "finite {b. live_at p m b}"
    using assms length_filter_conv_card [of "\<lambda>B. is_live_key p (fst B)" "Buckets m"]
    by (simp_all add: dm_inv_def dm_counts_def live_list_def)
qed

lemma submap_inj:
  assumes "dm_inv p l" "dm_inv p r" "\<And>b. live_at p l b \<Longrightarrow> dm_map p r (key_at l b) = Some (val_at l b)"
  obtains f where "\<And>b. live_at p l b \<Longrightarrow> live_at p r (f b)"
    "\<And>b. live_at p l b \<Longrightarrow> isEqual (KeyInfo p) (key_at l b) (key_at r (f b))"
    "\<And>b. live_at p l b \<Longrightarrow> val_at r (f b) = val_at l b" "inj_on f {b. live_at p l b}"
proof -
  have il: "dm_distinct p l" and ir: "dm_shape p r" "dm_distinct p r"
    using assms(1,2) by (auto simp: dm_inv_def)
  have "\<exists>f. \<forall>b. live_at p l b \<longrightarrow> live_at p r (f b) \<and> isEqual (KeyInfo p) (key_at l b) (key_at r (f b)) \<and>
      val_at r (f b) = val_at l b"
    using assms(3) dm_map_eq_Some_iff [OF ir] by (intro choice allI) metis
  then obtain f where f: "\<And>b. live_at p l b \<Longrightarrow> live_at p r (f b)"
    "\<And>b. live_at p l b \<Longrightarrow> isEqual (KeyInfo p) (key_at l b) (key_at r (f b))"
    "\<And>b. live_at p l b \<Longrightarrow> val_at r (f b) = val_at l b" by blast
  have "inj_on f {b. live_at p l b}"
  proof (rule inj_onI)
    fix b c assume bc: "b \<in> {b. live_at p l b}" "c \<in> {b. live_at p l b}" "f b = f c"
    then have "isEqual (KeyInfo p) (key_at l b) (key_at l c)"
      using f(2) [of b] f(2) [of c] eq_sym eq_trans by (metis mem_Collect_eq)
    then show "b = c" using bc il by (auto simp: dm_distinct_def)
  qed
  with f that show ?thesis by blast
qed

lemma same_map_size:
  assumes "dm_inv p l" "dm_inv p r" "dm_map p l = dm_map p r"
  shows "NumEntries l \<le> NumEntries r"
proof -
  have il: "dm_shape p l" "dm_distinct p l" using assms(1) by (auto simp: dm_inv_def)
  have "dm_map p l (key_at l b) = Some (val_at l b)" if "live_at p l b" for b
    using that dm_map_eq_Some_iff [OF il] eq_refl by blast
  then obtain f where "\<And>b. live_at p l b \<Longrightarrow> live_at p r (f b)" "inj_on f {b. live_at p l b}"
    using submap_inj [OF assms(1,2)] assms(3) by metis
  then show ?thesis
    using card_inj_on_le [of f "{b. live_at p l b}" "{b. live_at p r b}"]
      card_live [OF assms(1)] card_live [OF assms(2)] by auto
qed

lemma submap_same_size:
  assumes "dm_inv p l" "dm_inv p r" "NumEntries l = NumEntries r"
    "\<And>b. live_at p l b \<Longrightarrow> dm_map p r (key_at l b) = Some (val_at l b)"
  shows "dm_map p l = dm_map p r"
proof -
  have il: "dm_shape p l" "dm_distinct p l" and ir: "dm_shape p r" "dm_distinct p r"
    using assms(1,2) by (auto simp: dm_inv_def)
  obtain f where f: "\<And>b. live_at p l b \<Longrightarrow> live_at p r (f b)"
    "\<And>b. live_at p l b \<Longrightarrow> isEqual (KeyInfo p) (key_at l b) (key_at r (f b))"
    "\<And>b. live_at p l b \<Longrightarrow> val_at r (f b) = val_at l b" "inj_on f {b. live_at p l b}"
    using submap_inj [OF assms(1,2,4)] by metis
  then have "f ` {b. live_at p l b} = {b. live_at p r b}"
    using card_live [OF assms(1)] card_live [OF assms(2)] assms(3)
    by (intro card_subset_eq) (auto simp: card_image)
  note im = this
  have onto: "\<exists>b. live_at p l b \<and> f b = c" if "live_at p r c" for c
  proof -
    have "c \<in> f ` {b. live_at p l b}" unfolding im using that by simp
    then show ?thesis by auto
  qed
  show ?thesis
  proof (rule ext, rule option_eqI)
    fix k v
    show "dm_map p l k = Some v \<longleftrightarrow> dm_map p r k = Some v"
      unfolding dm_map_eq_Some_iff [OF il] dm_map_eq_Some_iff [OF ir]
    proof
      assume "\<exists>b. live_at p l b \<and> isEqual (KeyInfo p) k (key_at l b) \<and> val_at l b = v"
      then obtain b where b: "live_at p l b" "isEqual (KeyInfo p) k (key_at l b)" "val_at l b = v" by blast
      then show "\<exists>b. live_at p r b \<and> isEqual (KeyInfo p) k (key_at r b) \<and> val_at r b = v"
        using f(1-3) [of b] eq_trans [OF b(2)] by auto
    next
      assume "\<exists>b. live_at p r b \<and> isEqual (KeyInfo p) k (key_at r b) \<and> val_at r b = v"
      then obtain c where c: "live_at p r c" "isEqual (KeyInfo p) k (key_at r c)" "val_at r c = v" by blast
      then obtain b where b: "live_at p l b" "f b = c" using onto by blast
      have "isEqual (KeyInfo p) (key_at r c) (key_at l b)" using f(2) [OF b(1)] b(2) eq_sym by simp
      then show "\<exists>b. live_at p l b \<and> isEqual (KeyInfo p) k (key_at l b) \<and> val_at l b = v"
        using b c(3) f(3) [OF b(1)] eq_trans [OF c(2)] by auto
    qed
  qed
qed

lemma dm_equal_spec:
  assumes "dm_inv p l" "dm_inv p r"
  shows "dm_equal p l r = Inr (dm_map p l = dm_map p r)"
proof -
  have il: "dm_shape p l" "dm_distinct p l" using assms(1) by (auto simp: dm_inv_def)
  have live: "B \<in> set (dm_iterate p l) \<Longrightarrow> is_live_key p (fst B)" for B
    using dm_iterate_map(1) [OF assms(1)] by (cases B) auto
  have loop: "equal_loop p (dm_iterate p l) r =
      Inr (\<forall>B\<in>set (dm_iterate p l). dm_map p r (fst B) = Some (snd B))"
    using equal_loop_spec [OF assms(2) live] .
  have bucket: "(key_at l b, val_at l b) \<in> set (dm_iterate p l)" if "live_at p l b" for b
    using that il(1) unfolding dm_iterate_eq [OF assms(1)]
    by (auto simp: live_list_def live_at_def key_at_def val_at_def dm_shape_def)
  have size: "dm_map p l = dm_map p r \<Longrightarrow> NumEntries l = NumEntries r"
    using same_map_size [OF assms] same_map_size [OF assms(2,1)] by simp
  have "(\<forall>B\<in>set (dm_iterate p l). dm_map p r (fst B) = Some (snd B)) \<and> NumEntries l = NumEntries r \<longleftrightarrow>
      dm_map p l = dm_map p r"
    using submap_same_size [OF assms] bucket size dm_iterate_map(1) [OF assms(1)] by fastforce
  then show ?thesis by (auto simp: dm_equal_def dm_size_def loop)
qed

section \<open>Copies\<close>

lemma dm_copyFrom_spec:
  assumes "dm_inv p other"
  shows "dm_inv p (dm_copyFrom p other m)" "dm_map p (dm_copyFrom p other m) = dm_map p other"
proof -
  let ?c = "dm_copyFrom p other m"
  have len: "length (Buckets other) = NumBuckets other" using assms by (simp add: dm_inv_def dm_shape_def)
  have z: "NumBuckets other = 0 \<Longrightarrow> NumEntries other = 0 \<and> NumTombstones other = 0"
    using assms by (simp add: dm_inv_def dm_shape_def dm_counts_def live_list_def tomb_list_def)
  have f: "Buckets ?c = map (copy_bucket p) (Buckets other)" "NumBuckets ?c = NumBuckets other"
    "NumEntries ?c = NumEntries other" "NumTombstones ?c = NumTombstones other"
    using len z by (auto simp: dm_copyFrom_def allocateBuckets_def)
  have fst: "fst (copy_bucket p B) = fst B" for B by (simp add: copy_bucket_def)
  have k: "b < NumBuckets other \<Longrightarrow> key_at ?c b = key_at other b" for b
    using len by (simp add: key_at_def f fst)
  have L: "live_at p ?c = live_at p other" by (auto simp: fun_eq_iff live_at_def f k)
  have "length (live_list p (Buckets ?c)) = length (live_list p (Buckets other))"
    "length (tomb_list p (Buckets ?c)) = length (tomb_list p (Buckets other))"
    by (simp_all add: f live_list_def tomb_list_def filter_map o_def fst)
  then have "dm_counts p ?c" "dm_shape p ?c" using assms by (auto simp: f dm_inv_def dm_counts_def dm_shape_def)
  moreover have d: "dm_distinct p ?c"
    using assms L k by (auto simp: dm_inv_def dm_distinct_def live_at_def)
  moreover have "reaches p ?c x b \<longleftrightarrow> reaches p other x b" for x b
    using probe_less [of "NumBuckets other"] by (auto simp: reaches_def key_probe_def f k)
  then have "dm_reachable p ?c" using assms L k by (auto simp: dm_inv_def dm_reachable_def live_at_def)
  ultimately show "dm_inv p ?c" by (simp add: dm_inv_def)
  have "val_at ?c b = val_at other b" if "live_at p other b" for b
    using that len by (auto simp: live_at_def val_at_def key_at_def f copy_bucket_def)
  then have "\<exists>b. live_at p ?c b \<and> isEqual (KeyInfo p) x (key_at ?c b) \<and> val_at ?c b = v \<Longrightarrow>
      \<exists>b. live_at p other b \<and> isEqual (KeyInfo p) x (key_at other b) \<and> val_at other b = v"
    "\<exists>b. live_at p other b \<and> isEqual (KeyInfo p) x (key_at other b) \<and> val_at other b = v \<Longrightarrow>
      \<exists>b. live_at p ?c b \<and> isEqual (KeyInfo p) x (key_at ?c b) \<and> val_at ?c b = v" for x v
    unfolding L using k by (auto simp: live_at_def)
  moreover have "dm_shape p other" "dm_distinct p other" using assms by (auto simp: dm_inv_def)
  ultimately show "dm_map p ?c = dm_map p other"
    by (intro ext option_eqI)
      (metis dm_map_eq_Some_iff [OF \<open>dm_shape p ?c\<close> d] dm_map_eq_Some_iff [of other])
qed

section \<open>Reserved capacity\<close>

text \<open>While the table has no tombstone and stays under three quarters full, an
  insertion does not reallocate.\<close>

lemma try_emplace_reserved:
  assumes "dm_inv p m" "NumBuckets m \<le> 2 ^ 29" "is_live_key p k" "NumTombstones m = 0"
    "(NumEntries m + 1) * 4 < NumBuckets m * 3"
  shows "\<exists>m' i new. try_emplace p k v m = Inr (m', i, new) \<and> dm_inv p m' \<and> NumBuckets m' = NumBuckets m \<and>
    NumTombstones m' = 0 \<and> NumEntries m' \<le> NumEntries m + 1"
proof (cases "dm_map p m k")
  case (Some w)
  then obtain i where "try_emplace p k v m = Inr (m, i, False)"
    using try_emplace_old [OF assms(1,3) Some, of v] by blast
  then show ?thesis using assms by auto
next
  case None
  obtain m' i where m': "try_emplace p k v m = Inr (m', i, True)" "inserted p m k v m' i"
    using try_emplace_new [OF assms(1,2,3) None] by blast
  have w: "u32w (NumEntries m + 1) = NumEntries m + 1" "u32w ((NumEntries m + 1) * 4) = (NumEntries m + 1) * 4"
    "u32w (NumBuckets m * 3) = NumBuckets m * 3" using assms(2,5) by (auto intro!: u32w_id)
  have "u32sub (NumBuckets m) (u32w (u32w (NumEntries m + 1) + NumTombstones m)) = NumBuckets m - (NumEntries m + 1)"
    using assms(2,4,5) w(1) by (simp add: u32sub_id)
  then have c: "\<not> u32w (u32w (NumEntries m + 1) * 4) \<ge> u32w (NumBuckets m * 3)"
    "\<not> u32sub (NumBuckets m) (u32w (u32w (NumEntries m + 1) + NumTombstones m)) \<le> NumBuckets m div 8"
    using w assms(5) by auto
  from assms(1,3) show ?thesis
  proof (cases rule: lookup_cases)
    case (missing b)
    have nt: "\<not> is_tombstone_key p (fst (Buckets m ! b))"
      using tomb_count_pos [OF assms(1) missing(4)] assms(4) by (auto simp: key_at_def)
    have impl: "InsertIntoBucketImpl p k (Some b) m =
      (if is_empty_key p (fst (Buckets m ! b)) then Inr (m\<lparr>NumEntries := u32w (NumEntries m + 1)\<rparr>, b)
       else if \<not> isPurgeable p (snd (Buckets m ! b)) then Inl AssertFailed else Inr (m, b))"
      unfolding InsertIntoBucketImpl_def Let_def if_not_P [OF c(1)] if_not_P [OF c(2)] using nt by simp
    have "NumBuckets m' = NumBuckets m \<and> NumTombstones m' = 0 \<and> NumEntries m' \<le> NumEntries m + 1"
      using m'(1) assms(4) unfolding try_emplace_def missing(1) InsertIntoBucket_def
      by (auto simp: impl w(1) [simplified] split: if_splits)
    then show ?thesis using m' by (auto simp: inserted_def)
  qed (use None assms(5) in auto)
qed

end

end
