(* ===== verification/DenseMap_Refine.thy ===== *)
theory DenseMap_Refine
  imports DenseMap_Iterate
begin

text \<open>
  Sequences of \<open>DenseMap\<close> operations.  The specification of a table is a
  function from keys to optional values that respects the key equality; a run
  of any sequence of operations from an empty table answers every call as the
  specification does and never reaches a fault, as long as the sequence
  inserts fewer than \<open>2 ^ 24\<close> entries, which keeps the 32-bit counters and the
  bucket count in range.
\<close>

section \<open>Operations and replies\<close>

datatype ('k, 'v) dm_op =
    Emplace 'k 'v
  | Assign 'k 'v
  | Erase 'k
  | Lookup 'k
  | Count 'k
  | Size
  | Reserve nat
  | Clear

datatype 'v dm_reply = Done | Flag bool | Number nat | Answer 'v

fun dm_step ::
  "('k, 'v) dm_params \<Rightarrow> ('k, 'v) dm_op \<Rightarrow> ('k, 'v) dense_map \<Rightarrow> fault + (('k, 'v) dense_map \<times> 'v dm_reply)" where
  "dm_step p (Emplace k v) m = bindE (try_emplace p k v m) (\<lambda>(m', i, new). Inr (m', Flag new))"
| "dm_step p (Assign k v) m = bindE (FindAndConstruct p k m) (\<lambda>(m', i). Inr (set_second i v m', Done))"
| "dm_step p (Erase k) m = bindE (dm_erase p k m) (\<lambda>(m', found). Inr (m', Flag found))"
| "dm_step p (Lookup k) m = bindE (dm_lookup p k m) (\<lambda>v. Inr (m, Answer v))"
| "dm_step p (Count k) m = bindE (dm_count p k m) (\<lambda>n. Inr (m, Number n))"
| "dm_step p Size m = Inr (m, Flag (dm_empty m))"
| "dm_step p (Reserve n) m = bindE (reserve p n m) (\<lambda>m'. Inr (m', Done))"
| "dm_step p Clear m = bindE (dm_clear p m) (\<lambda>m'. Inr (m', Done))"

fun dm_run ::
  "('k, 'v) dm_params \<Rightarrow> ('k, 'v) dm_op list \<Rightarrow> ('k, 'v) dense_map \<Rightarrow>
    fault + (('k, 'v) dense_map \<times> 'v dm_reply list)" where
  "dm_run p [] m = Inr (m, [])"
| "dm_run p (op # ops) m =
     bindE (dm_step p op m) (\<lambda>(m', r). bindE (dm_run p ops m') (\<lambda>(m'', rs). Inr (m'', r # rs)))"

section \<open>The specification\<close>

fun spec_step ::
  "('k, 'v) dm_params \<Rightarrow> ('k, 'v) dm_op \<Rightarrow> ('k \<Rightarrow> 'v option) \<Rightarrow> ('k \<Rightarrow> 'v option) \<times> 'v dm_reply" where
  "spec_step p (Emplace k v) f =
     (if f k = None then (upd_eq (KeyInfo p) f k (Some v), Flag True) else (f, Flag False))"
| "spec_step p (Assign k v) f = (upd_eq (KeyInfo p) f k (Some v), Done)"
| "spec_step p (Erase k) f = (upd_eq (KeyInfo p) f k None, Flag (f k \<noteq> None))"
| "spec_step p (Lookup k) f = (f, Answer (case f k of Some v \<Rightarrow> v | None \<Rightarrow> ValueT p))"
| "spec_step p (Count k) f = (f, Number (if f k = None then 0 else 1))"
| "spec_step p Size f = (f, Flag (f = Map.empty))"
| "spec_step p (Reserve n) f = (f, Done)"
| "spec_step p Clear f = (Map.empty, Done)"

fun spec_run ::
  "('k, 'v) dm_params \<Rightarrow> ('k, 'v) dm_op list \<Rightarrow> ('k \<Rightarrow> 'v option) \<Rightarrow> ('k \<Rightarrow> 'v option) \<times> 'v dm_reply list" where
  "spec_run p [] f = (f, [])"
| "spec_run p (op # ops) f =
     (let (f', r) = spec_step p op f; (f'', rs) = spec_run p ops f' in (f'', r # rs))"

text \<open>What a caller must respect: the two reserved keys are not used, and no
  more than \<open>2 ^ 24\<close> entries are reserved at once.\<close>

fun op_ok :: "('k, 'v) dm_params \<Rightarrow> ('k, 'v) dm_op \<Rightarrow> bool" where
  "op_ok p (Emplace k v) \<longleftrightarrow> is_live_key p k"
| "op_ok p (Assign k v) \<longleftrightarrow> is_live_key p k"
| "op_ok p (Erase k) \<longleftrightarrow> is_live_key p k"
| "op_ok p (Lookup k) \<longleftrightarrow> is_live_key p k"
| "op_ok p (Count k) \<longleftrightarrow> is_live_key p k"
| "op_ok p Size \<longleftrightarrow> True"
| "op_ok p (Reserve n) \<longleftrightarrow> n \<le> 2 ^ 24"
| "op_ok p Clear \<longleftrightarrow> True"

section \<open>Refinement\<close>

definition dm_sized :: "nat \<Rightarrow> ('k, 'v) dense_map \<Rightarrow> bool" where
  "dm_sized e m \<longleftrightarrow> NumEntries m \<le> e \<and> NumBuckets m \<le> 2 ^ 28"

locale plain_map_laws = dense_map_laws p for p :: "('k, 'v) dm_params" +
  assumes never_purgeable: "\<not> isPurgeable p v"
begin

lemma kept_is_map: "dm_kept p m = dm_map p m"
  by (simp add: fun_eq_iff dm_kept_def keep_id never_purgeable)

lemma inserted_step:
  assumes "inserted p m k v m' i" "dm_sized e m" "e < 2 ^ 24"
  shows "dm_inv p m'" "dm_map p m' = upd_eq (KeyInfo p) (dm_map p m) k (Some v)" "dm_sized (e + 1) m'"
    "live_at p m' i" "key_at m' i = k"
  using assms by (auto simp: inserted_def dm_sized_def kept_is_map never_purgeable)

lemma upd_eq_twice: "isEqual (KeyInfo p) k k' \<Longrightarrow> upd_eq (KeyInfo p) (upd_eq (KeyInfo p) f k x) k' y = upd_eq (KeyInfo p) f k y"
  using eq_cong by (auto simp: upd_eq_def fun_eq_iff)

lemma upd_eq_cong_key: "isEqual (KeyInfo p) k k' \<Longrightarrow> upd_eq (KeyInfo p) f k' x = upd_eq (KeyInfo p) f k x"
  using eq_cong by (auto simp: upd_eq_def fun_eq_iff)

lemma dm_empty_map:
  assumes "dm_inv p m"
  shows "dm_empty m \<longleftrightarrow> dm_map p m = Map.empty"
proof
  assume "dm_empty m"
  then have "dm_iterate p m = []" using dm_iterate_map(3) [OF assms] by (simp add: dm_empty_def dm_size_def)
  then show "dm_map p m = Map.empty" using dm_iterate_map(2) [OF assms]
    by (metis empty_iff empty_set not_None_eq)
next
  assume "dm_map p m = Map.empty"
  then have "dm_iterate p m = []" using dm_iterate_map(1) [OF assms]
    by (metis list.set_intros(1) neq_Nil_conv option.distinct(1) surj_pair)
  then show "dm_empty m" using dm_iterate_map(3) [OF assms] by (simp add: dm_empty_def dm_size_def)
qed

lemma dm_step_refines:
  assumes "dm_inv p m" "dm_sized e m" "e < 2 ^ 24" "op_ok p op"
  shows "\<exists>m' r. dm_step p op m = Inr (m', r) \<and> dm_inv p m' \<and> dm_sized (e + 1) m' \<and>
    spec_step p op (dm_map p m) = (dm_map p m', r)"
proof -
  have N: "NumBuckets m \<le> 2 ^ 29" "NumEntries m \<le> 2 ^ 24" "dm_sized (e + 1) m"
    using assms(2,3) by (auto simp: dm_sized_def)
  show ?thesis
  proof (cases op)
    case (Emplace k v)
    then have k: "is_live_key p k" using assms(4) by simp
    show ?thesis
    proof (cases "dm_map p m k")
      case None
      with try_emplace_new [OF assms(1) N(1) k] obtain m' i where
        "try_emplace p k v m = Inr (m', i, True)" "inserted p m k v m' i" by blast
      with None Emplace inserted_step [OF _ assms(2,3)] show ?thesis by fastforce
    next
      case (Some w)
      with try_emplace_old [OF assms(1) k Some, of v] show ?thesis using assms(1) Emplace N(3) by auto
    qed
  next
    case (Assign k v)
    then have k: "is_live_key p k" using assms(4) by simp
    show ?thesis
    proof (cases "dm_map p m k")
      case None
      with FindAndConstruct_new [OF assms(1) N(1) k] obtain m' i where
        m': "FindAndConstruct p k m = Inr (m', i)" "inserted p m k (ValueT p) m' i" by blast
      note st = inserted_step [OF m'(2) assms(2,3)]
      note ss = set_second_spec [OF st(1,4), of v]
      have "dm_sized (e + 1) (set_second i v m')"
        using st(3) ss(3) by (simp add: dm_sized_def set_second_def)
      moreover have "dm_map p (set_second i v m') = upd_eq (KeyInfo p) (dm_map p m) k (Some v)"
        unfolding ss(2) st(2,5) by (rule upd_eq_twice) (rule eq_refl)
      ultimately show ?thesis using m'(1) Assign ss(1) by simp
    next
      case (Some w)
      with FindAndConstruct_old [OF assms(1) k] obtain i where
        i: "FindAndConstruct p k m = Inr (m, i)" "live_at p m i" "isEqual (KeyInfo p) k (key_at m i)" by blast
      note ss = set_second_spec [OF assms(1) i(2), of v]
      show ?thesis using i(1) Assign ss N(3) upd_eq_cong_key [OF i(3), of "dm_map p m" "Some v"]
        by (simp add: dm_sized_def set_second_def)
    qed
  next
    case (Erase k)
    then show ?thesis using dm_erase_spec [OF assms(1), of k] assms(4) N(3)
      by (force simp: kept_is_map dm_sized_def)
  next
    case (Reserve n)
    then obtain m' where "reserve p n m = Inr m'" "dm_inv p m'" "dm_map p m' = dm_map p m"
      "NumEntries m' \<le> NumEntries m" "NumBuckets m' \<le> max (NumBuckets m) (2 ^ Suc 24)"
      using reserve_spec [OF assms(1), of n 24] assms(4) by (auto simp: kept_is_map)
    then show ?thesis using Reserve N(3) by (auto simp: dm_sized_def)
  next
    case Clear
    obtain m' where "dm_clear p m = Inr m'" "dm_inv p m'" "dm_map p m' = Map.empty" "NumEntries m' = 0"
      "NumBuckets m' \<le> max (NumBuckets m) (2 ^ Suc (Suc 24))"
      using dm_clear_spec [OF assms(1) N(2)] by auto
    then show ?thesis using Clear N(3) by (auto simp: dm_sized_def)
  qed (use assms(1,4) N(3) in \<open>simp_all add: dm_lookup_spec dm_count_spec dm_empty_map\<close>)
qed

theorem dm_run_refines:
  assumes "dm_inv p m" "dm_sized e m" "e + length ops < 2 ^ 24" "list_all (op_ok p) ops"
  shows "\<exists>m' rs. dm_run p ops m = Inr (m', rs) \<and> dm_inv p m' \<and> spec_run p ops (dm_map p m) = (dm_map p m', rs)"
  using assms
proof (induction ops arbitrary: m e)
  case (Cons op ops)
  then obtain m1 r where s: "dm_step p op m = Inr (m1, r)" "dm_inv p m1" "dm_sized (e + 1) m1"
    "spec_step p op (dm_map p m) = (dm_map p m1, r)"
    using dm_step_refines [of m e op] by auto
  from Cons.IH [OF s(2,3)] Cons.prems(3,4) obtain m2 rs where
    "dm_run p ops m1 = Inr (m2, rs)" "dm_inv p m2" "spec_run p ops (dm_map p m1) = (dm_map p m2, rs)" by auto
  then show ?case using s by (simp add: Let_def)
qed simp

end

lemma plain_map_lawsI: "key_info (KeyInfo p) \<Longrightarrow> isPurgeable p = DenseMapValueInfo_isPurgeable \<Longrightarrow> plain_map_laws p"
  by (simp add: plain_map_laws_def plain_map_laws_axioms_def dense_map_laws_def DenseMapValueInfo_isPurgeable_def)

text \<open>The default parameters of \<open>DenseMap\<close> for a key type and a value type.\<close>

definition map_params :: "'k key_traits \<Rightarrow> 'v \<Rightarrow> 'k \<times> 'v \<Rightarrow> bool \<Rightarrow> ('k, 'v) dm_params" where
  "map_params I dflt junk trivial = \<lparr>KeyInfo = I, isPurgeable = DenseMapValueInfo_isPurgeable, ValueT = dflt,
     uninit = junk, is_trivially_copyable = trivial\<rparr>"

interpretation ptr_map: plain_map_laws "map_params ptr_info d junk triv" for d junk triv
  by (rule plain_map_lawsI) (simp_all add: map_params_def ptr_info.key_info_axioms)

interpretation cstring_map: plain_map_laws "map_params (cstring_info mem) d junk triv" for mem d junk triv
  by (rule plain_map_lawsI) (simp_all add: map_params_def cstring_info.key_info_axioms)

lemma cstring_live: "is_live_key (map_params (cstring_info mem) d junk triv) p \<longleftrightarrow> p \<notin> {- 1, - 2}"
  by (auto simp: is_live_key_def is_empty_key_def is_tombstone_key_def map_params_def cstring_info_def)

end
