(* ===== verification/DenseSet.thy ===== *)
theory DenseSet
  imports DenseMap_Refine
begin

text \<open>
  \<open>DenseSet\<close> of \<^verbatim>\<open>llvm-DenseSet.h\<close>: a \<open>DenseMap\<close> whose values carry no data
  (\<open>DenseSetEmpty\<close>, the unit type), with the set the table stands for.
\<close>

type_synonym 'k dense_set = "('k, unit) dense_map"

definition set_params :: "'k key_traits \<Rightarrow> 'k \<Rightarrow> ('k, unit) dm_params" where
  "set_params I junk = \<lparr>KeyInfo = I, isPurgeable = DenseMapValueInfo_isPurgeable, ValueT = (),
     uninit = (junk, ()), is_trivially_copyable = True\<rparr>"

definition DenseSet_new :: "('k, unit) dm_params \<Rightarrow> nat \<Rightarrow> fault + 'k dense_set" where
  "DenseSet_new p InitialReserve = dm_new p InitialReserve"

definition DenseSet_empty :: "'k dense_set \<Rightarrow> bool" where
  "DenseSet_empty s = dm_empty s"

definition DenseSet_size :: "'k dense_set \<Rightarrow> nat" where
  "DenseSet_size s = dm_size s"

definition DenseSet_reserve :: "('k, unit) dm_params \<Rightarrow> nat \<Rightarrow> 'k dense_set \<Rightarrow> fault + 'k dense_set" where
  "DenseSet_reserve p n s = reserve p n s"

definition DenseSet_clear :: "('k, unit) dm_params \<Rightarrow> 'k dense_set \<Rightarrow> fault + 'k dense_set" where
  "DenseSet_clear p s = dm_clear p s"

definition DenseSet_count :: "('k, unit) dm_params \<Rightarrow> 'k \<Rightarrow> 'k dense_set \<Rightarrow> fault + nat" where
  "DenseSet_count p V s = dm_count p V s"

definition DenseSet_erase ::
  "('k, unit) dm_params \<Rightarrow> 'k \<Rightarrow> 'k dense_set \<Rightarrow> fault + ('k dense_set \<times> bool)" where
  "DenseSet_erase p V s = dm_erase p V s"

definition DenseSet_find :: "('k, unit) dm_params \<Rightarrow> 'k \<Rightarrow> 'k dense_set \<Rightarrow> fault + nat" where
  "DenseSet_find p V s = dm_find p V s"

definition DenseSet_insert ::
  "('k, unit) dm_params \<Rightarrow> 'k \<Rightarrow> 'k dense_set \<Rightarrow> fault + ('k dense_set \<times> nat \<times> bool)" where
  "DenseSet_insert p V s = try_emplace p V () s"

definition DenseSet_insert_as ::
  "('k, unit) dm_params \<Rightarrow> 'k \<Rightarrow> 'k \<Rightarrow> 'k dense_set \<Rightarrow> fault + ('k dense_set \<times> nat \<times> bool)" where
  "DenseSet_insert_as p V LookupKey s = insert_as p (V, ()) LookupKey s"

fun DenseSet_insert_range ::
  "('k, unit) dm_params \<Rightarrow> 'k list \<Rightarrow> 'k dense_set \<Rightarrow> fault + 'k dense_set" where
  "DenseSet_insert_range p [] s = Inr s"
| "DenseSet_insert_range p (V # Vs) s =
     bindE (DenseSet_insert p V s) (\<lambda>(s1, _). DenseSet_insert_range p Vs s1)"

fun DenseSet_equal_loop :: "('k, unit) dm_params \<Rightarrow> 'k list \<Rightarrow> 'k dense_set \<Rightarrow> fault + bool" where
  "DenseSet_equal_loop p [] RHS = Inr True"
| "DenseSet_equal_loop p (E # Es) RHS = bindE (DenseSet_count p E RHS) (\<lambda>n.
     if n = 0 then Inr False else DenseSet_equal_loop p Es RHS)"

definition DenseSet_equal ::
  "('k, unit) dm_params \<Rightarrow> 'k dense_set \<Rightarrow> 'k dense_set \<Rightarrow> fault + bool" where
  "DenseSet_equal p LHS RHS =
     (if DenseSet_size LHS \<noteq> DenseSet_size RHS then Inr False
      else DenseSet_equal_loop p (map fst (dm_iterate p LHS)) RHS)"

section \<open>The set a table stands for\<close>

definition ds_set :: "('k, unit) dm_params \<Rightarrow> 'k dense_set \<Rightarrow> 'k set" where
  "ds_set p s = {k. dm_map p s k \<noteq> None}"

locale dense_set_laws = plain_map_laws p for p :: "('k, unit) dm_params"
begin

lemma DenseSet_count_set:
  "dm_inv p s \<Longrightarrow> is_live_key p V \<Longrightarrow> DenseSet_count p V s = Inr (if V \<in> ds_set p s then 1 else 0)"
  by (simp add: DenseSet_count_def dm_count_spec ds_set_def)

lemma DenseSet_insert_set:
  assumes "dm_inv p s" "NumBuckets s \<le> 2 ^ 29" "is_live_key p V"
  shows "\<exists>s' i. DenseSet_insert p V s = Inr (s', i, V \<notin> ds_set p s) \<and> dm_inv p s' \<and>
    ds_set p s' = {k. isEqual (KeyInfo p) k V} \<union> ds_set p s"
proof (cases "dm_map p s V")
  case None
  then obtain s' i where "DenseSet_insert p V s = Inr (s', i, True)" "inserted p s V () s' i"
    using try_emplace_new [OF assms] unfolding DenseSet_insert_def by blast
  then show ?thesis using None
    by (auto simp: inserted_def ds_set_def kept_is_map upd_eq_def never_purgeable)
next
  case (Some u)
  then obtain i where "DenseSet_insert p V s = Inr (s, i, False)"
    using try_emplace_old [OF assms(1,3) Some] unfolding DenseSet_insert_def by blast
  moreover have "{k. isEqual (KeyInfo p) k V} \<subseteq> ds_set p s"
    using Some dm_map_cong by (auto simp: ds_set_def)
  ultimately show ?thesis using Some assms(1) by (auto simp: ds_set_def)
qed

lemma DenseSet_erase_set:
  assumes "dm_inv p s" "is_live_key p V"
  shows "\<exists>s'. DenseSet_erase p V s = Inr (s', V \<in> ds_set p s) \<and> dm_inv p s' \<and>
    ds_set p s' = ds_set p s - {k. isEqual (KeyInfo p) k V}"
proof -
  obtain s' where "dm_erase p V s = Inr (s', dm_map p s V \<noteq> None)" "dm_inv p s'"
    "dm_map p s' = upd_eq (KeyInfo p) (dm_map p s) V None"
    using dm_erase_spec [OF assms] unfolding kept_is_map by blast
  then show ?thesis by (auto simp: DenseSet_erase_def ds_set_def upd_eq_def)
qed

lemma DenseSet_equal_loop_set:
  assumes "dm_inv p r" "\<And>E. E \<in> set Es \<Longrightarrow> is_live_key p E"
  shows "DenseSet_equal_loop p Es r = Inr (set Es \<subseteq> ds_set p r)"
  using assms(2) by (induction Es) (auto simp: DenseSet_count_set [OF assms(1)])

lemma ds_set_eq_iff: "ds_set p l = ds_set p r \<longleftrightarrow> dm_map p l = dm_map p r"
proof
  assume eq: "ds_set p l = ds_set p r"
  have "dm_map p l k = dm_map p r k" for k
    using arg_cong [OF eq, of "\<lambda>A. k \<in> A"] by (cases "dm_map p l k"; cases "dm_map p r k") (auto simp: ds_set_def)
  then show "dm_map p l = dm_map p r" by blast
qed (simp add: ds_set_def)

lemma DenseSet_equal_set:
  assumes "dm_inv p l" "dm_inv p r"
  shows "DenseSet_equal p l r = Inr (ds_set p l = ds_set p r)"
proof -
  have live: "E \<in> set (map fst (dm_iterate p l)) \<Longrightarrow> is_live_key p E" for E
    using dm_iterate_map(1) [OF assms(1)] by force
  have unit: "dm_map p r k = Some (snd B) \<longleftrightarrow> k \<in> ds_set p r" for k and B :: "'k \<times> unit"
    by (cases "dm_map p r k") (auto simp: ds_set_def)
  have "equal_loop p (dm_iterate p l) r = Inr (set (map fst (dm_iterate p l)) \<subseteq> ds_set p r)"
  proof -
    have "equal_loop p (dm_iterate p l) r =
        Inr (\<forall>B\<in>set (dm_iterate p l). dm_map p r (fst B) = Some (snd B))"
      using live by (intro equal_loop_spec [OF assms(2)]) simp
    then show ?thesis by (simp only: unit) (simp add: image_subset_iff)
  qed
  then have "DenseSet_equal p l r = dm_equal p l r"
    unfolding DenseSet_equal_def dm_equal_def DenseSet_size_def
    using DenseSet_equal_loop_set [OF assms(2), of "map fst (dm_iterate p l)"] live by simp
  then show ?thesis using dm_equal_spec [OF assms] by (simp add: ds_set_eq_iff)
qed

end

lemma set_params_key_info: "key_info I \<Longrightarrow> dense_set_laws (set_params I junk)"
  unfolding dense_set_laws_def by (rule plain_map_lawsI) (simp_all add: set_params_def)

interpretation ptr_set: dense_set_laws "set_params ptr_info junk" for junk
  by (rule set_params_key_info) (rule ptr_info.key_info_axioms)

interpretation cstring_set: dense_set_laws "set_params (cstring_info mem) junk" for mem junk
  by (rule set_params_key_info) (rule cstring_info.key_info_axioms)

end
