(* ===== verification/Bitfields.thy ===== *)
theory Bitfields
  imports Prelude
begin

text \<open>
  C bit-fields of a machine word, and addition and subtraction with carry
  (\<open>addc\<close>, \<open>subc\<close> of \<^verbatim>\<open>objc-os.h\<close>).  \<open>get_field s n x\<close> reads the \<open>n\<close> bits of \<open>x\<close>
  from bit \<open>s\<close> on, \<open>put_field s n v x\<close> stores the low \<open>n\<close> bits of \<open>v\<close> there.
\<close>

section \<open>Fields\<close>

definition get_field :: "nat \<Rightarrow> nat \<Rightarrow> 'a::len word \<Rightarrow> 'a word" where
  "get_field s n x = take_bit n (drop_bit s x)"

definition put_field :: "nat \<Rightarrow> nat \<Rightarrow> 'a::len word \<Rightarrow> 'a word \<Rightarrow> 'a word" where
  "put_field s n v x = (x AND NOT (push_bit s (mask n))) OR push_bit s (take_bit n v)"

definition put_flag :: "nat \<Rightarrow> bool \<Rightarrow> 'a::len word \<Rightarrow> 'a word" where
  "put_flag s b x = put_field s 1 (of_bool b) x"

lemma bit_get_field: "bit (get_field s n x) i \<longleftrightarrow> i < n \<and> bit x (s + i)"
  by (auto simp: get_field_def bit_take_bit_iff bit_drop_bit_eq)

lemma bit_put_field:
  fixes x v :: "'a::len word"
  shows "bit (put_field s n v x) i \<longleftrightarrow>
    i < LENGTH('a) \<and> (if s \<le> i \<and> i < s + n then bit v (i - s) else bit x i)"
  by (auto simp: put_field_def bit_or_iff bit_and_iff bit_not_iff bit_push_bit_iff bit_mask_iff
      bit_take_bit_iff dest: bit_imp_le_length)

lemma bit_put_flag:
  fixes x :: "'a::len word"
  shows "bit (put_flag s b x) i \<longleftrightarrow> i < LENGTH('a) \<and> (if i = s then b else bit x i)"
  by (auto simp: put_flag_def bit_put_field bit_of_bool_iff)

lemma get_put_same:
  fixes x v :: "'a::len word"
  assumes "s + n \<le> LENGTH('a)"
  shows "get_field s n (put_field s n v x) = take_bit n v"
  by (rule bit_word_eqI) (use assms in \<open>auto simp: bit_get_field bit_put_field bit_take_bit_iff\<close>)

lemma get_put_other:
  fixes x v :: "'a::len word"
  assumes "s + n \<le> t \<or> t + m \<le> s"
  shows "get_field s n (put_field t m v x) = get_field s n x"
  by (rule bit_word_eqI) (use assms in \<open>auto simp: bit_get_field bit_put_field dest: bit_imp_le_length\<close>)

lemma get_put_flag_other:
  fixes x :: "'a::len word"
  assumes "t < s \<or> s + n \<le> t"
  shows "get_field s n (put_flag t b x) = get_field s n x"
  using assms unfolding put_flag_def by (intro get_put_other) auto

lemma put_field_get: "put_field s n (get_field s n x) x = x"
  by (rule bit_word_eqI) (auto simp: bit_put_field bit_get_field)

lemma put_flag_same: "put_flag s (bit x s) x = x"
  by (rule bit_word_eqI) (auto simp: bit_put_flag)

lemma or_push_bit_1:
  fixes w :: "'a::len word"
  shows "\<not> bit w i \<Longrightarrow> w OR push_bit i 1 = w + push_bit i 1"
  by (intro disjunctive_add [symmetric]) (auto simp: bit_push_bit_iff bit_1_iff simp del: push_bit_of_1)

section \<open>Carries\<close>

definition addc :: "u64 \<Rightarrow> u64 \<Rightarrow> u64 \<Rightarrow> u64 \<times> bool" where
  "addc lhs rhs carryin = (lhs + rhs + carryin, unat lhs + unat rhs + unat carryin \<ge> 2 ^ 64)"

definition subc :: "u64 \<Rightarrow> u64 \<Rightarrow> u64 \<Rightarrow> u64 \<times> bool" where
  "subc lhs rhs carryin = (lhs - rhs - carryin, unat lhs < unat rhs + unat carryin)"

section \<open>A counter in the top bits\<close>

text \<open>When a field reaches up to the last bit, adding its unit changes nothing
  below it, and the carry out of the word is the overflow of the field.\<close>

lemma unat_split:
  fixes x :: "'a::len word"
  shows "unat x = unat (take_bit s x) + 2 ^ s * unat (drop_bit s x)"
proof -
  have "unat (take_bit s x) = unat x mod 2 ^ s" by (rule unat_take_bit_mod)
  then show ?thesis by (simp add: unat_drop_bit_div)
qed

lemma top_field_drop:
  fixes x :: "'a::len word"
  assumes "s + n = LENGTH('a)"
  shows "get_field s n x = drop_bit s x"
  by (rule bit_word_eqI) (use assms in \<open>auto simp: bit_get_field bit_drop_bit_eq dest: bit_imp_le_length\<close>)

lemma top_field_unat:
  fixes x :: "'a::len word"
  assumes "s + n = LENGTH('a)"
  shows "unat x = unat (take_bit s x) + 2 ^ s * unat (get_field s n x)"
    and "unat (get_field s n x) < 2 ^ n" and "unat (take_bit s x) < 2 ^ s"
proof -
  show "unat x = unat (take_bit s x) + 2 ^ s * unat (get_field s n x)"
    unfolding top_field_drop [OF assms] by (rule unat_split)
  show "unat (get_field s n x) < 2 ^ n"
    unfolding get_field_def unat_take_bit_mod by simp
  show "unat (take_bit s x) < 2 ^ s" unfolding unat_take_bit_mod by simp
qed

lemma top_field_eqI:
  fixes x :: "'a::len word"
  assumes "s + n = LENGTH('a)" "l < 2 ^ s" "unat x = l + 2 ^ s * c"
  shows "unat (take_bit s x) = l" "unat (get_field s n x) = c"
proof -
  have "unat (take_bit s x) = unat x mod 2 ^ s" by (rule unat_take_bit_mod)
  then show "unat (take_bit s x) = l" using assms(2,3) by simp
  have "unat (get_field s n x) = unat x div 2 ^ s"
    unfolding top_field_drop [OF assms(1)] by (rule unat_drop_bit_div)
  then show "unat (get_field s n x) = c" using assms(2,3) by simp
qed

lemma unat_add_nowrap_u64: "unat a + unat b < 2 ^ 64 \<Longrightarrow> unat (a + b) = unat a + unat (b :: u64)"
  by (simp add: unat_word_ariths)

lemma unat_sub_u64: "unat b \<le> unat a \<Longrightarrow> unat (a - b) = unat a - unat (b :: u64)"
  by (simp add: unat_sub word_le_nat_alt)

lemma unat_widen16: "unat (ucast (w :: u16) :: u64) = unat w"
proof -
  have "unat w < 2 ^ LENGTH(16)" by (rule unsigned_less)
  then show ?thesis by (simp add: unsigned_ucast_eq take_bit_nat_eq_self_iff)
qed

lemma unat_widen32: "unat (ucast (w :: u32) :: u64) = unat w"
proof -
  have "unat w < 2 ^ LENGTH(32)" by (rule unsigned_less)
  then show ?thesis by (simp add: unsigned_ucast_eq take_bit_nat_eq_self_iff)
qed

lemma top_field_addc:
  fixes x :: u64
  assumes "s + n = 64" "0 < n" "addc x (push_bit s (of_nat k)) 0 = (y, carry)" "k < 2 ^ n"
  shows "carry \<longleftrightarrow> 2 ^ n \<le> unat (get_field s n x) + k"
    and "\<not> carry \<Longrightarrow> unat (get_field s n y) = unat (get_field s n x) + k"
    and "\<not> carry \<Longrightarrow> take_bit s y = take_bit s x"
proof -
  have pow: "(2::nat) ^ 64 = 2 ^ s * 2 ^ n" unfolding assms(1) [symmetric] by (rule power_add)
  have kb: "2 ^ s * k < 2 ^ 64" unfolding pow using assms(4) by simp
  have one: "unat (push_bit s (of_nat k) :: u64) = 2 ^ s * k"
  proof -
    have "push_bit s (of_nat k) = (of_nat (2 ^ s * k) :: u64)" by (simp add: push_bit_eq_mult mult.commute)
    then show ?thesis using unat_of_nat_u64 [OF kb] by simp
  qed
  have len: "s + n = LENGTH(64)" using assms(1) by simp
  note x = top_field_unat [OF len, of x]
  let ?l = "unat (take_bit s x)" and ?c = "unat (get_field s n x)"
  have sum: "unat x + 2 ^ s * k = ?l + 2 ^ s * (?c + k)" using x(1) by (simp add: algebra_simps)
  have y: "y = x + push_bit s (of_nat k)" and cy: "carry \<longleftrightarrow> 2 ^ 64 \<le> unat x + 2 ^ s * k"
    using assms(3) one by (auto simp: addc_def)
  show c: "carry \<longleftrightarrow> 2 ^ n \<le> ?c + k"
  proof
    assume "2 ^ n \<le> ?c + k"
    then have "2 ^ s * 2 ^ n \<le> 2 ^ s * (?c + k)" by simp
    then show carry unfolding cy sum pow by linarith
  next
    assume carry
    show "2 ^ n \<le> ?c + k"
    proof (rule ccontr)
      assume "\<not> 2 ^ n \<le> ?c + k"
      then have "2 ^ s * Suc (?c + k) \<le> 2 ^ s * 2 ^ n" by (intro mult_le_mono2) simp
      then have "?l + 2 ^ s * (?c + k) < 2 ^ s * 2 ^ n" using x(3) by (simp add: algebra_simps)
      then show False using \<open>carry\<close> unfolding cy sum pow by linarith
    qed
  qed
  assume nc: "\<not> carry"
  then have "unat y = unat x + 2 ^ s * k"
    unfolding y using cy one by (subst unat_add_nowrap_u64) auto
  then have "unat y = ?l + 2 ^ s * (?c + k)" using sum by simp
  note y' = top_field_eqI [OF len x(3) this]
  show "unat (get_field s n y) = ?c + k" by (rule y'(2))
  show "take_bit s y = take_bit s x" using y'(1) by (simp add: word_unat_eq_iff)
qed

lemma top_field_subc:
  fixes x :: u64
  assumes "s + n = 64" "0 < n" "subc x (push_bit s 1) 0 = (y, carry)"
  shows "carry \<longleftrightarrow> unat (get_field s n x) = 0"
    and "\<not> carry \<Longrightarrow> unat (get_field s n x) = unat (get_field s n y) + 1"
    and "\<not> carry \<Longrightarrow> take_bit s y = take_bit s x"
proof -
  have s: "s < 64" using assms(1,2) by simp
  have one: "unat (push_bit s 1 :: u64) = 2 ^ s"
  proof -
    have lt: "(2::nat) ^ s < 2 ^ 64" using s by (intro power_strict_increasing) auto
    have "push_bit s 1 = (of_nat (2 ^ s) :: u64)" by (simp add: push_bit_eq_mult)
    then show ?thesis using unat_of_nat_u64 [OF lt] by simp
  qed
  have len: "s + n = LENGTH(64)" using assms(1) by simp
  note x = top_field_unat [OF len, of x]
  let ?l = "unat (take_bit s x)" and ?c = "unat (get_field s n x)"
  have y: "y = x - push_bit s 1" and cy: "carry \<longleftrightarrow> unat x < 2 ^ s"
    using assms(3) one by (auto simp: subc_def)
  show c: "carry \<longleftrightarrow> ?c = 0"
    unfolding cy using x(1,3) by (cases ?c) auto
  assume nc: "\<not> carry"
  then obtain d where d: "?c = Suc d" using c by (cases ?c) auto
  have "unat y = unat x - 2 ^ s" unfolding y using nc cy one by (subst unat_sub_u64) auto
  also have "\<dots> = ?l + 2 ^ s * d" using x(1) d by simp
  finally have "unat y = ?l + 2 ^ s * d" .
  note y' = top_field_eqI [OF len x(3) this]
  show "?c = unat (get_field s n y) + 1" using y'(2) d by simp
  show "take_bit s y = take_bit s x" using y'(1) by (simp add: word_unat_eq_iff)
qed

end
