(* ===== verification/TaggedPointer.thy ===== *)
theory TaggedPointer
  imports Bitfields
begin

text \<open>
  Tagged pointers (\<^verbatim>\<open>objc-internal.h\<close>): objects whose tag and payload are in the
  pointer itself.  The three layouts are the split one of arm64, the one with
  the tag bit on top and the one with the tag bit at the bottom (64-bit Mac on
  Intel).  The class tables are those of \<^verbatim>\<open>objc-runtime-new.mm\<close>, and
  \<open>getIsa\<close> of \<^verbatim>\<open>objc-object.h\<close> reads them.  The obfuscator and the tag
  permutation are part of the state.
\<close>

section \<open>Layouts and state\<close>

record tag_layout =
  SPLIT_TAGGED_POINTERS :: bool
  MSB_TAGGED_POINTERS :: bool
  TAG_MASK :: u64
  TAG_INDEX_SHIFT :: nat
  TAG_SLOT_SHIFT :: nat
  TAG_SLOT_MASK :: u64
  TAG_PAYLOAD_LSHIFT :: nat
  TAG_PAYLOAD_RSHIFT :: nat
  TAG_EXT_MASK :: u64
  TAG_EXT_INDEX_SHIFT :: nat
  TAG_EXT_SLOT_SHIFT :: nat
  TAG_EXT_PAYLOAD_LSHIFT :: nat
  TAG_EXT_PAYLOAD_RSHIFT :: nat

definition TAG_INDEX_MASK :: u64 where
  "TAG_INDEX_MASK = 7"

definition TAG_EXT_INDEX_MASK :: u64 where
  "TAG_EXT_INDEX_MASK = 255"

definition TAG_EXT_SLOT_MASK :: u64 where
  "TAG_EXT_SLOT_MASK = 255"

definition split_tags :: tag_layout where
  "split_tags = \<lparr>SPLIT_TAGGED_POINTERS = True, MSB_TAGGED_POINTERS = True, TAG_MASK = push_bit 63 1, TAG_INDEX_SHIFT = 0, TAG_SLOT_SHIFT = 0,
     TAG_SLOT_MASK = 7, TAG_PAYLOAD_LSHIFT = 1, TAG_PAYLOAD_RSHIFT = 4, TAG_EXT_MASK = push_bit 63 1 OR 7,
     TAG_EXT_INDEX_SHIFT = 55, TAG_EXT_SLOT_SHIFT = 55, TAG_EXT_PAYLOAD_LSHIFT = 9, TAG_EXT_PAYLOAD_RSHIFT = 12\<rparr>"

definition msb_tags :: tag_layout where
  "msb_tags = \<lparr>SPLIT_TAGGED_POINTERS = False, MSB_TAGGED_POINTERS = True, TAG_MASK = push_bit 63 1, TAG_INDEX_SHIFT = 60, TAG_SLOT_SHIFT = 60,
     TAG_SLOT_MASK = 15, TAG_PAYLOAD_LSHIFT = 4, TAG_PAYLOAD_RSHIFT = 4, TAG_EXT_MASK = push_bit 60 15,
     TAG_EXT_INDEX_SHIFT = 52, TAG_EXT_SLOT_SHIFT = 52, TAG_EXT_PAYLOAD_LSHIFT = 12, TAG_EXT_PAYLOAD_RSHIFT = 12\<rparr>"

definition lsb_tags :: tag_layout where
  "lsb_tags = \<lparr>SPLIT_TAGGED_POINTERS = False, MSB_TAGGED_POINTERS = False, TAG_MASK = 1, TAG_INDEX_SHIFT = 1, TAG_SLOT_SHIFT = 0,
     TAG_SLOT_MASK = 15, TAG_PAYLOAD_LSHIFT = 0, TAG_PAYLOAD_RSHIFT = 4, TAG_EXT_MASK = 15,
     TAG_EXT_INDEX_SHIFT = 4, TAG_EXT_SLOT_SHIFT = 4, TAG_EXT_PAYLOAD_LSHIFT = 0, TAG_EXT_PAYLOAD_RSHIFT = 12\<rparr>"

definition TAG_NO_OBFUSCATION_MASK :: "tag_layout \<Rightarrow> u64" where
  "TAG_NO_OBFUSCATION_MASK L = push_bit 62 1 OR TAG_EXT_MASK L"

definition TAG_CONSTANT_POINTER_MASK :: "tag_layout \<Rightarrow> u64" where
  "TAG_CONSTANT_POINTER_MASK L = NOT (TAG_EXT_MASK L OR push_bit (TAG_EXT_SLOT_SHIFT L) TAG_EXT_SLOT_MASK)"

definition OBJC_TAG_Last60BitPayload :: nat where "OBJC_TAG_Last60BitPayload = 6"
definition OBJC_TAG_RESERVED_7 :: nat where "OBJC_TAG_RESERVED_7 = 7"
definition OBJC_TAG_First52BitPayload :: nat where "OBJC_TAG_First52BitPayload = 8"
definition OBJC_TAG_FirstUnobfuscatedSplitTag :: nat where "OBJC_TAG_FirstUnobfuscatedSplitTag = 136"
definition OBJC_TAG_Last52BitPayload :: nat where "OBJC_TAG_Last52BitPayload = 263"

text \<open>The class tables are indexed by slot; \<open>nil\<close> is no class.\<close>

record tag_state =
  taggedpointer_mask :: u64
  obfuscator :: u64
  tag60_permutations :: "u8 list"
  tag_classes :: "ptr list"
  tag_ext_classes :: "ptr list"

section \<open>Obfuscation\<close>

definition basicTagToObfuscatedTag :: "tag_state \<Rightarrow> u64 \<Rightarrow> u64" where
  "basicTagToObfuscatedTag s tag = ucast (tag60_permutations s ! unat tag)"

function obfuscated_search :: "u8 list \<Rightarrow> u64 \<Rightarrow> nat \<Rightarrow> u64" where
  "obfuscated_search perm tag i =
     (if i < 7 then if ucast (perm ! i) = tag then of_nat i else obfuscated_search perm tag (i + 1) else 7)"
  by pat_completeness auto
termination
  by (relation "measure (\<lambda>(_, _, i). 7 - i)") auto

declare obfuscated_search.simps [simp del]

definition obfuscatedTagToBasicTag :: "tag_state \<Rightarrow> u64 \<Rightarrow> u64" where
  "obfuscatedTagToBasicTag s tag = obfuscated_search (tag60_permutations s) tag 0"

definition encodeTaggedPointer :: "tag_layout \<Rightarrow> tag_state \<Rightarrow> u64 \<Rightarrow> u64" where
  "encodeTaggedPointer L s ptr =
     (let value = obfuscator s XOR ptr in
      if SPLIT_TAGGED_POINTERS L then
        if value AND TAG_NO_OBFUSCATION_MASK L = TAG_NO_OBFUSCATION_MASK L then ptr
        else let basicTag = drop_bit (TAG_INDEX_SHIFT L) value AND TAG_INDEX_MASK;
                 permutedTag = basicTagToObfuscatedTag s basicTag;
                 value = value AND NOT (push_bit (TAG_INDEX_SHIFT L) TAG_INDEX_MASK)
             in value OR push_bit (TAG_INDEX_SHIFT L) permutedTag
      else value)"

definition decodeTaggedPointer_noPermute :: "tag_layout \<Rightarrow> tag_state \<Rightarrow> u64 \<Rightarrow> u64" where
  "decodeTaggedPointer_noPermute L s ptr =
     (if SPLIT_TAGGED_POINTERS L \<and> ptr AND TAG_NO_OBFUSCATION_MASK L = TAG_NO_OBFUSCATION_MASK L then ptr
      else ptr XOR obfuscator s)"

definition decodeTaggedPointer :: "tag_layout \<Rightarrow> tag_state \<Rightarrow> u64 \<Rightarrow> u64" where
  "decodeTaggedPointer L s ptr =
     (let value = decodeTaggedPointer_noPermute L s ptr in
      if SPLIT_TAGGED_POINTERS L then
        let basicTag = drop_bit (TAG_INDEX_SHIFT L) value AND TAG_INDEX_MASK;
            value = value AND NOT (push_bit (TAG_INDEX_SHIFT L) TAG_INDEX_MASK)
        in value OR push_bit (TAG_INDEX_SHIFT L) (obfuscatedTagToBasicTag s basicTag)
      else value)"

section \<open>Construction and access\<close>

definition taggedPointersEnabled :: "tag_state \<Rightarrow> bool" where
  "taggedPointersEnabled s \<longleftrightarrow> taggedpointer_mask s \<noteq> 0"

definition makeTaggedPointer :: "tag_layout \<Rightarrow> tag_state \<Rightarrow> nat \<Rightarrow> u64 \<Rightarrow> u64" where
  "makeTaggedPointer L s tag value =
     (if tag \<le> OBJC_TAG_Last60BitPayload then
        encodeTaggedPointer L s
          (TAG_MASK L OR push_bit (TAG_INDEX_SHIFT L) (of_nat tag) OR
           drop_bit (TAG_PAYLOAD_LSHIFT L) (push_bit (TAG_PAYLOAD_RSHIFT L) value))
      else
        encodeTaggedPointer L s
          (TAG_EXT_MASK L OR
           push_bit (TAG_EXT_INDEX_SHIFT L) (of_int (int tag - int OBJC_TAG_First52BitPayload)) OR
           drop_bit (TAG_EXT_PAYLOAD_LSHIFT L) (push_bit (TAG_EXT_PAYLOAD_RSHIFT L) value)))"

definition is_tagged :: "tag_layout \<Rightarrow> u64 \<Rightarrow> bool" where
  "is_tagged L ptr \<longleftrightarrow> ptr AND TAG_MASK L = TAG_MASK L"

definition isTaggedPointerOrNil :: "tag_layout \<Rightarrow> u64 \<Rightarrow> bool" where
  "isTaggedPointerOrNil L ptr \<longleftrightarrow> ptr = nil \<or> ptr AND TAG_MASK L = TAG_MASK L"

definition getTaggedPointerTag :: "tag_layout \<Rightarrow> tag_state \<Rightarrow> u64 \<Rightarrow> nat" where
  "getTaggedPointerTag L s ptr =
     (let value = decodeTaggedPointer L s ptr;
          basicTag = drop_bit (TAG_INDEX_SHIFT L) value AND TAG_INDEX_MASK;
          extTag = drop_bit (TAG_EXT_INDEX_SHIFT L) value AND TAG_EXT_INDEX_MASK
      in if basicTag = TAG_INDEX_MASK
         then unat (extTag + of_nat OBJC_TAG_First52BitPayload) mod 2 ^ 16 else unat basicTag mod 2 ^ 16)"

definition getTaggedPointerValue :: "tag_layout \<Rightarrow> tag_state \<Rightarrow> u64 \<Rightarrow> u64" where
  "getTaggedPointerValue L s ptr =
     (let value = decodeTaggedPointer_noPermute L s ptr;
          basicTag = drop_bit (TAG_INDEX_SHIFT L) value AND TAG_INDEX_MASK
      in if basicTag = TAG_INDEX_MASK
         then drop_bit (TAG_EXT_PAYLOAD_RSHIFT L) (push_bit (TAG_EXT_PAYLOAD_LSHIFT L) value)
         else drop_bit (TAG_PAYLOAD_RSHIFT L) (push_bit (TAG_PAYLOAD_LSHIFT L) value))"

text \<open>The right shift of the signed word copies its sign.\<close>

definition getTaggedPointerSignedValue :: "tag_layout \<Rightarrow> tag_state \<Rightarrow> u64 \<Rightarrow> u64" where
  "getTaggedPointerSignedValue L s ptr =
     (let value = decodeTaggedPointer_noPermute L s ptr;
          basicTag = drop_bit (TAG_INDEX_SHIFT L) value AND TAG_INDEX_MASK
      in if basicTag = TAG_INDEX_MASK
         then signed_drop_bit (TAG_EXT_PAYLOAD_RSHIFT L) (push_bit (TAG_EXT_PAYLOAD_LSHIFT L) value)
         else signed_drop_bit (TAG_PAYLOAD_RSHIFT L) (push_bit (TAG_PAYLOAD_LSHIFT L) value))"

definition getTaggedPointerRawPointerValue :: "tag_layout \<Rightarrow> u64 \<Rightarrow> u64" where
  "getTaggedPointerRawPointerValue L ptr = ptr AND TAG_CONSTANT_POINTER_MASK L"

definition isExtTaggedPointer :: "tag_layout \<Rightarrow> tag_state \<Rightarrow> u64 \<Rightarrow> bool" where
  "isExtTaggedPointer L s ptr \<longleftrightarrow> decodeTaggedPointer L s ptr AND TAG_EXT_MASK L = TAG_EXT_MASK L"

definition isBasicTaggedPointer :: "tag_layout \<Rightarrow> tag_state \<Rightarrow> u64 \<Rightarrow> bool" where
  "isBasicTaggedPointer L s ptr \<longleftrightarrow> is_tagged L ptr \<and> \<not> isExtTaggedPointer L s ptr"

section \<open>Class tables\<close>

text \<open>A place in one of the two tables.\<close>

datatype tag_slot = BasicSlot nat | ExtSlot nat

definition classSlotForBasicTagIndex :: "tag_layout \<Rightarrow> tag_state \<Rightarrow> nat \<Rightarrow> tag_slot" where
  "classSlotForBasicTagIndex L s tag =
     (if SPLIT_TAGGED_POINTERS L then BasicSlot (unat (basicTagToObfuscatedTag s (of_nat tag)))
      else let tagObfuscator = drop_bit (TAG_INDEX_SHIFT L) (obfuscator s) AND TAG_INDEX_MASK;
               obfuscatedTag = of_nat tag XOR tagObfuscator
           in if MSB_TAGGED_POINTERS L then BasicSlot (unat (8 OR obfuscatedTag))
              else BasicSlot (unat (push_bit 1 obfuscatedTag OR 1)))"

definition classSlotForTagIndex :: "tag_layout \<Rightarrow> tag_state \<Rightarrow> nat \<Rightarrow> tag_slot option" where
  "classSlotForTagIndex L s tag =
     (if tag \<le> OBJC_TAG_Last60BitPayload then Some (classSlotForBasicTagIndex L s tag)
      else if OBJC_TAG_First52BitPayload \<le> tag \<and> tag \<le> OBJC_TAG_Last52BitPayload then
        let index = tag - OBJC_TAG_First52BitPayload in
        if SPLIT_TAGGED_POINTERS L \<and> OBJC_TAG_FirstUnobfuscatedSplitTag \<le> tag then Some (ExtSlot index)
        else let tagObfuscator = drop_bit (TAG_EXT_INDEX_SHIFT L) (obfuscator s) AND TAG_EXT_INDEX_MASK
             in Some (ExtSlot (unat (of_nat index XOR tagObfuscator)))
      else None)"

fun read_slot :: "tag_state \<Rightarrow> tag_slot \<Rightarrow> ptr" where
  "read_slot s (BasicSlot i) = tag_classes s ! i"
| "read_slot s (ExtSlot i) = tag_ext_classes s ! i"

fun write_slot :: "tag_slot \<Rightarrow> ptr \<Rightarrow> tag_state \<Rightarrow> tag_state" where
  "write_slot (BasicSlot i) c s = s\<lparr>tag_classes := (tag_classes s)[i := c]\<rparr>"
| "write_slot (ExtSlot i) c s = s\<lparr>tag_ext_classes := (tag_ext_classes s)[i := c]\<rparr>"

text \<open>\<open>unrecognized\<close> is the address of the class \<open>__NSUnrecognizedTaggedPointer\<close>.\<close>

definition registerTaggedPointerClass ::
  "tag_layout \<Rightarrow> ptr \<Rightarrow> nat \<Rightarrow> ptr \<Rightarrow> tag_state \<Rightarrow> fault + tag_state" where
  "registerTaggedPointerClass L unrecognized tag cls s =
     (if taggedpointer_mask s = 0 then Inl TaggedPointersDisabled
      else case classSlotForTagIndex L s tag of
        None \<Rightarrow> Inl InvalidTagIndex
      | Some slot \<Rightarrow>
          let oldCls = read_slot s slot in
          if cls \<noteq> nil \<and> oldCls \<noteq> nil \<and> cls \<noteq> oldCls then Inl TagUsedTwice
          else let s = write_slot slot cls s in
               Inr (if OBJC_TAG_Last60BitPayload < tag then
                      let extSlot = classSlotForBasicTagIndex L s OBJC_TAG_RESERVED_7 in
                      if read_slot s extSlot = nil then write_slot extSlot unrecognized s else s
                    else s))"

definition getClassForTag :: "tag_layout \<Rightarrow> nat \<Rightarrow> tag_state \<Rightarrow> ptr" where
  "getClassForTag L tag s = (case classSlotForTagIndex L s tag of Some slot \<Rightarrow> read_slot s slot | None \<Rightarrow> nil)"

text \<open>\<open>getIsa\<close> of a tagged pointer; another object's class is its \<open>ISA()\<close>.\<close>

definition getIsa :: "tag_layout \<Rightarrow> tag_state \<Rightarrow> ptr \<Rightarrow> ptr \<Rightarrow> ptr \<Rightarrow> ptr" where
  "getIsa L s unrecognized isa_class ptr =
     (if \<not> is_tagged L ptr then isa_class
      else let slot = drop_bit (TAG_SLOT_SHIFT L) ptr AND TAG_SLOT_MASK L;
               cls = tag_classes s ! unat slot
           in if cls = unrecognized then
                let slot = drop_bit (TAG_EXT_SLOT_SHIFT L) ptr AND TAG_EXT_SLOT_MASK
                in tag_ext_classes s ! unat slot
              else cls)"

section \<open>States and raw pointers\<close>

text \<open>What the initialisation of the obfuscator is to establish: the obfuscator
  spares the tag bit, and in the split layout also the bits of the extended
  mask and the no-obfuscation bit; the permutation moves only the seven basic
  tags.\<close>

definition perm_ok :: "u8 list \<Rightarrow> bool" where
  "perm_ok perm \<longleftrightarrow> length perm = 8 \<and> distinct perm \<and> list_all (\<lambda>t. t < 8) perm \<and> perm ! 7 = 7"

definition tag_state_ok :: "tag_layout \<Rightarrow> tag_state \<Rightarrow> bool" where
  "tag_state_ok L s \<longleftrightarrow> obfuscator s AND TAG_MASK L = 0 \<and>
     (SPLIT_TAGGED_POINTERS L \<longrightarrow> obfuscator s AND TAG_NO_OBFUSCATION_MASK L = 0 \<and> perm_ok (tag60_permutations s)) \<and>
     length (tag_classes s) = unat (TAG_SLOT_MASK L) + 1 \<and> length (tag_ext_classes s) = 256"

definition valid_tag :: "nat \<Rightarrow> bool" where
  "valid_tag tag \<longleftrightarrow> tag \<le> 6 \<or> 8 \<le> tag \<and> tag \<le> 263"

text \<open>The pointers before obfuscation, with a basic tag \<open>t\<close> and with an extended
  tag index \<open>e\<close>.\<close>

definition basic_raw :: "tag_layout \<Rightarrow> u64 \<Rightarrow> u64 \<Rightarrow> u64" where
  "basic_raw L t v = TAG_MASK L OR push_bit (TAG_INDEX_SHIFT L) t OR
     drop_bit (TAG_PAYLOAD_LSHIFT L) (push_bit (TAG_PAYLOAD_RSHIFT L) v)"

definition ext_raw :: "tag_layout \<Rightarrow> u64 \<Rightarrow> u64 \<Rightarrow> u64" where
  "ext_raw L e v = TAG_EXT_MASK L OR push_bit (TAG_EXT_INDEX_SHIFT L) e OR
     drop_bit (TAG_EXT_PAYLOAD_LSHIFT L) (push_bit (TAG_EXT_PAYLOAD_RSHIFT L) v)"

lemma and_7 [simp]: "(w :: u64) AND TAG_INDEX_MASK = take_bit 3 w"
  by (simp add: TAG_INDEX_MASK_def take_bit_eq_mask mask_numeral)

lemma and_255 [simp]: "(w :: u64) AND TAG_EXT_INDEX_MASK = take_bit 8 w" "(w :: u64) AND TAG_EXT_SLOT_MASK = take_bit 8 w"
  by (simp_all add: TAG_EXT_INDEX_MASK_def TAG_EXT_SLOT_MASK_def take_bit_eq_mask mask_numeral)

lemma put_index: "(w :: u64) AND NOT (push_bit s TAG_INDEX_MASK) OR push_bit s (take_bit 3 t) = put_field s 3 t w"
  by (simp add: put_field_def TAG_INDEX_MASK_def mask_numeral)

lemma take_bit_below: "take_bit n w = w \<Longrightarrow> bit (w :: u64) i \<Longrightarrow> i < n"
  by (metis bit_take_bit_iff)

text \<open>What a layout promises of them: the fields do not overlap.\<close>

locale tag_fields =
  fixes L :: tag_layout
  assumes basic_index: "take_bit 3 t = t \<Longrightarrow> get_field (TAG_INDEX_SHIFT L) 3 (basic_raw L t v) = t"
    and basic_payload: "take_bit 3 t = t \<Longrightarrow>
      drop_bit (TAG_PAYLOAD_RSHIFT L) (push_bit (TAG_PAYLOAD_LSHIFT L) (basic_raw L t v)) = take_bit 60 v"
    and basic_signed: "take_bit 3 t = t \<Longrightarrow>
      signed_drop_bit (TAG_PAYLOAD_RSHIFT L) (push_bit (TAG_PAYLOAD_LSHIFT L) (basic_raw L t v)) = signed_take_bit 59 v"
    and basic_tagged: "basic_raw L t v AND TAG_MASK L = TAG_MASK L"
    and ext_index: "take_bit 8 e = e \<Longrightarrow> get_field (TAG_INDEX_SHIFT L) 3 (ext_raw L e v) = 7"
    and ext_ext_index: "take_bit 8 e = e \<Longrightarrow> get_field (TAG_EXT_INDEX_SHIFT L) 8 (ext_raw L e v) = e"
    and ext_payload: "take_bit 8 e = e \<Longrightarrow>
      drop_bit (TAG_EXT_PAYLOAD_RSHIFT L) (push_bit (TAG_EXT_PAYLOAD_LSHIFT L) (ext_raw L e v)) = take_bit 52 v"
    and ext_signed: "take_bit 8 e = e \<Longrightarrow>
      signed_drop_bit (TAG_EXT_PAYLOAD_RSHIFT L) (push_bit (TAG_EXT_PAYLOAD_LSHIFT L) (ext_raw L e v)) = signed_take_bit 51 v"
    and ext_tagged: "ext_raw L e v AND TAG_EXT_MASK L = TAG_EXT_MASK L"
    and ext_mask: "w AND TAG_EXT_MASK L = TAG_EXT_MASK L \<longleftrightarrow> w AND TAG_MASK L = TAG_MASK L \<and> get_field (TAG_INDEX_SHIFT L) 3 w = 7"

lemma split_simps [simp]:
  "SPLIT_TAGGED_POINTERS split_tags" "TAG_MASK split_tags = push_bit 63 1" "TAG_INDEX_SHIFT split_tags = 0"
  "TAG_PAYLOAD_LSHIFT split_tags = 1" "TAG_PAYLOAD_RSHIFT split_tags = 4" "TAG_EXT_MASK split_tags = push_bit 63 1 OR mask 3"
  "TAG_EXT_INDEX_SHIFT split_tags = 55" "TAG_EXT_PAYLOAD_LSHIFT split_tags = 9" "TAG_EXT_PAYLOAD_RSHIFT split_tags = 12"
  by (simp_all add: split_tags_def mask_numeral)

lemma msb_simps [simp]:
  "\<not> SPLIT_TAGGED_POINTERS msb_tags" "TAG_MASK msb_tags = push_bit 63 1" "TAG_INDEX_SHIFT msb_tags = 60"
  "TAG_PAYLOAD_LSHIFT msb_tags = 4" "TAG_PAYLOAD_RSHIFT msb_tags = 4" "TAG_EXT_MASK msb_tags = push_bit 60 (mask 4)"
  "TAG_EXT_INDEX_SHIFT msb_tags = 52" "TAG_EXT_PAYLOAD_LSHIFT msb_tags = 12" "TAG_EXT_PAYLOAD_RSHIFT msb_tags = 12"
  by (simp_all add: msb_tags_def mask_numeral)

lemma lsb_simps [simp]:
  "\<not> SPLIT_TAGGED_POINTERS lsb_tags" "TAG_MASK lsb_tags = push_bit 0 1" "TAG_INDEX_SHIFT lsb_tags = 1"
  "TAG_PAYLOAD_LSHIFT lsb_tags = 0" "TAG_PAYLOAD_RSHIFT lsb_tags = 4" "TAG_EXT_MASK lsb_tags = mask 4"
  "TAG_EXT_INDEX_SHIFT lsb_tags = 4" "TAG_EXT_PAYLOAD_LSHIFT lsb_tags = 0" "TAG_EXT_PAYLOAD_RSHIFT lsb_tags = 12"
  by (simp_all add: lsb_tags_def mask_numeral)

lemmas bit_field_iffs = bit_get_field bit_or_iff bit_and_iff bit_push_bit_iff bit_drop_bit_eq bit_mask_iff bit_1_iff
  bit_take_bit_iff bit_signed_drop_bit_iff bit_signed_take_bit_iff possible_bit_word

lemma and_or_mask: "(w :: u64) AND (a OR b) = a OR b \<longleftrightarrow> w AND a = a \<and> w AND b = b"
  by (auto simp: bit_eq_iff bit_and_iff bit_or_iff)

lemma and_field_mask:
  assumes "s + n \<le> 64"
  shows "(w :: u64) AND push_bit s (mask n) = push_bit s (mask n) \<longleftrightarrow> get_field s n w = mask n"
proof
  assume "w AND push_bit s (mask n) = push_bit s (mask n)"
  then have "bit w (s + i)" if "i < n" for i
    using assms that by (auto simp: bit_eq_iff bit_and_iff bit_push_bit_iff bit_mask_iff dest!: spec [of _ "s + i"])
  then show "get_field s n w = mask n"
    using assms by (intro bit_word_eqI) (auto simp: bit_get_field bit_mask_iff)
next
  assume "get_field s n w = mask n"
  then have "bit w (s + i)" if "i < n" for i
    using assms that by (auto simp: bit_eq_iff bit_get_field bit_mask_iff dest!: spec [of _ i])
  then show "w AND push_bit s (mask n) = push_bit s (mask n)"
    using le_Suc_ex by (intro bit_word_eqI) (fastforce simp: bit_and_iff bit_push_bit_iff bit_mask_iff)
qed

lemma seven: "(7 :: u64) = mask 3"
  by (simp add: mask_numeral)

lemma ext_masks:
  "push_bit 60 (mask 4) = (push_bit 63 1 OR push_bit 60 (mask 3) :: u64)"
  "mask 4 = (push_bit 0 1 OR push_bit 1 (mask 3) :: u64)"
  "push_bit 63 1 OR mask 3 = (push_bit 63 1 OR push_bit 0 (mask 3) :: u64)"
  by code_simp+

lemma and_field_masks:
  "(w :: u64) AND push_bit 60 (mask 3) = push_bit 60 (mask 3) \<longleftrightarrow> get_field 60 3 w = mask 3"
  "w AND push_bit 1 (mask 3) = push_bit 1 (mask 3) \<longleftrightarrow> get_field 1 3 w = mask 3"
  "w AND push_bit 0 (mask 3) = push_bit 0 (mask 3) \<longleftrightarrow> get_field 0 3 w = mask 3"
  by (rule and_field_mask, simp)+

interpretation split: tag_fields split_tags
  apply (unfold_locales; unfold split_simps basic_raw_def ext_raw_def seven)
         apply ((rule bit_word_eqI, unfold bit_field_iffs, (auto dest: take_bit_below) [1]) [1])+
  apply (unfold ext_masks(3) and_or_mask and_field_masks)
  apply (rule refl)
  done

interpretation msb: tag_fields msb_tags
  apply (unfold_locales; unfold msb_simps basic_raw_def ext_raw_def seven)
         apply ((rule bit_word_eqI, unfold bit_field_iffs, (auto dest: take_bit_below) [1]) [1])+
  apply (unfold ext_masks(1) and_or_mask and_field_masks)
  apply (rule refl)
  done

interpretation lsb: tag_fields lsb_tags
  apply (unfold_locales; unfold lsb_simps basic_raw_def ext_raw_def seven)
         apply ((rule bit_word_eqI, unfold bit_field_iffs, (auto dest: take_bit_below) [1]) [1])+
  apply (unfold ext_masks(2) and_or_mask and_field_masks)
  apply (rule refl)
  done

section \<open>Obfuscation is reversible\<close>

lemma take_bit_id_iff: "n < 64 \<Longrightarrow> take_bit n (w :: u64) = w \<longleftrightarrow> unat w < 2 ^ n"
  by (simp add: word_unat_eq_iff unsigned_take_bit_eq take_bit_nat_eq_self_iff)

lemma perm_less: "perm_ok perm \<Longrightarrow> i < 8 \<Longrightarrow> perm ! i < 8"
  by (auto simp: perm_ok_def list_all_length)

lemma perm_inj: "perm_ok perm \<Longrightarrow> i < 8 \<Longrightarrow> j < 8 \<Longrightarrow> perm ! i = perm ! j \<longleftrightarrow> i = j"
  by (simp add: perm_ok_def nth_eq_iff_index_eq)

lemma unat_ucast_u8 [simp]: "unat (ucast (a :: u8) :: u64) = unat a"
proof -
  have "unat a < 2 ^ 8" using unsigned_less [of a, where ?'a = nat] by simp
  then show ?thesis by (simp add: unsigned_ucast_eq take_bit_nat_eq_self)
qed

lemma ucast_perm_eq: "(ucast (a :: u8) :: u64) = ucast b \<longleftrightarrow> a = b"
  unfolding word_unat_eq_iff unat_ucast_u8 ..

text \<open>The search finds the tag that was permuted; an entry of the permutation that
  is not the seventh is found before the end.\<close>

lemma obfuscated_search_found:
  assumes "perm_ok perm" "j < 7" "i \<le> j"
  shows "obfuscated_search perm (ucast (perm ! j)) i = of_nat j"
  using assms(3)
proof (induction "j - i" arbitrary: i)
  case 0
  then show ?case using assms(2) by (simp add: obfuscated_search.simps [of _ _ i])
next
  case (Suc d)
  then have "i < j" "d = j - (i + 1)" by auto
  then have "perm ! i \<noteq> perm ! j" using assms(1,2) by (simp add: perm_inj)
  then show ?case using Suc \<open>i < j\<close> assms(2)
    by (simp add: obfuscated_search.simps [of _ _ i] ucast_perm_eq)
qed

lemma obfuscated_search_7:
  assumes "perm_ok perm" "i \<le> 7"
  shows "obfuscated_search perm 7 i = 7"
  using assms(2)
proof (induction "7 - i" arbitrary: i)
  case 0
  then show ?case by (simp add: obfuscated_search.simps)
next
  case (Suc d)
  then have "i < 7" "d = 7 - (i + 1)" by auto
  then have "perm ! i \<noteq> perm ! 7" using assms(1) by (simp add: perm_inj)
  then have "ucast (perm ! i) \<noteq> (ucast (7 :: u8) :: u64)" using assms(1) by (simp only: ucast_perm_eq) (simp add: perm_ok_def)
  then show ?case using Suc \<open>i < 7\<close> by (simp add: obfuscated_search.simps [of _ _ i])
qed

lemma permuted_tag:
  assumes "perm_ok (tag60_permutations s)" "take_bit 3 t = t"
  shows "take_bit 3 (basicTagToObfuscatedTag s t) = basicTagToObfuscatedTag s t"
    "obfuscatedTagToBasicTag s (basicTagToObfuscatedTag s t) = t"
    "basicTagToObfuscatedTag s t = 7 \<longleftrightarrow> t = 7"
proof -
  let ?perm = "tag60_permutations s"
  have t: "unat t < 8" using assms(2) take_bit_id_iff [of 3 t] by simp
  have "unat (basicTagToObfuscatedTag s t) < 8"
    using perm_less [OF assms(1) t] by (simp add: basicTagToObfuscatedTag_def word_less_nat_alt)
  then show "take_bit 3 (basicTagToObfuscatedTag s t) = basicTagToObfuscatedTag s t" by (simp add: take_bit_id_iff)
  have seventh: "ucast (?perm ! 7) = (7 :: u64)" using assms(1) by (simp add: perm_ok_def)
  have "basicTagToObfuscatedTag s t = 7 \<longleftrightarrow> ?perm ! unat t = ?perm ! 7"
    unfolding basicTagToObfuscatedTag_def seventh [symmetric] by (rule ucast_perm_eq)
  also have "\<dots> \<longleftrightarrow> unat t = 7" using assms(1) t by (simp add: perm_inj)
  finally show seven: "basicTagToObfuscatedTag s t = 7 \<longleftrightarrow> t = 7" by (simp add: word_unat_eq_iff)
  show "obfuscatedTagToBasicTag s (basicTagToObfuscatedTag s t) = t"
  proof (cases "t = 7")
    case True
    then show ?thesis using seven obfuscated_search_7 [OF assms(1), of 0] by (simp add: obfuscatedTagToBasicTag_def)
  next
    case False
    then have "unat t < 7" using t by (simp add: word_unat_eq_iff)
    then show ?thesis using obfuscated_search_found [OF assms(1), of "unat t" 0]
      by (simp add: obfuscatedTagToBasicTag_def basicTagToObfuscatedTag_def)
  qed
qed

lemma and_bit_mask: "(w :: u64) AND push_bit k 1 = push_bit k 1 \<longleftrightarrow> k < 64 \<longrightarrow> bit w k"
  by (auto simp: word_eq_iff_bit bit_and_iff bit_push_bit_iff bit_1_iff simp del: push_bit_of_1)

lemma and_bit_zero: "(w :: u64) AND push_bit k 1 = 0 \<Longrightarrow> k < 64 \<Longrightarrow> \<not> bit w k"
  unfolding word_eq_iff_bit by (drule spec [of _ k]) (simp add: bit_and_iff bit_push_bit_iff bit_1_iff del: push_bit_of_1)

lemma no_obfuscation_iff:
  "w AND TAG_NO_OBFUSCATION_MASK split_tags = TAG_NO_OBFUSCATION_MASK split_tags \<longleftrightarrow>
     bit w 62 \<and> bit w 63 \<and> get_field 0 3 w = 7"
  unfolding TAG_NO_OBFUSCATION_MASK_def split_simps ext_masks(3) and_or_mask and_field_masks and_bit_mask seven
  by simp

lemma spared_bits:
  assumes "obf AND TAG_NO_OBFUSCATION_MASK split_tags = 0"
  shows "\<not> bit obf 62" "\<not> bit obf 63" "i < 3 \<Longrightarrow> \<not> bit obf i"
proof -
  have b: "bit (TAG_NO_OBFUSCATION_MASK split_tags) i \<longleftrightarrow> i = 62 \<or> i = 63 \<or> i < 3" for i
    unfolding TAG_NO_OBFUSCATION_MASK_def split_simps
    by (auto simp: bit_or_iff bit_push_bit_iff bit_1_iff bit_mask_iff simp del: push_bit_of_1)
  have "\<not> bit obf i" if "i = 62 \<or> i = 63 \<or> i < 3" for i
    using arg_cong [OF assms, of "\<lambda>x. bit x i"] that by (simp add: bit_and_iff b)
  then show "\<not> bit obf 62" "\<not> bit obf 63" "i < 3 \<Longrightarrow> \<not> bit obf i" by auto
qed

text \<open>The split layout: a pointer whose tag is not to be obfuscated stays as it is;
  any other has its index permuted.\<close>

lemma split_encode:
  assumes "tag_state_ok split_tags s"
  defines "P \<equiv> \<lambda>p. put_field 0 3 (basicTagToObfuscatedTag s (get_field 0 3 p))"
  shows "encodeTaggedPointer split_tags s p =
      (if bit p 62 \<and> bit p 63 \<and> get_field 0 3 p = 7 then p else P p (obfuscator s XOR p))"
    and "decodeTaggedPointer_noPermute split_tags s (encodeTaggedPointer split_tags s p) =
      (if bit p 62 \<and> bit p 63 \<and> get_field 0 3 p = 7 then p else P p p)"
    and "decodeTaggedPointer split_tags s (encodeTaggedPointer split_tags s p) = p"
proof -
  have obf: "obfuscator s AND TAG_NO_OBFUSCATION_MASK split_tags = 0" and perm: "perm_ok (tag60_permutations s)"
    using assms(1) by (auto simp: tag_state_ok_def)
  note spared = spared_bits [OF obf]
  let ?t = "get_field 0 3 p"
  note t = permuted_tag [OF perm, of ?t]
  have t3: "take_bit 3 ?t = ?t" by (simp add: get_field_def)
  have same: "get_field 0 3 (obfuscator s XOR p) = ?t"
    by (rule bit_word_eqI) (auto simp: bit_get_field bit_xor_iff spared)
  have enc: "encodeTaggedPointer split_tags s p =
      (if bit p 62 \<and> bit p 63 \<and> ?t = 7 then p else P p (obfuscator s XOR p))"
    unfolding encodeTaggedPointer_def Let_def split_simps no_obfuscation_iff same P_def
    using t(1) [OF t3] put_index [of "obfuscator s XOR p" 0 "basicTagToObfuscatedTag s ?t"] same spared(1,2)
    by (simp add: bit_xor_iff get_field_def)
  show "encodeTaggedPointer split_tags s p =
      (if bit p 62 \<and> bit p 63 \<and> ?t = 7 then p else P p (obfuscator s XOR p))" by (rule enc)
  have idx: "get_field 0 3 (P p w) = basicTagToObfuscatedTag s ?t" for w
    unfolding P_def using t(1) [OF t3] by (subst get_put_same) auto
  have undone: "P p (obfuscator s XOR p) XOR obfuscator s = P p p"
    by (rule bit_word_eqI) (auto simp: P_def bit_xor_iff bit_put_field spared)
  have other: "\<not> (bit (P p (obfuscator s XOR p)) 62 \<and> bit (P p (obfuscator s XOR p)) 63 \<and> get_field 0 3 (P p (obfuscator s XOR p)) = 7)"
    if "\<not> (bit p 62 \<and> bit p 63 \<and> ?t = 7)"
    using that spared(1,2) unfolding idx t(3) [OF t3] by (auto simp: P_def bit_put_field bit_xor_iff)
  show dec: "decodeTaggedPointer_noPermute split_tags s (encodeTaggedPointer split_tags s p) =
      (if bit p 62 \<and> bit p 63 \<and> ?t = 7 then p else P p p)"
    unfolding decodeTaggedPointer_noPermute_def enc no_obfuscation_iff using other undone by auto
  have "put_field 0 3 ?t (P p p) = p" "put_field 0 3 ?t p = p"
    by (rule bit_word_eqI, auto simp: P_def bit_put_field bit_get_field)+
  moreover have "obfuscatedTagToBasicTag s 7 = 7" if "?t = 7" using that t(2,3) [OF t3] by metis
  ultimately show "decodeTaggedPointer split_tags s (encodeTaggedPointer split_tags s p) = p"
    unfolding decodeTaggedPointer_def dec Let_def split_simps
    using put_index [of p 0 ?t] put_index [of "P p p" 0 ?t] t(2) [OF t3] t3 idx [of p]
    by (auto simp: get_field_def)
qed

lemma plain_encode:
  assumes "\<not> SPLIT_TAGGED_POINTERS L"
  shows "encodeTaggedPointer L s p = obfuscator s XOR p"
    "decodeTaggedPointer_noPermute L s (encodeTaggedPointer L s p) = p"
    "decodeTaggedPointer L s (encodeTaggedPointer L s p) = p"
  using assms by (auto simp: encodeTaggedPointer_def decodeTaggedPointer_def decodeTaggedPointer_noPermute_def Let_def
      xor.commute [of "obfuscator s"] xor.assoc)

section \<open>Round trips\<close>

text \<open>What the accessors rely on: decoding undoes encoding, and the decoding that
  leaves the index permuted still tells the payload and whether the tag is an
  extended one.\<close>

locale tag_codec = tag_fields L for L :: tag_layout +
  fixes s :: tag_state
  assumes decode_encode: "decodeTaggedPointer L s (encodeTaggedPointer L s p) = p"
    and plain_index: "get_field (TAG_INDEX_SHIFT L) 3 (decodeTaggedPointer_noPermute L s (encodeTaggedPointer L s p)) = 7 \<longleftrightarrow>
      get_field (TAG_INDEX_SHIFT L) 3 p = 7"
    and plain_payload: "k = TAG_PAYLOAD_RSHIFT L \<and> l = TAG_PAYLOAD_LSHIFT L \<or> k = TAG_EXT_PAYLOAD_RSHIFT L \<and> l = TAG_EXT_PAYLOAD_LSHIFT L \<Longrightarrow>
      drop_bit k (push_bit l (decodeTaggedPointer_noPermute L s (encodeTaggedPointer L s p))) = drop_bit k (push_bit l p) \<and>
      signed_drop_bit k (push_bit l (decodeTaggedPointer_noPermute L s (encodeTaggedPointer L s p))) = signed_drop_bit k (push_bit l p)"
    and encode_tagged: "encodeTaggedPointer L s p AND TAG_MASK L = TAG_MASK L \<longleftrightarrow> p AND TAG_MASK L = TAG_MASK L"
begin

abbreviation (input) raw where
  "raw tag v \<equiv> (if tag \<le> 6 then basic_raw L (of_nat tag) v else ext_raw L (of_nat (tag - 8)) v)"

lemma make_eq:
  assumes "valid_tag tag"
  shows "makeTaggedPointer L s tag v = encodeTaggedPointer L s (raw tag v)"
proof (cases "tag \<le> 6")
  case False
  then have "int tag - int 8 = int (tag - 8)" using assms by (simp add: valid_tag_def)
  then have "(of_int (int tag - int 8) :: u64) = of_nat (tag - 8)" by (simp only: of_int_of_nat_eq)
  then show ?thesis using False
    unfolding makeTaggedPointer_def OBJC_TAG_Last60BitPayload_def OBJC_TAG_First52BitPayload_def ext_raw_def
    by (simp only: if_False)
qed (simp add: makeTaggedPointer_def OBJC_TAG_Last60BitPayload_def basic_raw_def)

lemma tag_words:
  "tag \<le> 6 \<Longrightarrow> take_bit 3 (of_nat tag :: u64) = of_nat tag" "tag \<le> 6 \<Longrightarrow> (of_nat tag :: u64) \<noteq> 7"
  "tag \<le> 263 \<Longrightarrow> take_bit 8 (of_nat (tag - 8) :: u64) = of_nat (tag - 8)"
  by (simp add: take_bit_id_iff unat_of_nat_u64, simp add: word_unat_eq_iff unat_of_nat_u64,
      simp add: take_bit_id_iff unat_of_nat_u64)

lemma raw_index: "valid_tag tag \<Longrightarrow> get_field (TAG_INDEX_SHIFT L) 3 (raw tag v) = (if tag \<le> 6 then of_nat tag else 7)"
  using basic_index tag_words ext_index by (auto simp: valid_tag_def simp del: of_nat_diff)

lemma getTag_make:
  assumes "valid_tag tag"
  shows "getTaggedPointerTag L s (makeTaggedPointer L s tag v) = tag"
proof -
  have "get_field (TAG_EXT_INDEX_SHIFT L) 8 (raw tag v) = of_nat (tag - 8)" if "\<not> tag \<le> 6"
    using that ext_ext_index tag_words(3) assms by (simp add: valid_tag_def del: of_nat_diff)
  moreover have "unat (of_nat (tag - 8) + 8 :: u64) = tag" if "8 \<le> tag" "tag \<le> 263"
  proof -
    have "unat (of_nat (tag - 8) :: u64) = tag - 8" using that by (intro unat_of_nat_u64) simp
    then show ?thesis using that by (subst unat_add_nowrap_u64) (simp_all del: of_nat_diff)
  qed
  ultimately show ?thesis
    using raw_index [OF assms, of v] assms tag_words(2) [of tag]
    unfolding getTaggedPointerTag_def make_eq [OF assms] decode_encode Let_def and_7 and_255 get_field_def [symmetric]
    by (auto simp: TAG_INDEX_MASK_def OBJC_TAG_First52BitPayload_def valid_tag_def unat_of_nat_u64 of_nat_add [symmetric]
        simp del: of_nat_add of_nat_diff)
qed

lemma getValue_make:
  assumes "valid_tag tag"
  shows "getTaggedPointerValue L s (makeTaggedPointer L s tag v) = take_bit (if tag \<le> 6 then 60 else 52) v"
    and "getTaggedPointerSignedValue L s (makeTaggedPointer L s tag v) = signed_take_bit (if tag \<le> 6 then 59 else 51) v"
proof -
  have idx: "get_field (TAG_INDEX_SHIFT L) 3 (decodeTaggedPointer_noPermute L s (encodeTaggedPointer L s (raw tag v))) = 7 \<longleftrightarrow>
      \<not> tag \<le> 6"
    unfolding plain_index raw_index [OF assms] using tag_words(2) by simp
  then have idx': "drop_bit (TAG_INDEX_SHIFT L) (decodeTaggedPointer_noPermute L s (encodeTaggedPointer L s (raw tag v)))
      AND TAG_INDEX_MASK = TAG_INDEX_MASK \<longleftrightarrow> \<not> tag \<le> 6"
    unfolding and_7 get_field_def by (simp only: TAG_INDEX_MASK_def)
  note basic = plain_payload [of "TAG_PAYLOAD_RSHIFT L" "TAG_PAYLOAD_LSHIFT L", simplified]
  note ext = plain_payload [of "TAG_EXT_PAYLOAD_RSHIFT L" "TAG_EXT_PAYLOAD_LSHIFT L", simplified]
  note v = basic_payload [OF tag_words(1), of tag] basic_signed [OF tag_words(1), of tag]
    ext_payload [OF tag_words(3), of tag] ext_signed [OF tag_words(3), of tag]
  show "getTaggedPointerValue L s (makeTaggedPointer L s tag v) = take_bit (if tag \<le> 6 then 60 else 52) v"
    using assms v unfolding getTaggedPointerValue_def make_eq [OF assms] Let_def idx' by (auto simp: basic ext valid_tag_def simp del: of_nat_diff)
  show "getTaggedPointerSignedValue L s (makeTaggedPointer L s tag v) = signed_take_bit (if tag \<le> 6 then 59 else 51) v"
    using assms v unfolding getTaggedPointerSignedValue_def make_eq [OF assms] Let_def idx' by (auto simp: basic ext valid_tag_def simp del: of_nat_diff)
qed

lemma make_tagged:
  assumes "valid_tag tag"
  shows "is_tagged L (makeTaggedPointer L s tag v)"
    and "isExtTaggedPointer L s (makeTaggedPointer L s tag v) \<longleftrightarrow> 8 \<le> tag"
    and "isBasicTaggedPointer L s (makeTaggedPointer L s tag v) \<longleftrightarrow> tag \<le> 6"
proof -
  have tagged: "raw tag v AND TAG_MASK L = TAG_MASK L"
    using basic_tagged ext_tagged ext_mask by auto
  then show t: "is_tagged L (makeTaggedPointer L s tag v)" unfolding is_tagged_def make_eq [OF assms] encode_tagged .
  show e: "isExtTaggedPointer L s (makeTaggedPointer L s tag v) \<longleftrightarrow> 8 \<le> tag"
    unfolding isExtTaggedPointer_def make_eq [OF assms] decode_encode ext_mask raw_index [OF assms]
    using tagged assms tag_words(2) by (auto simp: valid_tag_def)
  show "isBasicTaggedPointer L s (makeTaggedPointer L s tag v) \<longleftrightarrow> tag \<le> 6"
    unfolding isBasicTaggedPointer_def using t e assms by (auto simp: valid_tag_def)
qed

end

lemma xor_spared_mask: "(obf :: u64) AND m = 0 \<Longrightarrow> (obf XOR p) AND m = m \<longleftrightarrow> p AND m = m"
  by (auto simp: bit_eq_iff bit_and_iff bit_xor_iff)

lemma plain_codec:
  assumes "tag_fields L" "\<not> SPLIT_TAGGED_POINTERS L" "tag_state_ok L s"
  shows "tag_codec L s"
  using assms(1,3) unfolding tag_codec_def tag_codec_axioms_def plain_encode(2,3) [OF assms(2)]
  unfolding plain_encode(1) [OF assms(2)] by (simp add: tag_state_ok_def xor_spared_mask)

lemma split_codec:
  assumes "tag_state_ok split_tags s"
  shows "tag_codec split_tags s"
proof -
  note enc = split_encode [OF assms]
  have perm: "perm_ok (tag60_permutations s)" using assms by (simp add: tag_state_ok_def)
  have obf: "\<not> bit (obfuscator s) 63" using spared_bits(2) assms by (auto simp: tag_state_ok_def)
  let ?P = "\<lambda>p. put_field 0 3 (basicTagToObfuscatedTag s (get_field 0 3 p))"
  have t3: "take_bit 3 (get_field 0 3 p) = get_field 0 3 p" for p :: u64 by (simp add: get_field_def)
  have idx: "get_field 0 3 (?P p p) = 7 \<longleftrightarrow> get_field 0 3 p = 7" for p
    using permuted_tag(1,3) [OF perm t3] by (subst get_put_same) auto
  have payload: "drop_bit k (push_bit l (?P p p)) = drop_bit k (push_bit l p)"
    "signed_drop_bit k (push_bit l (?P p p)) = signed_drop_bit k (push_bit l p)"
    if "l + 3 \<le> k" "l \<le> 60" for k l p
    by (rule bit_word_eqI, use that in \<open>auto simp: bit_field_iffs bit_put_field\<close>)+
  show ?thesis
  proof (unfold_locales)
    fix k l and p :: u64
    assume "k = TAG_PAYLOAD_RSHIFT split_tags \<and> l = TAG_PAYLOAD_LSHIFT split_tags \<or>
      k = TAG_EXT_PAYLOAD_RSHIFT split_tags \<and> l = TAG_EXT_PAYLOAD_LSHIFT split_tags"
    then show "drop_bit k (push_bit l (decodeTaggedPointer_noPermute split_tags s (encodeTaggedPointer split_tags s p))) = drop_bit k (push_bit l p) \<and>
      signed_drop_bit k (push_bit l (decodeTaggedPointer_noPermute split_tags s (encodeTaggedPointer split_tags s p))) = signed_drop_bit k (push_bit l p)"
      unfolding enc(2) split_simps using payload [of l k] by auto
  next
    fix p :: u64
    show "encodeTaggedPointer split_tags s p AND TAG_MASK split_tags = TAG_MASK split_tags \<longleftrightarrow> p AND TAG_MASK split_tags = TAG_MASK split_tags"
      unfolding enc(1) split_simps and_bit_mask using obf by (simp add: bit_put_field bit_xor_iff)
  qed (use enc idx in \<open>simp_all add: split_simps\<close>)
qed

lemma tag_codecI:
  assumes "L = split_tags \<or> L = msb_tags \<or> L = lsb_tags" "tag_state_ok L s"
  shows "tag_codec L s"
  using assms split_codec plain_codec [OF msb.tag_fields_axioms] plain_codec [OF lsb.tag_fields_axioms] by auto

text \<open>The state the process starts with.  \<open>initializeTaggedPointerObfuscator\<close> is empty
  in this tree, so it stays: no obfuscation and the identity permutation.\<close>

definition initializeTaggedPointerObfuscator :: "tag_state \<Rightarrow> tag_state" where
  "initializeTaggedPointerObfuscator s = s"

definition boot_tags :: "tag_layout \<Rightarrow> tag_state" where
  "boot_tags L = \<lparr>taggedpointer_mask = TAG_MASK L, obfuscator = 0, tag60_permutations = [0, 1, 2, 3, 4, 5, 6, 7],
     tag_classes = replicate (unat (TAG_SLOT_MASK L) + 1) nil, tag_ext_classes = replicate 256 nil\<rparr>"

lemma boot_tags_ok: "tag_state_ok L (initializeTaggedPointerObfuscator (boot_tags L))"
  by (simp add: initializeTaggedPointerObfuscator_def boot_tags_def tag_state_ok_def perm_ok_def)

interpretation split_boot: tag_codec split_tags "initializeTaggedPointerObfuscator (boot_tags split_tags)"
  by (rule tag_codecI [OF _ boot_tags_ok]) simp

interpretation msb_boot: tag_codec msb_tags "initializeTaggedPointerObfuscator (boot_tags msb_tags)"
  by (rule tag_codecI [OF _ boot_tags_ok]) simp

interpretation lsb_boot: tag_codec lsb_tags "initializeTaggedPointerObfuscator (boot_tags lsb_tags)"
  by (rule tag_codecI [OF _ boot_tags_ok]) simp

section \<open>Dispatch through the class tables\<close>

text \<open>The slots \<open>getIsa\<close> reads are those the registration writes.\<close>

definition pointer_slot :: "tag_layout \<Rightarrow> u64 \<Rightarrow> tag_slot" where
  "pointer_slot L ptr = BasicSlot (unat (drop_bit (TAG_SLOT_SHIFT L) ptr AND TAG_SLOT_MASK L))"

definition pointer_ext_slot :: "tag_layout \<Rightarrow> u64 \<Rightarrow> tag_slot" where
  "pointer_ext_slot L ptr = ExtSlot (unat (drop_bit (TAG_EXT_SLOT_SHIFT L) ptr AND TAG_EXT_SLOT_MASK))"

lemma getIsa_slots:
  "is_tagged L ptr \<Longrightarrow> getIsa L s unrecognized c ptr =
     (if read_slot s (pointer_slot L ptr) = unrecognized then read_slot s (pointer_ext_slot L ptr)
      else read_slot s (pointer_slot L ptr))"
  by (simp add: getIsa_def pointer_slot_def pointer_ext_slot_def Let_def)

lemma slot_masks:
  "TAG_SLOT_SHIFT split_tags = 0" "TAG_SLOT_MASK split_tags = mask 3" "TAG_EXT_SLOT_SHIFT split_tags = 55"
  "TAG_SLOT_SHIFT msb_tags = 60" "TAG_SLOT_MASK msb_tags = mask 4" "TAG_EXT_SLOT_SHIFT msb_tags = 52"
  "TAG_SLOT_SHIFT lsb_tags = 0" "TAG_SLOT_MASK lsb_tags = mask 4" "TAG_EXT_SLOT_SHIFT lsb_tags = 4"
  "MSB_TAGGED_POINTERS msb_tags" "\<not> MSB_TAGGED_POINTERS lsb_tags"
  by (simp_all add: split_tags_def msb_tags_def lsb_tags_def mask_numeral)

lemma drop_and_mask: "drop_bit k (w :: u64) AND mask n = get_field k n w"
  by (simp add: get_field_def take_bit_eq_mask)

lemma eight: "(8 :: u64) = push_bit 3 1"
  by simp

lemma get_field_xor: "get_field k n (a XOR b) = (get_field k n a XOR get_field k n b :: u64)"
  by (rule bit_word_eqI) (auto simp: bit_get_field bit_xor_iff)

lemma msb_slot:
  fixes obf w :: u64
  assumes "\<not> bit obf 63" "bit w 63"
  shows "get_field 60 4 (obf XOR w) = 8 OR (get_field 60 3 w XOR get_field 60 3 obf)"
proof -
  have three: "n < 4 \<longleftrightarrow> n = 3 \<or> n < 3" for n :: nat by auto
  show ?thesis
    by (rule bit_word_eqI) (use assms in \<open>auto simp: three eight bit_get_field bit_xor_iff bit_or_iff bit_push_bit_iff
      bit_1_iff simp del: push_bit_of_1\<close>)
qed

lemma lsb_slot:
  fixes obf w :: u64
  assumes "\<not> bit obf 0" "bit w 0"
  shows "get_field 0 4 (obf XOR w) = push_bit 1 (get_field 1 3 w XOR get_field 1 3 obf) OR 1"
proof (rule bit_word_eqI)
  fix n :: nat assume "n < LENGTH(64)"
  then show "bit (get_field 0 4 (obf XOR w)) n = bit (push_bit 1 (get_field 1 3 w XOR get_field 1 3 obf) OR 1) n"
    unfolding bit_get_field bit_xor_iff bit_or_iff bit_push_bit_iff bit_1_iff using assms by (cases n) auto
qed

lemma bit_7_less_256: "m < 256 \<Longrightarrow> bit (of_nat m :: u64) 7 \<longleftrightarrow> 128 \<le> m"
proof -
  assume m: "m < 256"
  have "m div 128 = (if 128 \<le> m then 1 else 0)" using m by (simp add: div_nat_eqI)
  then have "bit m 7 \<longleftrightarrow> 128 \<le> m" by (simp add: bit_iff_odd)
  then show ?thesis by (simp only: bit_of_nat_iff) simp
qed

text \<open>The facts on a raw pointer that the slots depend on.\<close>

definition raw_tagged :: "tag_layout \<Rightarrow> nat \<Rightarrow> u64 \<Rightarrow> bool" where
  "raw_tagged L tag p \<longleftrightarrow> p AND TAG_MASK L = TAG_MASK L \<and>
     get_field (TAG_INDEX_SHIFT L) 3 p = of_nat (if tag \<le> 6 then tag else 7) \<and>
     (8 \<le> tag \<longrightarrow> get_field (TAG_EXT_INDEX_SHIFT L) 8 p = of_nat (tag - 8))"

lemma raw_tagged_make:
  assumes "tag_codec L s" "valid_tag tag"
  shows "\<exists>p. makeTaggedPointer L s tag v = encodeTaggedPointer L s p \<and> raw_tagged L tag p"
proof -
  note c = tag_codec.make_eq [OF assms] tag_codec.raw_index [OF assms] tag_codec.tag_words(3) [OF assms(1), of tag]
  have f: "tag_fields L" using assms(1) by (simp add: tag_codec_def)
  let ?p = "if tag \<le> 6 then basic_raw L (of_nat tag) v else ext_raw L (of_nat (tag - 8)) v"
  have "?p AND TAG_MASK L = TAG_MASK L"
    using tag_fields.basic_tagged [OF f] tag_fields.ext_tagged [OF f] tag_fields.ext_mask [OF f] by auto
  moreover have "8 \<le> tag \<Longrightarrow> get_field (TAG_EXT_INDEX_SHIFT L) 8 ?p = of_nat (tag - 8)"
    using c(3) tag_fields.ext_ext_index [OF f] assms(2) by (auto simp: valid_tag_def simp del: of_nat_diff)
  ultimately have "raw_tagged L tag ?p" using c(2) [of v] unfolding raw_tagged_def by (auto simp del: of_nat_diff)
  then show ?thesis using c(1) [of v] by blast
qed

lemma basic_slot_agrees:
  assumes "L = split_tags \<or> L = msb_tags \<or> L = lsb_tags" "tag_state_ok L s" "raw_tagged L tag p"
  shows "pointer_slot L (encodeTaggedPointer L s p) = classSlotForBasicTagIndex L s (if tag \<le> 6 then tag else 7)"
  using assms(1)
proof (elim disjE)
  assume L: "L = split_tags"
  then have ok: "tag_state_ok split_tags s" and idx: "get_field 0 3 p = of_nat (if tag \<le> 6 then tag else 7)"
    using assms(2,3) by (simp_all add: raw_tagged_def)
  have "perm_ok (tag60_permutations s)" using ok by (simp add: tag_state_ok_def)
  note t = permuted_tag [OF this, of "get_field 0 3 p"]
  have t3: "take_bit 3 (get_field 0 3 p) = get_field 0 3 p" by (simp add: get_field_def)
  have "get_field 0 3 (encodeTaggedPointer split_tags s p) = basicTagToObfuscatedTag s (get_field 0 3 p)"
    using t [OF t3] get_put_same [of 0 3 "basicTagToObfuscatedTag s (get_field 0 3 p)" "obfuscator s XOR p"]
    by (auto simp: split_encode(1) [OF ok])
  then show ?thesis unfolding L pointer_slot_def slot_masks drop_and_mask classSlotForBasicTagIndex_def by (simp add: idx)
next
  assume L: "L = msb_tags"
  have "\<not> bit (obfuscator s) 63" "bit p 63" "get_field 60 3 p = of_nat (if tag \<le> 6 then tag else 7)"
    using assms(2,3) and_bit_zero [of "obfuscator s" 63]
    unfolding L raw_tagged_def tag_state_ok_def msb_simps and_bit_mask by (simp_all del: push_bit_of_1)
  then show ?thesis using msb_slot [of "obfuscator s" p]
    unfolding L pointer_slot_def slot_masks drop_and_mask plain_encode(1) [OF msb_simps(1)] classSlotForBasicTagIndex_def
    by (simp add: slot_masks get_field_def)
next
  assume L: "L = lsb_tags"
  have "\<not> bit (obfuscator s) 0" "bit p 0" "get_field 1 3 p = of_nat (if tag \<le> 6 then tag else 7)"
    using assms(2,3) and_bit_zero [of "obfuscator s" 0]
    unfolding L raw_tagged_def tag_state_ok_def lsb_simps and_bit_mask by (simp_all del: push_bit_of_1)
  then have "get_field 0 4 (obfuscator s XOR p) =
      push_bit 1 (of_nat (if tag \<le> 6 then tag else 7) XOR take_bit 3 (drop_bit 1 (obfuscator s))) OR 1"
    using lsb_slot [of "obfuscator s" p] by (simp only: get_field_def simp_thms)
  then show ?thesis
    unfolding L pointer_slot_def slot_masks drop_and_mask plain_encode(1) [OF lsb_simps(1)] classSlotForBasicTagIndex_def
      Let_def and_7 lsb_simps by (simp only: if_False lsb_simps slot_masks)
qed

lemma ext_slot_agrees:
  assumes "L = split_tags \<or> L = msb_tags \<or> L = lsb_tags" "tag_state_ok L s" "raw_tagged L tag p" "8 \<le> tag" "tag \<le> 263"
  shows "classSlotForTagIndex L s tag = Some (pointer_ext_slot L (encodeTaggedPointer L s p))"
proof -
  have slot: "pointer_ext_slot L w = ExtSlot (unat (get_field (TAG_EXT_INDEX_SHIFT L) 8 w))" for w
    using assms(1) unfolding pointer_ext_slot_def and_255 get_field_def by (auto simp: slot_masks)
  have e: "get_field (TAG_EXT_INDEX_SHIFT L) 8 p = of_nat (tag - 8)" and idx: "get_field (TAG_INDEX_SHIFT L) 3 p = 7"
    using assms(3,4) by (simp_all add: raw_tagged_def del: of_nat_diff)
  have un: "unat (of_nat (tag - 8) :: u64) = tag - 8" using assms(5) by (intro unat_of_nat_u64) simp
  have entry: "classSlotForTagIndex L s tag = Some (if SPLIT_TAGGED_POINTERS L \<and> 136 \<le> tag then ExtSlot (tag - 8)
      else ExtSlot (unat (of_nat (tag - 8) XOR get_field (TAG_EXT_INDEX_SHIFT L) 8 (obfuscator s))))"
    using assms(4,5) by (simp add: classSlotForTagIndex_def OBJC_TAG_Last60BitPayload_def OBJC_TAG_First52BitPayload_def
        OBJC_TAG_Last52BitPayload_def OBJC_TAG_FirstUnobfuscatedSplitTag_def Let_def get_field_def del: of_nat_diff)
  show ?thesis
  proof (cases "SPLIT_TAGGED_POINTERS L")
    case True
    then have L: "L = split_tags" using assms(1) by auto
    have "bit p 63" using assms(3) unfolding L raw_tagged_def split_simps and_bit_mask by simp
    moreover have "bit p 62 \<longleftrightarrow> 136 \<le> tag"
    proof -
      have "bit p 62 \<longleftrightarrow> bit (get_field 55 8 p) 7" by (simp add: bit_get_field)
      then show ?thesis using e bit_7_less_256 [of "tag - 8"] assms(4,5) by (auto simp: L simp del: of_nat_diff)
    qed
    moreover have "get_field 55 8 (put_field 0 3 t w) = get_field 55 8 w" for t w :: u64 by (rule get_put_other) simp
    ultimately show ?thesis using e idx un split_encode(1) [OF assms(2) [unfolded L], of p]
      unfolding slot entry by (auto simp: L get_field_xor xor.commute simp del: of_nat_diff)
  next
    case False
    then show ?thesis unfolding slot entry plain_encode(1) [OF False] get_field_xor e by (simp add: xor.commute)
  qed
qed

lemma write_slot_frame [simp]:
  "obfuscator (write_slot x c s) = obfuscator s" "tag60_permutations (write_slot x c s) = tag60_permutations s"
  "taggedpointer_mask (write_slot x c s) = taggedpointer_mask s"
  "length (tag_classes (write_slot x c s)) = length (tag_classes s)"
  "length (tag_ext_classes (write_slot x c s)) = length (tag_ext_classes s)"
  "read_slot (write_slot (BasicSlot i) c s) (ExtSlot j) = read_slot s (ExtSlot j)"
  "read_slot (write_slot (ExtSlot i) c s) (BasicSlot j) = read_slot s (BasicSlot j)"
  "i < length (tag_classes s) \<Longrightarrow> read_slot (write_slot (BasicSlot i) c s) (BasicSlot i) = c"
  "i < length (tag_ext_classes s) \<Longrightarrow> read_slot (write_slot (ExtSlot i) c s) (ExtSlot i) = c"
  by (cases x; simp)+

declare write_slot.simps [simp del] read_slot.simps [simp del]

lemma slot_frame [simp]:
  "classSlotForBasicTagIndex L (write_slot x c s) = classSlotForBasicTagIndex L s"
  "makeTaggedPointer L (write_slot x c s) = makeTaggedPointer L s"
  by (simp_all add: fun_eq_iff classSlotForBasicTagIndex_def makeTaggedPointer_def encodeTaggedPointer_def
      basicTagToObfuscatedTag_def Let_def)

lemma pointer_slot_in_table:
  assumes "tag_state_ok L s"
  shows "\<exists>i<length (tag_classes s). pointer_slot L ptr = BasicSlot i"
    "\<exists>i<length (tag_ext_classes s). pointer_ext_slot L ptr = ExtSlot i"
proof -
  have "unat (drop_bit (TAG_SLOT_SHIFT L) ptr AND TAG_SLOT_MASK L) \<le> unat (TAG_SLOT_MASK L)"
    using word_and_le1 by (simp add: word_le_nat_alt [symmetric])
  then show "\<exists>i<length (tag_classes s). pointer_slot L ptr = BasicSlot i"
    using assms by (auto simp: pointer_slot_def tag_state_ok_def)
  have "unat (take_bit 8 (drop_bit (TAG_EXT_SLOT_SHIFT L) ptr)) < 2 ^ 8"
    by (simp only: unsigned_take_bit_eq take_bit_nat_less_exp)
  then show "\<exists>i<length (tag_ext_classes s). pointer_ext_slot L ptr = ExtSlot i"
    using assms by (auto simp: pointer_ext_slot_def tag_state_ok_def)
qed

lemma getIsa_registered:
  assumes "L = split_tags \<or> L = msb_tags \<or> L = lsb_tags" "tag_state_ok L s" "valid_tag tag"
    "registerTaggedPointerClass L u tag cls s = Inr s'" "u \<noteq> nil" "cls \<noteq> u"
    "read_slot s (classSlotForBasicTagIndex L s OBJC_TAG_RESERVED_7) \<in> {nil, u}"
  shows "getIsa L s' u c (makeTaggedPointer L s' tag v) = cls"
proof -
  have codec: "tag_codec L s" using assms(1,2) by (rule tag_codecI)
  obtain p where p: "makeTaggedPointer L s tag v = encodeTaggedPointer L s p" "raw_tagged L tag p"
    using raw_tagged_make [OF codec assms(3)] by blast
  let ?ptr = "encodeTaggedPointer L s p"
  note basic = basic_slot_agrees [OF assms(1,2) p(2)] and ext = ext_slot_agrees [OF assms(1,2) p(2)]
  have tagged: "is_tagged L ?ptr" using tag_codec.make_tagged(1) [OF codec assms(3), of v] p(1) by simp
  obtain i j where ij: "pointer_slot L ?ptr = BasicSlot i" "i < length (tag_classes s)"
    "pointer_ext_slot L ?ptr = ExtSlot j" "j < length (tag_ext_classes s)"
    using pointer_slot_in_table [OF assms(2)] by blast
  show ?thesis
  proof (cases "tag \<le> 6")
    case True
    then have "s' = write_slot (BasicSlot i) cls s"
      using assms(4) basic ij(1) by (auto simp: registerTaggedPointerClass_def classSlotForTagIndex_def
          OBJC_TAG_Last60BitPayload_def Let_def split: if_splits)
    then show ?thesis using p(1) ij tagged assms(6) by (simp add: getIsa_slots)
  next
    case False
    then have tag: "8 \<le> tag" "tag \<le> 263" using assms(3) by (auto simp: valid_tag_def)
    have "s' = (let s1 = write_slot (ExtSlot j) cls s in
        if read_slot s1 (BasicSlot i) = nil then write_slot (BasicSlot i) u s1 else s1)"
      using assms(4) ext [OF tag] basic ij(1,3) False by (auto simp: registerTaggedPointerClass_def
          OBJC_TAG_Last60BitPayload_def OBJC_TAG_RESERVED_7_def Let_def split: if_splits)
    moreover have "read_slot s (BasicSlot i) = nil \<or> read_slot s (BasicSlot i) = u"
      using assms(7) basic ij(1) False by (simp add: OBJC_TAG_RESERVED_7_def)
    ultimately show ?thesis using p(1) ij tagged assms(5)
      by (auto simp: getIsa_slots Let_def)
  qed
qed

text \<open>A state with an obfuscator and a permutation that are not trivial.\<close>

definition permuted_tags :: tag_state where
  "permuted_tags = (boot_tags split_tags)\<lparr>obfuscator := 0xff0, tag60_permutations := [3, 1, 0, 2, 6, 5, 4, 7]\<rparr>"

lemma permuted_tags_ok: "tag_state_ok split_tags permuted_tags"
  by (simp add: permuted_tags_def tag_state_ok_def boot_tags_def perm_ok_def split_tags_def TAG_NO_OBFUSCATION_MASK_def)

end
