(* ===== verification/Isa.thy ===== *)
theory Isa
  imports Bitfields
begin

text \<open>
  The isa word: the packed layouts of \<^verbatim>\<open>isa.h\<close> and the union \<open>isa_t\<close> of
  \<^verbatim>\<open>objc-private.h\<close> with its accessors in \<^verbatim>\<open>objc-object.h\<close>.  The layouts
  of the three 64-bit targets are values of one record; what the reference
  counting relies on is the locale \<open>packed_isa\<close>, interpreted for each of them.
\<close>

section \<open>Layouts\<close>

record isa_layout =
  ISA_MASK :: u64
  ISA_MAGIC_MASK :: u64
  ISA_MAGIC_VALUE :: u64
  has_cxx_dtor_bit :: "nat option"
  shiftcls_width :: nat
  weakly_referenced_bit :: nat
  has_sidetable_rc_bit :: nat
  extra_rc_shift :: nat
  extra_rc_width :: nat
  RC_ONE :: u64
  RC_HALF :: nat

text \<open>arm64e, and arm64 simulators.\<close>

definition arm64e_layout :: isa_layout where
  "arm64e_layout = \<lparr>
     ISA_MASK = 0x007ffffffffffff8,
     ISA_MAGIC_MASK = 0x0000000000000001,
     ISA_MAGIC_VALUE = 0x0000000000000001,
     has_cxx_dtor_bit = None,
     shiftcls_width = 52,
     weakly_referenced_bit = 2,
     has_sidetable_rc_bit = 55,
     extra_rc_shift = 56,
     extra_rc_width = 8,
     RC_ONE = push_bit 56 1,
     RC_HALF = 2 ^ 7\<rparr>"

definition arm64_layout :: isa_layout where
  "arm64_layout = \<lparr>
     ISA_MASK = 0x0000000ffffffff8,
     ISA_MAGIC_MASK = 0x000003f000000001,
     ISA_MAGIC_VALUE = 0x000001a000000001,
     has_cxx_dtor_bit = Some 2,
     shiftcls_width = 33,
     weakly_referenced_bit = 42,
     has_sidetable_rc_bit = 44,
     extra_rc_shift = 45,
     extra_rc_width = 19,
     RC_ONE = push_bit 45 1,
     RC_HALF = 2 ^ 18\<rparr>"

definition x86_64_layout :: isa_layout where
  "x86_64_layout = \<lparr>
     ISA_MASK = 0x00007ffffffffff8,
     ISA_MAGIC_MASK = 0x001f800000000001,
     ISA_MAGIC_VALUE = 0x001d800000000001,
     has_cxx_dtor_bit = Some 2,
     shiftcls_width = 44,
     weakly_referenced_bit = 53,
     has_sidetable_rc_bit = 55,
     extra_rc_shift = 56,
     extra_rc_width = 8,
     RC_ONE = push_bit 56 1,
     RC_HALF = 2 ^ 7\<rparr>"

section \<open>The union \<open>isa_t\<close>\<close>

definition isa_nonpointer :: "u64 \<Rightarrow> bool" where
  "isa_nonpointer w = bit w 0"

definition isa_has_assoc :: "u64 \<Rightarrow> bool" where
  "isa_has_assoc w = bit w 1"

definition set_has_assoc :: "bool \<Rightarrow> u64 \<Rightarrow> u64" where
  "set_has_assoc b w = put_flag 1 b w"

definition isa_weakly_referenced :: "isa_layout \<Rightarrow> u64 \<Rightarrow> bool" where
  "isa_weakly_referenced L w = bit w (weakly_referenced_bit L)"

definition set_weakly_referenced :: "isa_layout \<Rightarrow> bool \<Rightarrow> u64 \<Rightarrow> u64" where
  "set_weakly_referenced L b w = put_flag (weakly_referenced_bit L) b w"

definition isa_has_sidetable_rc :: "isa_layout \<Rightarrow> u64 \<Rightarrow> bool" where
  "isa_has_sidetable_rc L w = bit w (has_sidetable_rc_bit L)"

definition set_has_sidetable_rc :: "isa_layout \<Rightarrow> bool \<Rightarrow> u64 \<Rightarrow> u64" where
  "set_has_sidetable_rc L b w = put_flag (has_sidetable_rc_bit L) b w"

definition isa_has_cxx_dtor :: "isa_layout \<Rightarrow> u64 \<Rightarrow> bool" where
  "isa_has_cxx_dtor L w = (case has_cxx_dtor_bit L of None \<Rightarrow> False | Some i \<Rightarrow> bit w i)"

definition set_has_cxx_dtor :: "isa_layout \<Rightarrow> bool \<Rightarrow> u64 \<Rightarrow> u64" where
  "set_has_cxx_dtor L b w = (case has_cxx_dtor_bit L of None \<Rightarrow> w | Some i \<Rightarrow> put_flag i b w)"

definition isa_extra_rc :: "isa_layout \<Rightarrow> u64 \<Rightarrow> nat" where
  "isa_extra_rc L w = unat (get_field (extra_rc_shift L) (extra_rc_width L) w)"

definition set_extra_rc :: "isa_layout \<Rightarrow> nat \<Rightarrow> u64 \<Rightarrow> u64" where
  "set_extra_rc L n w = put_field (extra_rc_shift L) (extra_rc_width L) (of_nat n) w"

definition isDeallocating :: "isa_layout \<Rightarrow> u64 \<Rightarrow> bool" where
  "isDeallocating L w \<longleftrightarrow> isa_extra_rc L w = 0 \<and> \<not> isa_has_sidetable_rc L w"

definition setDeallocating :: "isa_layout \<Rightarrow> u64 \<Rightarrow> u64" where
  "setDeallocating L w = set_has_sidetable_rc L False (set_extra_rc L 0 w)"

text \<open>\<open>sign\<close> is the signing of a class pointer for the object at \<open>obj\<close>; on the
  targets without pointer authentication it is the identity on the pointer.\<close>

definition setClass :: "isa_layout \<Rightarrow> (u64 \<Rightarrow> u64 \<Rightarrow> u64) \<Rightarrow> u64 \<Rightarrow> u64 \<Rightarrow> u64 \<Rightarrow> u64" where
  "setClass L sign newCls obj w = put_field 3 (shiftcls_width L) (drop_bit 3 (sign newCls obj)) w"

definition getClass :: "isa_layout \<Rightarrow> u64 \<Rightarrow> u64" where
  "getClass L w = w AND ISA_MASK L"

text \<open>With pointer authentication: the authenticated read, and the read that
  only strips with the precomputed class mask.\<close>

definition getClass_ptrauth ::
  "isa_layout \<Rightarrow> (u64 \<Rightarrow> u64 \<Rightarrow> u64) \<Rightarrow> u64 \<Rightarrow> bool \<Rightarrow> u64 \<Rightarrow> u64 \<Rightarrow> u64" where
  "getClass_ptrauth L auth objc_debug_isa_class_mask authenticated this w =
     (if authenticated then
        let clsbits = w AND ISA_MASK L
        in if clsbits = 0 then nil else auth clsbits this
      else w AND objc_debug_isa_class_mask)"

text \<open>The class pointers that the layout's class field can hold.\<close>

definition class_fits :: "isa_layout \<Rightarrow> u64 \<Rightarrow> bool" where
  "class_fits L c \<longleftrightarrow> c AND NOT (ISA_MASK L) = 0"

section \<open>What reference counting relies on\<close>

locale packed_isa =
  fixes L :: isa_layout
  assumes rc_top: "extra_rc_shift L + extra_rc_width L = 64"
    and rc_wide: "2 \<le> extra_rc_width L"
    and rc_one: "RC_ONE L = push_bit (extra_rc_shift L) 1"
    and rc_half: "RC_HALF L = 2 ^ (extra_rc_width L - 1)"
    and side_below: "has_sidetable_rc_bit L < extra_rc_shift L"
    and weak_below: "weakly_referenced_bit L < has_sidetable_rc_bit L"
    and weak_above: "1 < weakly_referenced_bit L"
    and cls_mask: "ISA_MASK L = push_bit 3 (mask (shiftcls_width L))"
    and cls_below: "3 + shiftcls_width L \<le> has_sidetable_rc_bit L"
    and weak_not_cls: "weakly_referenced_bit L < 3 \<or> 3 + shiftcls_width L \<le> weakly_referenced_bit L"
    and cxx: "has_cxx_dtor_bit L = None \<or> has_cxx_dtor_bit L = Some 2 \<and> 3 \<le> weakly_referenced_bit L"
    and magic: "bit (ISA_MAGIC_VALUE L) 0" "\<not> bit (ISA_MAGIC_VALUE L) 1"
      "\<not> bit (ISA_MAGIC_VALUE L) (weakly_referenced_bit L)"
      "\<not> bit (ISA_MAGIC_VALUE L) (has_sidetable_rc_bit L)"
begin

abbreviation (input) sh where "sh \<equiv> extra_rc_shift L"
abbreviation (input) wd where "wd \<equiv> extra_rc_width L"

lemma rc_len: "sh + wd = LENGTH(64)"
  using rc_top by simp

lemma extra_rc_less: "isa_extra_rc L w < 2 ^ wd"
  unfolding isa_extra_rc_def by (rule top_field_unat(2) [OF rc_len])

lemma rc_half_bounds: "0 < RC_HALF L" "RC_HALF L * 2 = 2 ^ wd" "RC_HALF L < 2 ^ wd" "2 \<le> RC_HALF L"
proof -
  obtain d where d: "wd = Suc (Suc d)" using rc_wide by (metis Suc_le_D add_2_eq_Suc le_Suc_ex)
  show "0 < RC_HALF L" "RC_HALF L * 2 = 2 ^ wd" "RC_HALF L < 2 ^ wd" "2 \<le> RC_HALF L"
    unfolding rc_half d by simp_all
qed

lemma set_extra_rc_get: "n < 2 ^ wd \<Longrightarrow> isa_extra_rc L (set_extra_rc L n w) = n"
proof -
  assume n: "n < 2 ^ wd"
  have "(2::nat) ^ wd \<le> 2 ^ 64" using rc_top by (intro power_increasing) auto
  then have "unat (of_nat n :: u64) = n" using n by (intro unat_of_nat_u64) linarith
  then show ?thesis using n rc_len
    unfolding isa_extra_rc_def set_extra_rc_def by (subst get_put_same) (auto simp: unat_take_bit_mod)
qed

lemma low_bit_eq:
  assumes "take_bit sh v = take_bit sh w" "i < sh"
  shows "bit v i = bit w i"
  using arg_cong [OF assms(1), of "\<lambda>x. bit x i"] assms(2) by (simp add: bit_take_bit_iff)

lemma set_extra_rc_low: "take_bit sh (set_extra_rc L n w) = take_bit sh w"
  by (rule bit_word_eqI) (auto simp: bit_take_bit_iff set_extra_rc_def bit_put_field dest: bit_imp_le_length)

text \<open>The fields below the count read the same from words that agree there.\<close>

lemma low_fields:
  assumes "take_bit sh v = take_bit sh w"
  shows "isa_nonpointer v = isa_nonpointer w" "isa_has_assoc v = isa_has_assoc w"
    "isa_weakly_referenced L v = isa_weakly_referenced L w"
    "isa_has_sidetable_rc L v = isa_has_sidetable_rc L w"
    "isa_has_cxx_dtor L v = isa_has_cxx_dtor L w" "getClass L v = getClass L w"
proof -
  note b = low_bit_eq [OF assms]
  have lt: "0 < sh" "1 < sh" "weakly_referenced_bit L < sh" "3 + shiftcls_width L < sh"
    using side_below weak_below weak_above cls_below by auto
  show "isa_nonpointer v = isa_nonpointer w" unfolding isa_nonpointer_def using b lt by blast
  show "isa_has_assoc v = isa_has_assoc w" unfolding isa_has_assoc_def using b lt by blast
  show "isa_weakly_referenced L v = isa_weakly_referenced L w"
    unfolding isa_weakly_referenced_def using b lt by blast
  show "isa_has_sidetable_rc L v = isa_has_sidetable_rc L w"
    unfolding isa_has_sidetable_rc_def using b side_below by blast
  show "isa_has_cxx_dtor L v = isa_has_cxx_dtor L w"
    unfolding isa_has_cxx_dtor_def using cxx b [of 2] lt by (auto split: option.splits)
  show "getClass L v = getClass L w"
    unfolding getClass_def cls_mask using b lt
    by (intro bit_word_eqI) (auto simp: bit_and_iff bit_push_bit_iff bit_mask_iff)
qed

lemma addc_one:
  assumes "addc w (RC_ONE L) 0 = (v, carry)"
  shows "carry \<longleftrightarrow> isa_extra_rc L w + 1 = 2 ^ wd"
    and "\<not> carry \<Longrightarrow> isa_extra_rc L v = isa_extra_rc L w + 1"
    and "\<not> carry \<Longrightarrow> take_bit sh v = take_bit sh w"
proof -
  have pos: "0 < wd" "(1::nat) < 2 ^ wd" using rc_wide rc_half_bounds(3,4) by linarith+
  have a: "addc w (push_bit sh (of_nat 1)) 0 = (v, carry)" using assms unfolding rc_one by simp
  note t = top_field_addc [OF rc_top pos(1) a pos(2), folded isa_extra_rc_def]
  show "carry \<longleftrightarrow> isa_extra_rc L w + 1 = 2 ^ wd" using t(1) extra_rc_less [of w] by auto
  show "\<not> carry \<Longrightarrow> isa_extra_rc L v = isa_extra_rc L w + 1" "\<not> carry \<Longrightarrow> take_bit sh v = take_bit sh w"
    using t(2,3) by auto
qed

lemma addc_one_low:
  assumes "addc w (RC_ONE L) 0 = (v, carry)"
  shows "take_bit sh v = take_bit sh w"
proof -
  have v: "v = w + push_bit sh 1" using assms by (simp add: addc_def rc_one)
  have sh: "sh < 64" using rc_top rc_wide by simp
  then have one: "unat (push_bit sh 1 :: u64) = 2 ^ sh"
    using unsigned_of_nat [of "2 ^ sh", where 'b = 64 and 'a = nat] by (simp add: take_bit_nat_eq_self)
  have dvd: "(2::nat) ^ sh dvd 2 ^ 64" using sh by (intro le_imp_power_dvd) simp
  have "unat v mod 2 ^ sh = (unat w + 2 ^ sh) mod 2 ^ 64 mod 2 ^ sh"
    unfolding v unat_word_ariths one by simp
  also have "\<dots> = unat w mod 2 ^ sh" using mod_mod_cancel [OF dvd] by simp
  finally show ?thesis by (intro word_unat_eq_iff [THEN iffD2]) (simp add: unat_take_bit_mod)
qed

text \<open>Several counts added at once.\<close>

lemma addc_many:
  assumes "addc w (RC_ONE L * of_nat n) 0 = (v, carry)" "n < 2 ^ wd"
  shows "carry \<longleftrightarrow> 2 ^ wd \<le> isa_extra_rc L w + n"
    and "\<not> carry \<Longrightarrow> isa_extra_rc L v = isa_extra_rc L w + n"
    and "\<not> carry \<Longrightarrow> take_bit sh v = take_bit sh w"
proof -
  have pos: "0 < wd" using rc_wide by simp
  have a: "addc w (push_bit sh (of_nat n)) 0 = (v, carry)"
    using assms(1) unfolding rc_one by (simp add: push_bit_eq_mult mult.commute)
  note t = top_field_addc [OF rc_top pos a assms(2), folded isa_extra_rc_def]
  show "carry \<longleftrightarrow> 2 ^ wd \<le> isa_extra_rc L w + n" "\<not> carry \<Longrightarrow> isa_extra_rc L v = isa_extra_rc L w + n"
    "\<not> carry \<Longrightarrow> take_bit sh v = take_bit sh w" using t by auto
qed

lemma subc_one:
  assumes "subc w (RC_ONE L) 0 = (v, carry)"
  shows "carry \<longleftrightarrow> isa_extra_rc L w = 0"
    and "\<not> carry \<Longrightarrow> isa_extra_rc L w = isa_extra_rc L v + 1"
    and "\<not> carry \<Longrightarrow> take_bit sh v = take_bit sh w"
proof -
  have pos: "0 < wd" using rc_wide by simp
  have a: "subc w (push_bit sh 1) 0 = (v, carry)" using assms unfolding rc_one by simp
  from top_field_subc [OF rc_top pos a, folded isa_extra_rc_def]
  show "carry \<longleftrightarrow> isa_extra_rc L w = 0" "\<not> carry \<Longrightarrow> isa_extra_rc L w = isa_extra_rc L v + 1"
    "\<not> carry \<Longrightarrow> take_bit sh v = take_bit sh w" by auto
qed

lemma set_side_get [simp]: "isa_has_sidetable_rc L (set_has_sidetable_rc L b w) = b"
  using side_below rc_top by (simp add: isa_has_sidetable_rc_def set_has_sidetable_rc_def bit_put_flag)

lemma set_side_rc [simp]: "isa_extra_rc L (set_has_sidetable_rc L b w) = isa_extra_rc L w"
  unfolding isa_extra_rc_def set_has_sidetable_rc_def using side_below by (subst get_put_flag_other) auto

lemma set_side_nonpointer [simp]: "isa_nonpointer (set_has_sidetable_rc L b w) = isa_nonpointer w"
  using cls_below by (auto simp: isa_nonpointer_def set_has_sidetable_rc_def bit_put_flag)

lemma set_rc_fields [simp]:
  "isa_nonpointer (set_extra_rc L n w) = isa_nonpointer w"
  "isa_has_sidetable_rc L (set_extra_rc L n w) = isa_has_sidetable_rc L w"
  "isa_weakly_referenced L (set_extra_rc L n w) = isa_weakly_referenced L w"
  "isa_has_assoc (set_extra_rc L n w) = isa_has_assoc w"
  "getClass L (set_extra_rc L n w) = getClass L w"
  using low_fields [OF set_extra_rc_low [of n w]] by auto

lemma set_side_fields [simp]:
  "isa_weakly_referenced L (set_has_sidetable_rc L b w) = isa_weakly_referenced L w"
  "isa_has_assoc (set_has_sidetable_rc L b w) = isa_has_assoc w"
  "getClass L (set_has_sidetable_rc L b w) = getClass L w"
proof -
  show "isa_weakly_referenced L (set_has_sidetable_rc L b w) = isa_weakly_referenced L w"
    using weak_below side_below rc_top
    by (auto simp: isa_weakly_referenced_def set_has_sidetable_rc_def bit_put_flag)
  show "isa_has_assoc (set_has_sidetable_rc L b w) = isa_has_assoc w"
    using cls_below by (auto simp: isa_has_assoc_def set_has_sidetable_rc_def bit_put_flag)
  show "getClass L (set_has_sidetable_rc L b w) = getClass L w"
    unfolding getClass_def cls_mask set_has_sidetable_rc_def using cls_below
    by (intro bit_word_eqI) (auto simp: bit_and_iff bit_put_flag bit_push_bit_iff bit_mask_iff)
qed

lemma setDeallocating_get: "isDeallocating L (setDeallocating L w)"
  by (simp add: isDeallocating_def setDeallocating_def set_extra_rc_get)

text \<open>A class pointer that the field can hold comes back from the isa.\<close>

lemma getClass_setClass:
  assumes "class_fits L c" "sign c obj = c"
  shows "getClass L (setClass L sign c obj w) = c"
proof (rule bit_word_eqI)
  fix i :: nat assume i: "i < LENGTH(64)"
  have "bit c i \<Longrightarrow> 3 \<le> i \<and> i < 3 + shiftcls_width L"
    using arg_cong [OF assms(1) [unfolded class_fits_def], of "\<lambda>x. bit x i"] i
    by (auto simp: bit_and_iff bit_not_iff cls_mask bit_push_bit_iff bit_mask_iff)
  then show "bit (getClass L (setClass L sign c obj w)) i \<longleftrightarrow> bit c i"
    using i by (auto simp: getClass_def setClass_def assms(2) bit_and_iff cls_mask bit_push_bit_iff
        bit_mask_iff bit_put_field bit_drop_bit_eq)
qed

lemma setClass_fields [simp]:
  "isa_nonpointer (setClass L sign c obj w) = isa_nonpointer w"
  "isa_has_assoc (setClass L sign c obj w) = isa_has_assoc w"
  "isa_extra_rc L (setClass L sign c obj w) = isa_extra_rc L w"
  "isa_has_sidetable_rc L (setClass L sign c obj w) = isa_has_sidetable_rc L w"
  "isa_weakly_referenced L (setClass L sign c obj w) = isa_weakly_referenced L w"
proof -
  show "isa_nonpointer (setClass L sign c obj w) = isa_nonpointer w"
    "isa_has_assoc (setClass L sign c obj w) = isa_has_assoc w"
    by (simp_all add: isa_nonpointer_def isa_has_assoc_def setClass_def bit_put_field)
  show "isa_extra_rc L (setClass L sign c obj w) = isa_extra_rc L w"
    unfolding isa_extra_rc_def setClass_def using cls_below side_below by (subst get_put_other) auto
  show "isa_has_sidetable_rc L (setClass L sign c obj w) = isa_has_sidetable_rc L w"
    using cls_below side_below rc_top by (auto simp: isa_has_sidetable_rc_def setClass_def bit_put_field)
  show "isa_weakly_referenced L (setClass L sign c obj w) = isa_weakly_referenced L w"
    using weak_not_cls weak_below side_below rc_top
    by (auto simp: isa_weakly_referenced_def setClass_def bit_put_field)
qed

end

interpretation arm64e: packed_isa arm64e_layout
  by unfold_locales (simp_all add: arm64e_layout_def, code_simp+)

interpretation arm64: packed_isa arm64_layout
  by unfold_locales (simp_all add: arm64_layout_def, code_simp+)

interpretation x86_64: packed_isa x86_64_layout
  by unfold_locales (simp_all add: x86_64_layout_def, code_simp+)

end
