(* ===== verification/SideTable.thy ===== *)
theory SideTable
  imports DenseMap_Iterate Isa
begin

text \<open>
  The side table of an object (\<open>SideTable\<close> and the \<open>sidetable_*\<close> functions of
  \<^verbatim>\<open>NSObject.mm\<close>): a spin lock and a \<open>RefcountMap\<close>, a \<open>DenseMap\<close> from disguised
  object pointers to a word that holds the overflowed retain count above two
  flag bits.  The lock is seen from one thread: taking it twice and releasing
  it without holding it stop the process, as \<open>os_unfair_lock\<close> does.
\<close>

section \<open>The table\<close>

definition SIDE_TABLE_WEAKLY_REFERENCED :: u64 where
  "SIDE_TABLE_WEAKLY_REFERENCED = push_bit 0 1"

definition SIDE_TABLE_DEALLOCATING :: u64 where
  "SIDE_TABLE_DEALLOCATING = push_bit 1 1"

definition SIDE_TABLE_RC_ONE :: u64 where
  "SIDE_TABLE_RC_ONE = push_bit 2 1"

definition SIDE_TABLE_RC_PINNED :: u64 where
  "SIDE_TABLE_RC_PINNED = push_bit 63 1"

definition SIDE_TABLE_RC_SHIFT :: nat where
  "SIDE_TABLE_RC_SHIFT = 2"

definition SIDE_TABLE_FLAG_MASK :: u64 where
  "SIDE_TABLE_FLAG_MASK = SIDE_TABLE_RC_ONE - 1"

type_synonym refcount_map = "(u64, u64) dense_map"

text \<open>\<open>RefcountMap\<close>: disguised keys, a zero count is purgeable.  \<open>junk\<close> is what
  freshly allocated buckets hold.\<close>

definition RefcountMapValuePurgeable_isPurgeable :: "u64 \<Rightarrow> bool" where
  "RefcountMapValuePurgeable_isPurgeable x \<longleftrightarrow> x = 0"

definition RefcountMap :: "u64 \<times> u64 \<Rightarrow> (u64, u64) dm_params" where
  "RefcountMap junk = \<lparr>KeyInfo = disguised_info,
     isPurgeable = RefcountMapValuePurgeable_isPurgeable, ValueT = 0, uninit = junk,
     is_trivially_copyable = True\<rparr>"

record side_table =
  slock :: bool
  refcnts :: refcount_map

definition sidetable_lock :: "side_table \<Rightarrow> fault + side_table" where
  "sidetable_lock t = (if slock t then Inl UnfairLockRecursion else Inr (t\<lparr>slock := True\<rparr>))"

definition sidetable_unlock :: "side_table \<Rightarrow> fault + side_table" where
  "sidetable_unlock t = (if \<not> slock t then Inl UnfairLockNotOwner else Inr (t\<lparr>slock := False\<rparr>))"

text \<open>\<open>size_t\& refcntStorage = table.refcnts[this]\<close>: the continuation gets the
  word and returns the word it leaves there.\<close>

definition refcnt_ref ::
  "u64 \<times> u64 \<Rightarrow> u64 \<Rightarrow> side_table \<Rightarrow> (u64 \<Rightarrow> fault + (u64 \<times> 'r)) \<Rightarrow> fault + (side_table \<times> 'r)" where
  "refcnt_ref junk this t f =
     bindE (FindAndConstruct (RefcountMap junk) (disguise this) (refcnts t)) (\<lambda>(m, i).
     bindE (f (snd (Buckets m ! i))) (\<lambda>(v, r).
     Inr (t\<lparr>refcnts := set_second i v m\<rparr>, r)))"

text \<open>\<open>table.refcnts.find(this)\<close>: the word, or \<open>None\<close> for \<open>end()\<close>.\<close>

definition refcnt_find :: "u64 \<times> u64 \<Rightarrow> u64 \<Rightarrow> side_table \<Rightarrow> fault + (nat \<times> u64) option" where
  "refcnt_find junk this t =
     bindE (dm_find (RefcountMap junk) (disguise this) (refcnts t)) (\<lambda>i.
     Inr (if i = dm_end (refcnts t) then None else Some (i, snd (Buckets (refcnts t) ! i))))"

section \<open>Extra counts of a nonpointer isa\<close>

definition sidetable_moveExtraRC_nolock ::
  "u64 \<times> u64 \<Rightarrow> u64 \<Rightarrow> u64 \<Rightarrow> u64 \<Rightarrow> bool \<Rightarrow> bool \<Rightarrow> side_table \<Rightarrow> fault + side_table" where
  "sidetable_moveExtraRC_nolock junk this isa extra_rc isDealloc weaklyReferenced t =
     (if isa_nonpointer isa then Inl AssertFailed
      else bindE (refcnt_ref junk this t (\<lambda>oldRefcnt.
        if oldRefcnt AND SIDE_TABLE_DEALLOCATING \<noteq> 0 then Inl AssertFailed
        else if oldRefcnt AND SIDE_TABLE_WEAKLY_REFERENCED \<noteq> 0 then Inl AssertFailed
        else let (sum, carry) = addc oldRefcnt (push_bit SIDE_TABLE_RC_SHIFT (extra_rc - 1)) 0;
                 refcnt = (if carry then SIDE_TABLE_RC_PINNED else sum);
                 refcnt = (if isDealloc then refcnt OR SIDE_TABLE_DEALLOCATING else refcnt);
                 refcnt = (if weaklyReferenced then refcnt OR SIDE_TABLE_WEAKLY_REFERENCED else refcnt)
             in Inr (refcnt, ()))) (\<lambda>(t', _). Inr t'))"

definition sidetable_addExtraRC_nolock ::
  "u64 \<times> u64 \<Rightarrow> u64 \<Rightarrow> u64 \<Rightarrow> u64 \<Rightarrow> side_table \<Rightarrow> fault + (side_table \<times> bool)" where
  "sidetable_addExtraRC_nolock junk this isa delta_rc t =
     (if \<not> isa_nonpointer isa then Inl AssertFailed
      else refcnt_ref junk this t (\<lambda>oldRefcnt.
        if oldRefcnt AND SIDE_TABLE_DEALLOCATING \<noteq> 0 then Inl AssertFailed
        else if oldRefcnt AND SIDE_TABLE_WEAKLY_REFERENCED \<noteq> 0 then Inl AssertFailed
        else if oldRefcnt AND SIDE_TABLE_RC_PINNED \<noteq> 0 then Inr (oldRefcnt, True)
        else let (newRefcnt, carry) = addc oldRefcnt (push_bit SIDE_TABLE_RC_SHIFT delta_rc) 0
             in if carry then Inr (SIDE_TABLE_RC_PINNED OR (oldRefcnt AND SIDE_TABLE_FLAG_MASK), True)
                else Inr (newRefcnt, False)))"

text \<open>\<open>SidetableBorrow\<close>: the count borrowed and the count left behind.\<close>

definition sidetable_subExtraRC_nolock ::
  "u64 \<times> u64 \<Rightarrow> u64 \<Rightarrow> u64 \<Rightarrow> u64 \<Rightarrow> side_table \<Rightarrow> fault + (side_table \<times> u64 \<times> u64)" where
  "sidetable_subExtraRC_nolock junk this isa delta_rc t =
     (if \<not> isa_nonpointer isa then Inl AssertFailed
      else bindE (refcnt_find junk this t) (\<lambda>it. case it of
        None \<Rightarrow> Inr (t, 0, 0)
      | Some (i, oldRefcnt) \<Rightarrow>
          if oldRefcnt = 0 then Inr (t, 0, 0)
          else if oldRefcnt AND SIDE_TABLE_DEALLOCATING \<noteq> 0 then Inl AssertFailed
          else if oldRefcnt AND SIDE_TABLE_WEAKLY_REFERENCED \<noteq> 0 then Inl AssertFailed
          else let newRefcnt = oldRefcnt - push_bit SIDE_TABLE_RC_SHIFT delta_rc
               in if \<not> oldRefcnt > newRefcnt then Inl AssertFailed
                  else Inr (t\<lparr>refcnts := set_second i newRefcnt (refcnts t)\<rparr>,
                            delta_rc, drop_bit SIDE_TABLE_RC_SHIFT newRefcnt)))"

definition sidetable_getExtraRC_nolock ::
  "u64 \<times> u64 \<Rightarrow> u64 \<Rightarrow> u64 \<Rightarrow> side_table \<Rightarrow> fault + u64" where
  "sidetable_getExtraRC_nolock junk this isa t =
     (if \<not> isa_nonpointer isa then Inl AssertFailed
      else bindE (refcnt_find junk this t) (\<lambda>it. case it of
        None \<Rightarrow> Inr 0
      | Some (i, v) \<Rightarrow> Inr (drop_bit SIDE_TABLE_RC_SHIFT v)))"

text \<open>Erasing \<open>end()\<close> is a write past the buckets.\<close>

definition sidetable_clearExtraRC_nolock ::
  "u64 \<times> u64 \<Rightarrow> u64 \<Rightarrow> u64 \<Rightarrow> side_table \<Rightarrow> fault + side_table" where
  "sidetable_clearExtraRC_nolock junk this isa t =
     (if \<not> isa_nonpointer isa then Inl AssertFailed
      else bindE (refcnt_find junk this t) (\<lambda>it. case it of
        None \<Rightarrow> Inl NullDereference
      | Some (i, v) \<Rightarrow> bindE (erase_bucket (RefcountMap junk) i (refcnts t)) (\<lambda>m.
          Inr (t\<lparr>refcnts := m\<rparr>))))"

section \<open>The whole count of a raw isa\<close>

definition sidetable_retain ::
  "u64 \<times> u64 \<Rightarrow> u64 \<Rightarrow> u64 \<Rightarrow> bool \<Rightarrow> side_table \<Rightarrow> fault + (side_table \<times> u64)" where
  "sidetable_retain junk this isa locked t =
     (if isa_nonpointer isa then Inl AssertFailed
      else bindE (if \<not> locked then sidetable_lock t else Inr t) (\<lambda>t.
        bindE (refcnt_ref junk this t (\<lambda>refcnt.
          Inr (if refcnt AND SIDE_TABLE_RC_PINNED = 0 then refcnt + SIDE_TABLE_RC_ONE else refcnt, ())))
          (\<lambda>(t, _). bindE (sidetable_unlock t) (\<lambda>t. Inr (t, this)))))"

definition sidetable_tryRetain ::
  "u64 \<times> u64 \<Rightarrow> u64 \<Rightarrow> u64 \<Rightarrow> side_table \<Rightarrow> fault + (side_table \<times> bool)" where
  "sidetable_tryRetain junk this isa t =
     (if isa_nonpointer isa then Inl AssertFailed
      else bindE (try_emplace (RefcountMap junk) (disguise this) SIDE_TABLE_RC_ONE (refcnts t))
        (\<lambda>(m, i, new). let refcnt = snd (Buckets m ! i) in
          if new then Inr (t\<lparr>refcnts := m\<rparr>, True)
          else if refcnt AND SIDE_TABLE_DEALLOCATING \<noteq> 0 then Inr (t\<lparr>refcnts := m\<rparr>, False)
          else if refcnt AND SIDE_TABLE_RC_PINNED = 0 then
            Inr (t\<lparr>refcnts := set_second i (refcnt + SIDE_TABLE_RC_ONE) m\<rparr>, True)
          else Inr (t\<lparr>refcnts := m\<rparr>, True)))"

definition sidetable_retainCount ::
  "u64 \<times> u64 \<Rightarrow> u64 \<Rightarrow> side_table \<Rightarrow> fault + (side_table \<times> u64)" where
  "sidetable_retainCount junk this t =
     bindE (sidetable_lock t) (\<lambda>t.
     bindE (refcnt_find junk this t) (\<lambda>it.
     let refcnt_result = (case it of None \<Rightarrow> 1 | Some (i, v) \<Rightarrow> 1 + drop_bit SIDE_TABLE_RC_SHIFT v)
     in bindE (sidetable_unlock t) (\<lambda>t. Inr (t, refcnt_result))))"

definition sidetable_isDeallocating :: "u64 \<times> u64 \<Rightarrow> u64 \<Rightarrow> side_table \<Rightarrow> fault + bool" where
  "sidetable_isDeallocating junk this t =
     bindE (refcnt_find junk this t) (\<lambda>it.
     Inr (case it of None \<Rightarrow> False | Some (i, v) \<Rightarrow> v AND SIDE_TABLE_DEALLOCATING \<noteq> 0))"

definition sidetable_isWeaklyReferenced ::
  "u64 \<times> u64 \<Rightarrow> u64 \<Rightarrow> side_table \<Rightarrow> fault + (side_table \<times> bool)" where
  "sidetable_isWeaklyReferenced junk this t =
     bindE (sidetable_lock t) (\<lambda>t.
     bindE (refcnt_find junk this t) (\<lambda>it.
     let result = (case it of None \<Rightarrow> False | Some (i, v) \<Rightarrow> v AND SIDE_TABLE_WEAKLY_REFERENCED \<noteq> 0)
     in bindE (sidetable_unlock t) (\<lambda>t. Inr (t, result))))"

definition sidetable_setWeaklyReferenced_nolock ::
  "u64 \<times> u64 \<Rightarrow> u64 \<Rightarrow> u64 \<Rightarrow> side_table \<Rightarrow> fault + side_table" where
  "sidetable_setWeaklyReferenced_nolock junk this isa t =
     (if isa_nonpointer isa then Inl AssertFailed
      else bindE (refcnt_ref junk this t (\<lambda>v. Inr (v OR SIDE_TABLE_WEAKLY_REFERENCED, ())))
        (\<lambda>(t, _). Inr t))"

text \<open>The results: whether the object is to be deallocated, and whether the
  \<open>-dealloc\<close> message is sent to it.\<close>

definition sidetable_release ::
  "u64 \<times> u64 \<Rightarrow> u64 \<Rightarrow> u64 \<Rightarrow> bool \<Rightarrow> bool \<Rightarrow> side_table \<Rightarrow> fault + (side_table \<times> bool \<times> bool)" where
  "sidetable_release junk this isa locked performDealloc t =
     (if isa_nonpointer isa then Inl AssertFailed
      else bindE (if \<not> locked then sidetable_lock t else Inr t) (\<lambda>t.
        bindE (try_emplace (RefcountMap junk) (disguise this) SIDE_TABLE_DEALLOCATING (refcnts t))
        (\<lambda>(m, i, new). let refcnt = snd (Buckets m ! i);
            (m', do_dealloc) =
              (if new then (m, True)
               else if refcnt < SIDE_TABLE_DEALLOCATING then
                 (set_second i (refcnt OR SIDE_TABLE_DEALLOCATING) m, True)
               else if refcnt AND SIDE_TABLE_RC_PINNED = 0 then
                 (set_second i (refcnt - SIDE_TABLE_RC_ONE) m, False)
               else (m, False))
          in bindE (sidetable_unlock (t\<lparr>refcnts := m'\<rparr>)) (\<lambda>t.
               Inr (t, do_dealloc, do_dealloc \<and> performDealloc)))))"

section \<open>The refcount word of an object\<close>

definition valid_object :: "u64 \<Rightarrow> bool" where
  "valid_object this \<longleftrightarrow> this \<noteq> - 1 \<and> this \<noteq> - 2"

definition table_ok :: "u64 \<times> u64 \<Rightarrow> side_table \<Rightarrow> bool" where
  "table_ok junk t \<longleftrightarrow> dm_inv (RefcountMap junk) (refcnts t)"

definition table_room :: "side_table \<Rightarrow> bool" where
  "table_room t \<longleftrightarrow> NumBuckets (refcnts t) \<le> 2 ^ 29"

definition rc_entry :: "u64 \<times> u64 \<Rightarrow> side_table \<Rightarrow> u64 \<Rightarrow> u64 option" where
  "rc_entry junk t this = dm_map (RefcountMap junk) (refcnts t) (disguise this)"

definition rc_word :: "u64 \<times> u64 \<Rightarrow> side_table \<Rightarrow> u64 \<Rightarrow> u64" where
  "rc_word junk t this = (case rc_entry junk t this of None \<Rightarrow> 0 | Some v \<Rightarrow> v)"

interpretation rcm: dense_map_laws "RefcountMap junk" for junk
  unfolding dense_map_laws_def RefcountMap_def by simp (rule disguised_info.key_info_axioms)

lemma RefcountMap_simps [simp]:
  "isEqual (KeyInfo (RefcountMap junk)) = (=)" "ValueT (RefcountMap junk) = 0"
  "isPurgeable (RefcountMap junk) v \<longleftrightarrow> v = 0"
  by (auto simp: RefcountMap_def disguised_info_def undisguise_def fun_eq_iff
      RefcountMapValuePurgeable_isPurgeable_def)

lemma valid_object_live [simp]: "is_live_key (RefcountMap junk) (disguise this) \<longleftrightarrow> valid_object this"
  by (auto simp: is_live_key_def is_empty_key_def is_tombstone_key_def valid_object_def)
    (auto simp: RefcountMap_def disguised_info_def)

lemma rc_word_kept:
  "rc_word junk t this = (case dm_kept (RefcountMap junk) (refcnts t) (disguise this) of None \<Rightarrow> 0 | Some v \<Rightarrow> v)"
  by (auto simp: rc_word_def rc_entry_def dm_kept_def split: option.splits)

lemma upd_eq_RefcountMap [simp]: "upd_eq (KeyInfo (RefcountMap junk)) f k v = f(k := v)"
  by (rule upd_eq_fun_upd) simp

lemma rc_word_slock [simp]:
  "rc_word junk (t\<lparr>slock := b\<rparr>) = rc_word junk t" "rc_entry junk (t\<lparr>slock := b\<rparr>) = rc_entry junk t"
  "table_ok junk (t\<lparr>slock := b\<rparr>) = table_ok junk t" "table_room (t\<lparr>slock := b\<rparr>) = table_room t"
  by (simp_all add: fun_eq_iff rc_word_def rc_entry_def table_ok_def table_room_def)

text \<open>What an access leaves: the invariant, the lock, and every word but this
  object's.\<close>

definition word_set :: "u64 \<times> u64 \<Rightarrow> side_table \<Rightarrow> u64 \<Rightarrow> u64 \<Rightarrow> side_table \<Rightarrow> bool" where
  "word_set junk t this v t' \<longleftrightarrow> table_ok junk t' \<and> slock t' = slock t \<and>
     rc_word junk t' = (rc_word junk t)(this := v) \<and>
     (rc_entry junk t this \<noteq> None \<or> NumEntries (refcnts t) < 2 ^ 27 \<longrightarrow> table_room t \<longrightarrow> table_room t')"

lemma rc_word_insert:
  assumes "inserted (RefcountMap junk) (refcnts t) (disguise this) v m i" "rc_entry junk t this = None"
  shows "word_set junk t this v (t\<lparr>refcnts := m\<rparr>)"
    and "table_ok junk t \<Longrightarrow> word_set junk t this w (t\<lparr>refcnts := set_second i w m\<rparr>)"
    and "snd (Buckets m ! i) = v"
proof -
  note ins = assms(1) [unfolded inserted_def]
  have k: "key_at m i = disguise this" using ins by blast
  show "word_set junk t this v (t\<lparr>refcnts := m\<rparr>)"
    using ins assms(2) by (auto simp: word_set_def table_ok_def table_room_def rc_word_kept fun_eq_iff split: option.splits)
  have inv: "dm_inv (RefcountMap junk) m" and live: "live_at (RefcountMap junk) m i" using ins by auto
  note ss = rcm.set_second_spec [OF inv live, of w]
  show "word_set junk t this w (t\<lparr>refcnts := set_second i w m\<rparr>)"
    using ins ss assms(2) by (auto simp: word_set_def table_ok_def table_room_def rc_word_kept fun_eq_iff k dm_kept_def split: option.splits)
  show "snd (Buckets m ! i) = v" using ins by (simp add: val_at_def)
qed

lemma rc_word_second:
  assumes "table_ok junk t" "live_at (RefcountMap junk) (refcnts t) i" "key_at (refcnts t) i = disguise this"
  shows "word_set junk t this w (t\<lparr>refcnts := set_second i w (refcnts t)\<rparr>)"
  using assms rcm.set_second_spec [of junk "refcnts t" i w]
  by (auto simp: word_set_def table_ok_def table_room_def rc_word_def rc_entry_def fun_eq_iff)

lemma refcnt_ref_spec:
  assumes "table_ok junk t" "table_room t" "valid_object this"
  shows "f (rc_word junk t this) = Inr (v, r) \<Longrightarrow>
      \<exists>t'. refcnt_ref junk this t f = Inr (t', r) \<and> word_set junk t this v t'"
    and "f (rc_word junk t this) = Inl e \<Longrightarrow> refcnt_ref junk this t f = Inl e"
proof -
  have "\<exists>m i. FindAndConstruct (RefcountMap junk) (disguise this) (refcnts t) = Inr (m, i) \<and>
      snd (Buckets m ! i) = rc_word junk t this \<and> (\<forall>w. word_set junk t this w (t\<lparr>refcnts := set_second i w m\<rparr>))"
  proof (cases "rc_entry junk t this")
    case None
    then obtain m i where m: "FindAndConstruct (RefcountMap junk) (disguise this) (refcnts t) = Inr (m, i)"
      "inserted (RefcountMap junk) (refcnts t) (disguise this) 0 m i"
      using rcm.FindAndConstruct_new [of junk "refcnts t" "disguise this"] assms
      by (auto simp: table_ok_def table_room_def rc_entry_def)
    have "rc_word junk t this = 0" using None by (simp add: rc_word_def)
    with m(1) rc_word_insert(2) [OF m(2) None assms(1)] rc_word_insert(3) [OF m(2) None] show ?thesis by auto
  next
    case (Some w)
    then obtain i where i: "FindAndConstruct (RefcountMap junk) (disguise this) (refcnts t) = Inr (refcnts t, i)"
      "live_at (RefcountMap junk) (refcnts t) i" "key_at (refcnts t) i = disguise this" "val_at (refcnts t) i = w"
      using rcm.FindAndConstruct_old [of junk "refcnts t" "disguise this" w] assms
      by (auto simp: table_ok_def rc_entry_def)
    then show ?thesis using rc_word_second [OF assms(1) i(2,3)] Some
      by (intro exI [of _ "refcnts t"] exI [of _ i]) (simp add: rc_word_def val_at_def)
  qed
  then obtain m i where m: "FindAndConstruct (RefcountMap junk) (disguise this) (refcnts t) = Inr (m, i)"
    "snd (Buckets m ! i) = rc_word junk t this" "\<And>w. word_set junk t this w (t\<lparr>refcnts := set_second i w m\<rparr>)"
    by blast
  show "f (rc_word junk t this) = Inr (v, r) \<Longrightarrow>
      \<exists>t'. refcnt_ref junk this t f = Inr (t', r) \<and> word_set junk t this v t'"
    using m by (auto simp: refcnt_ref_def)
  show "f (rc_word junk t this) = Inl e \<Longrightarrow> refcnt_ref junk this t f = Inl e"
    using m by (simp add: refcnt_ref_def)
qed

lemma refcnt_find_spec:
  assumes "table_ok junk t" "valid_object this"
  shows "rc_entry junk t this = None \<Longrightarrow> refcnt_find junk this t = Inr None"
    and "rc_entry junk t this = Some v \<Longrightarrow> \<exists>i. refcnt_find junk this t = Inr (Some (i, v)) \<and>
      live_at (RefcountMap junk) (refcnts t) i \<and> key_at (refcnts t) i = disguise this"
  using rcm.dm_find_spec [of junk "refcnts t" "disguise this"] assms
  by (auto simp: refcnt_find_def table_ok_def rc_entry_def val_at_def)

section \<open>Flag bits\<close>

lemma and_push_bit_1:
  fixes w :: u64
  assumes "i < 64"
  shows "w AND push_bit i 1 = 0 \<longleftrightarrow> \<not> bit w i"
proof -
  have b: "bit (w AND push_bit i 1) n \<longleftrightarrow> bit w n \<and> n = i" for n
    using assms by (auto simp: bit_and_iff bit_push_bit_iff bit_1_iff simp del: push_bit_of_1)
  show ?thesis
  proof
    assume "w AND push_bit i 1 = 0"
    then show "\<not> bit w i" using b [of i] by simp
  next
    assume "\<not> bit w i"
    then have "\<not> bit (w AND push_bit i 1) n" for n unfolding b by blast
    then show "w AND push_bit i 1 = 0" by (intro bit_word_eqI) (simp only: bit_0_eq bot_apply bot_bool_def)
  qed
qed

lemma flag_bits [simp]:
  "w AND SIDE_TABLE_WEAKLY_REFERENCED = 0 \<longleftrightarrow> \<not> bit w 0"
  "w AND SIDE_TABLE_DEALLOCATING = 0 \<longleftrightarrow> \<not> bit w 1"
  "w AND SIDE_TABLE_RC_PINNED = 0 \<longleftrightarrow> \<not> bit w 63"
  unfolding SIDE_TABLE_WEAKLY_REFERENCED_def SIDE_TABLE_DEALLOCATING_def SIDE_TABLE_RC_PINNED_def
  by (simp_all only: and_push_bit_1)

lemma pinned_iff: "bit w 63 \<longleftrightarrow> 2 ^ 63 \<le> unat (w :: u64)"
proof -
  have "j = 63" if "63 \<le> j" "bit w j" for j
    using bit_imp_le_length [OF that(2)] that(1) by simp
  then have "(\<exists>j\<ge>63. bit w j) \<longleftrightarrow> bit w 63" by blast
  then show ?thesis using unat_ge_iff_bit [of 63 w] by simp
qed

lemma no_flags:
  fixes w :: u64
  assumes "4 dvd unat w"
  shows "\<not> bit w 0" "\<not> bit w 1"
proof -
  have "unat w mod 2 ^ 2 = 0" using assms by auto
  then have "take_bit 2 w = 0" using unat_take_bit_mod [of 2 w] by (simp add: unat_eq_zero)
  then have "\<not> bit (take_bit 2 w) i" for i by simp
  from this [of 0] this [of 1] show "\<not> bit w 0" "\<not> bit w 1" by (simp_all add: bit_take_bit_iff)
qed

lemma unat_shifted_count: "4 * unat n < 2 ^ 64 \<Longrightarrow> unat (push_bit 2 n :: u64) = 4 * unat n"
  by (simp add: push_bit_eq_mult unat_word_ariths mult.commute)

section \<open>Extra counts\<close>

lemma addExtraRC_spec:
  assumes "isa_nonpointer isa" "table_ok junk t" "table_room t" "valid_object this"
    "4 dvd unat (rc_word junk t this)" "unat (rc_word junk t this) + 4 * unat n < 2 ^ 63"
  shows "\<exists>t' v. sidetable_addExtraRC_nolock junk this isa n t = Inr (t', False) \<and> word_set junk t this v t' \<and>
    unat v = unat (rc_word junk t this) + 4 * unat n"
proof -
  let ?w = "rc_word junk t this"
  let ?v = "?w + push_bit 2 n"
  have np: "\<not> bit ?w 63" using assms(6) by (simp add: pinned_iff)
  have n: "unat (push_bit 2 n :: u64) = 4 * unat n" using assms(6) by (intro unat_shifted_count) simp
  have a: "addc ?w (push_bit SIDE_TABLE_RC_SHIFT n) 0 = (?v, False)"
    using assms(6) n by (simp add: addc_def SIDE_TABLE_RC_SHIFT_def)
  have v: "unat ?v = unat ?w + 4 * unat n" using assms(6) n by (subst unat_add_nowrap_u64) auto
  let ?f = "\<lambda>oldRefcnt. if oldRefcnt AND SIDE_TABLE_DEALLOCATING \<noteq> 0 then Inl AssertFailed
        else if oldRefcnt AND SIDE_TABLE_WEAKLY_REFERENCED \<noteq> 0 then Inl AssertFailed
        else if oldRefcnt AND SIDE_TABLE_RC_PINNED \<noteq> 0 then Inr (oldRefcnt, True)
        else let (newRefcnt, carry) = addc oldRefcnt (push_bit SIDE_TABLE_RC_SHIFT n) 0
             in if carry then Inr (SIDE_TABLE_RC_PINNED OR (oldRefcnt AND SIDE_TABLE_FLAG_MASK), True)
                else Inr (newRefcnt, False)"
  have "?f ?w = Inr (?v, False)" using no_flags [OF assms(5)] np a by simp
  then have "\<exists>t'. refcnt_ref junk this t ?f = Inr (t', False) \<and> word_set junk t this ?v t'"
    by (rule refcnt_ref_spec(1) [OF assms(2-4), where f = ?f])
  then show ?thesis using assms(1) v unfolding sidetable_addExtraRC_nolock_def by auto
qed

lemma rc_entry_of_word: "rc_word junk t this \<noteq> 0 \<Longrightarrow> rc_entry junk t this = Some (rc_word junk t this)"
  by (auto simp: rc_word_def split: option.splits)

lemma subExtraRC_spec:
  assumes "isa_nonpointer isa" "table_ok junk t" "valid_object this"
    "4 dvd unat (rc_word junk t this)" "0 < unat n" "4 * unat n \<le> unat (rc_word junk t this)"
  shows "\<exists>t' v. sidetable_subExtraRC_nolock junk this isa n t = Inr (t', n, drop_bit 2 v) \<and>
    word_set junk t this v t' \<and> rc_entry junk t' this = Some v \<and>
    unat v = unat (rc_word junk t this) - 4 * unat n"
proof -
  let ?w = "rc_word junk t this"
  let ?v = "?w - push_bit 2 n"
  have lt: "unat ?w < 2 ^ 64" using unsigned_less [of ?w] by simp
  have n: "unat (push_bit 2 n :: u64) = 4 * unat n" using assms(6) lt by (intro unat_shifted_count) linarith
  have v: "unat ?v = unat ?w - 4 * unat n" using assms(6) n by (subst unat_sub_u64) auto
  have gt: "?v < ?w" using v assms(5,6) by (simp add: word_less_nat_alt)
  have nz: "?w \<noteq> 0" using assms(5,6) by auto
  from rc_entry_of_word [OF nz] obtain i where
    i: "refcnt_find junk this t = Inr (Some (i, ?w))" "live_at (RefcountMap junk) (refcnts t) i"
      "key_at (refcnts t) i = disguise this" using refcnt_find_spec(2) [OF assms(2,3)] by blast
  let ?t = "t\<lparr>refcnts := set_second i ?v (refcnts t)\<rparr>"
  have "sidetable_subExtraRC_nolock junk this isa n t = Inr (?t, n, drop_bit 2 ?v)"
    using assms(1) i(1) nz no_flags [OF assms(4)] gt
    by (simp add: sidetable_subExtraRC_nolock_def SIDE_TABLE_RC_SHIFT_def Let_def)
  moreover have "word_set junk t this ?v ?t" using rc_word_second [OF assms(2) i(2,3)] .
  moreover have "rc_entry junk ?t this = Some ?v"
    using rcm.set_second_spec(2) [of junk "refcnts t" i ?v] assms(2) i(2,3)
    by (simp add: rc_entry_def table_ok_def)
  ultimately show ?thesis using v by blast
qed

text \<open>Putting back what was borrowed restores the table.\<close>

lemma sub_add_restores:
  assumes "isa_nonpointer isa" "isa_nonpointer isa'" "table_ok junk t" "valid_object this"
    "4 dvd unat (rc_word junk t this)" "0 < unat n" "4 * unat n \<le> unat (rc_word junk t this)"
    "unat (rc_word junk t this) < 2 ^ 63"
    "sidetable_subExtraRC_nolock junk this isa n t = Inr (t', b, r)"
  shows "sidetable_addExtraRC_nolock junk this isa' n t' = Inr (t, False)"
proof -
  let ?w = "rc_word junk t this"
  obtain v where v: "word_set junk t this v t'" "rc_entry junk t' this = Some v" "unat v = unat ?w - 4 * unat n"
    using subExtraRC_spec [OF assms(1,3-7)] assms(9) by auto
  have nz: "?w \<noteq> 0" using assms(6,7) by auto
  from rc_entry_of_word [OF nz] obtain i where
    i: "refcnt_find junk this t = Inr (Some (i, ?w))" "live_at (RefcountMap junk) (refcnts t) i"
      "key_at (refcnts t) i = disguise this" "snd (Buckets (refcnts t) ! i) = ?w"
    using refcnt_find_spec(2) [OF assms(3,4)] by (auto simp: refcnt_find_def bindE_eq_Inr split: if_splits)
  have t': "\<exists>x. t' = t\<lparr>refcnts := set_second i x (refcnts t)\<rparr>"
    using assms(1,9) i(1) nz by (auto simp: sidetable_subExtraRC_nolock_def Let_def split: if_splits)
  then obtain x where x: "t' = t\<lparr>refcnts := set_second i x (refcnts t)\<rparr>" by blast
  have inv: "dm_inv (RefcountMap junk) (refcnts t')" using v(1) by (simp add: word_set_def table_ok_def)
  obtain j where j: "FindAndConstruct (RefcountMap junk) (disguise this) (refcnts t') = Inr (refcnts t', j)"
    "live_at (RefcountMap junk) (refcnts t') j" "key_at (refcnts t') j = disguise this" "val_at (refcnts t') j = v"
    using rcm.FindAndConstruct_old [OF inv, of "disguise this" v] v(2) assms(4) by (auto simp: rc_entry_def)
  have "i < length (Buckets (refcnts t))" using i(2) assms(3)
    by (simp add: live_at_def table_ok_def dm_inv_def dm_shape_def)
  then have "live_at (RefcountMap junk) (refcnts t') i" "key_at (refcnts t') i = disguise this"
    using i(2,3) by (auto simp: x set_second_def live_at_def key_at_def)
  then have ij: "j = i" using inv j(2,3) by (simp add: dm_inv_def dm_distinct_def)
  have "(Buckets (refcnts t))[i := (fst (Buckets (refcnts t) ! i), ?w)] = Buckets (refcnts t)"
    unfolding i(4) [symmetric] by simp
  then have "set_second i ?w (refcnts t') = refcnts t"
    using \<open>i < length _\<close> by (simp add: x set_second_def)
  moreover have "\<not> bit v 63" "4 dvd unat v" using v(3) assms(5,8) by (simp_all add: pinned_iff dvd_diff_nat)
  moreover have "addc v (push_bit SIDE_TABLE_RC_SHIFT n) 0 = (?w, False)"
  proof -
    have n: "unat (push_bit 2 n :: u64) = 4 * unat n" using assms(7,8) by (intro unat_shifted_count) simp
    then have "unat (v + push_bit 2 n) = unat ?w" using v(3) assms(7,8) by (subst unat_add_nowrap_u64) auto
    then have "v + push_bit 2 n = ?w" by (rule word_unat_eq_iff [THEN iffD2])
    then show ?thesis using v(3) n assms(7,8) by (simp add: addc_def SIDE_TABLE_RC_SHIFT_def)
  qed
  ultimately show ?thesis using assms(2) j(1,4) no_flags [of v]
    by (simp add: sidetable_addExtraRC_nolock_def refcnt_ref_def val_at_def ij) (simp add: x)
qed

lemma subExtraRC_none:
  assumes "isa_nonpointer isa" "table_ok junk t" "valid_object this" "rc_word junk t this = 0"
  shows "sidetable_subExtraRC_nolock junk this isa n t = Inr (t, 0, 0)"
proof (cases "rc_entry junk t this")
  case None
  then show ?thesis using refcnt_find_spec(1) [OF assms(2,3)] assms(1)
    by (simp add: sidetable_subExtraRC_nolock_def)
next
  case (Some v)
  then have "v = 0" using assms(4) by (simp add: rc_word_def)
  then show ?thesis using refcnt_find_spec(2) [OF assms(2,3) Some] assms(1)
    by (auto simp: sidetable_subExtraRC_nolock_def)
qed

lemma getExtraRC_spec:
  assumes "isa_nonpointer isa" "table_ok junk t" "valid_object this"
  shows "sidetable_getExtraRC_nolock junk this isa t = Inr (drop_bit 2 (rc_word junk t this))"
proof (cases "rc_entry junk t this")
  case None
  then show ?thesis using refcnt_find_spec(1) [OF assms(2,3)] assms(1)
    by (simp add: sidetable_getExtraRC_nolock_def rc_word_def)
next
  case (Some v)
  then show ?thesis using refcnt_find_spec(2) [OF assms(2,3) Some] assms(1)
    by (auto simp: sidetable_getExtraRC_nolock_def rc_word_def SIDE_TABLE_RC_SHIFT_def)
qed

lemma clearExtraRC_spec:
  assumes "isa_nonpointer isa" "table_ok junk t" "valid_object this" "rc_entry junk t this \<noteq> None"
  shows "\<exists>t'. sidetable_clearExtraRC_nolock junk this isa t = Inr t' \<and> word_set junk t this 0 t' \<and>
    rc_entry junk t' this = None"
proof -
  obtain v where "rc_entry junk t this = Some v" using assms(4) by blast
  then obtain i where i: "refcnt_find junk this t = Inr (Some (i, v))"
    "live_at (RefcountMap junk) (refcnts t) i" "key_at (refcnts t) i = disguise this"
    using refcnt_find_spec(2) [OF assms(2,3)] by blast
  obtain m where m: "erase_bucket (RefcountMap junk) i (refcnts t) = Inr m" "dm_inv (RefcountMap junk) m"
    "dm_kept (RefcountMap junk) m = (dm_kept (RefcountMap junk) (refcnts t))(disguise this := None)"
    "dm_map (RefcountMap junk) m (disguise this) = None" "NumBuckets m \<le> NumBuckets (refcnts t)"
    using rcm.erase_bucket_spec [of junk "refcnts t" i] assms(2) i(2,3) by (auto simp: table_ok_def)
  then have "word_set junk t this 0 (t\<lparr>refcnts := m\<rparr>)"
    by (auto simp: word_set_def table_ok_def table_room_def rc_word_kept fun_eq_iff)
  then show ?thesis using m i assms(1) by (auto simp: sidetable_clearExtraRC_nolock_def rc_entry_def)
qed

section \<open>Moving the count out of the isa\<close>

definition flags_word :: "bool \<Rightarrow> bool \<Rightarrow> nat" where
  "flags_word dealloc weak = (if dealloc then 2 else 0) + (if weak then 1 else 0)"

lemma or_flags:
  fixes w :: u64
  assumes "4 dvd unat w"
  shows "unat (let w = (if d then w OR SIDE_TABLE_DEALLOCATING else w)
    in if k then w OR SIDE_TABLE_WEAKLY_REFERENCED else w) = unat w + flags_word d k"
proof -
  have lt: "unat w < 2 ^ 64 - 3"
  proof -
    obtain q where q: "unat w = 4 * q" using assms by (auto simp: dvd_def)
    have "unat w < 2 ^ 64" using unsigned_less [of w] by simp
    then show ?thesis using q by simp
  qed
  note nf = no_flags [OF assms]
  have D: "w OR SIDE_TABLE_DEALLOCATING = w + 2"
    using or_push_bit_1 [OF nf(2)] by (simp add: SIDE_TABLE_DEALLOCATING_def)
  have ud: "unat (w + 2) = unat w + 2" using lt by (subst unat_add_nowrap_u64) auto
  have W: "v OR SIDE_TABLE_WEAKLY_REFERENCED = v + 1" if "\<not> bit v 0" for v :: u64
    using or_push_bit_1 [OF that] by (simp add: SIDE_TABLE_WEAKLY_REFERENCED_def)
  have b0: "\<not> bit (w + 2) 0" using nf(1) by (simp add: bit_0)
  have "unat (w + 1) = unat w + 1" "unat (w + 2 + 1) = unat w + 3"
    using lt ud unat_add_nowrap_u64 [of w 1] unat_add_nowrap_u64 [of "w + 2" 1] by auto
  then show ?thesis using W [OF nf(1)] W [OF b0] D ud by (auto simp: flags_word_def Let_def)
qed

lemma moveExtraRC_gen:
  assumes "\<not> isa_nonpointer isa" "table_ok junk t" "table_room t" "valid_object this"
    "4 dvd unat (rc_word junk t this)"
    "addc (rc_word junk t this) (push_bit 2 (x - 1)) 0 = (s, carry)"
    "w = (if carry then SIDE_TABLE_RC_PINNED else s)" "4 dvd unat w"
  shows "\<exists>t' v. sidetable_moveExtraRC_nolock junk this isa x d k t = Inr t' \<and> word_set junk t this v t' \<and>
    unat v = unat w + flags_word d k"
proof -
  let ?f = "\<lambda>oldRefcnt. if oldRefcnt AND SIDE_TABLE_DEALLOCATING \<noteq> 0 then Inl AssertFailed
        else if oldRefcnt AND SIDE_TABLE_WEAKLY_REFERENCED \<noteq> 0 then Inl AssertFailed
        else let (sum, carry) = addc oldRefcnt (push_bit SIDE_TABLE_RC_SHIFT (x - 1)) 0;
                 refcnt = (if carry then SIDE_TABLE_RC_PINNED else sum);
                 refcnt = (if d then refcnt OR SIDE_TABLE_DEALLOCATING else refcnt);
                 refcnt = (if k then refcnt OR SIDE_TABLE_WEAKLY_REFERENCED else refcnt)
             in Inr (refcnt, ())"
  let ?v = "let w = (if d then w OR SIDE_TABLE_DEALLOCATING else w)
    in if k then w OR SIDE_TABLE_WEAKLY_REFERENCED else w"
  have "?f (rc_word junk t this) = Inr (?v, ())"
    using no_flags [OF assms(5)] assms(6) unfolding assms(7) by (simp add: SIDE_TABLE_RC_SHIFT_def Let_def)
  then have "\<exists>t'. refcnt_ref junk this t ?f = Inr (t', ()) \<and> word_set junk t this ?v t'"
    by (rule refcnt_ref_spec(1) [OF assms(2-4), where f = ?f])
  moreover have "unat ?v = unat w + flags_word d k" by (rule or_flags [OF assms(8)])
  ultimately show ?thesis using assms(1) unfolding sidetable_moveExtraRC_nolock_def by auto
qed

lemma moveExtraRC_spec:
  assumes "\<not> isa_nonpointer isa" "table_ok junk t" "table_room t" "valid_object this"
    "4 dvd unat (rc_word junk t this)" "0 < unat x"
    "unat (rc_word junk t this) + 4 * (unat x - 1) < 2 ^ 64"
  shows "\<exists>t' v. sidetable_moveExtraRC_nolock junk this isa x d k t = Inr t' \<and> word_set junk t this v t' \<and>
    unat v = unat (rc_word junk t this) + 4 * (unat x - 1) + flags_word d k"
proof -
  let ?w = "rc_word junk t this"
  have x1: "unat (x - 1) = unat x - 1" using assms(6) by (intro unat_minus_one) auto
  have sx: "unat (push_bit 2 (x - 1) :: u64) = 4 * (unat x - 1)"
    using assms(7) x1 by (subst unat_shifted_count) auto
  have a: "addc ?w (push_bit 2 (x - 1)) 0 = (?w + push_bit 2 (x - 1), False)"
    using assms(7) sx by (simp add: addc_def)
  have s: "unat (?w + push_bit 2 (x - 1)) = unat ?w + 4 * (unat x - 1)"
    using assms(7) sx by (subst unat_add_nowrap_u64) auto
  then have "4 dvd unat (?w + push_bit 2 (x - 1))" using assms(5) by simp
  from moveExtraRC_gen [OF assms(1-5) a refl] this show ?thesis using s by simp
qed

text \<open>With no inline count the subtraction of one wraps, and any count already
  in the table makes the addition carry.\<close>

lemma moveExtraRC_zero:
  assumes "\<not> isa_nonpointer isa" "table_ok junk t" "table_room t" "valid_object this"
    "4 dvd unat (rc_word junk t this)" "rc_word junk t this \<noteq> 0"
  shows "\<exists>t' v. sidetable_moveExtraRC_nolock junk this isa 0 d k t = Inr t' \<and> word_set junk t this v t' \<and>
    unat v = 2 ^ 63 + flags_word d k"
proof -
  let ?w = "rc_word junk t this"
  have m: "(push_bit 2 (0 - 1) :: u64) = - 4" by (simp add: push_bit_eq_mult)
  have u: "unat (- 4 :: u64) = 2 ^ 64 - 4" by simp
  have "4 \<le> unat ?w" using assms(5,6) by (intro dvd_imp_le) (auto simp: unat_gt_0)
  then have a: "addc ?w (push_bit 2 (0 - 1)) 0 = (?w + (- 4), True)"
    unfolding m addc_def using u by simp
  have p: "unat SIDE_TABLE_RC_PINNED = 2 ^ 63" by (simp add: SIDE_TABLE_RC_PINNED_def)
  then have "4 dvd unat SIDE_TABLE_RC_PINNED" by simp
  from moveExtraRC_gen [OF assms(1-5) a refl] this show ?thesis using p by simp
qed

section \<open>Raw isa: retain and release\<close>

definition retained_word :: "u64 \<Rightarrow> u64" where
  "retained_word w = (if bit w 63 then w else w + SIDE_TABLE_RC_ONE)"

definition released_word :: "u64 \<Rightarrow> u64 \<times> bool" where
  "released_word w =
     (if w < SIDE_TABLE_DEALLOCATING then (w OR SIDE_TABLE_DEALLOCATING, True)
      else if \<not> bit w 63 then (w - SIDE_TABLE_RC_ONE, False) else (w, False))"

lemma sidetable_retain_spec:
  assumes "\<not> isa_nonpointer isa" "table_ok junk t" "table_room t" "valid_object this" "slock t = locked"
  shows "\<exists>t'. sidetable_retain junk this isa locked t = Inr (t', this) \<and> table_ok junk t' \<and> \<not> slock t' \<and>
    rc_word junk t' = (rc_word junk t)(this := retained_word (rc_word junk t this))"
proof -
  let ?f = "\<lambda>refcnt. Inr (if refcnt AND SIDE_TABLE_RC_PINNED = 0 then refcnt + SIDE_TABLE_RC_ONE else refcnt, ())"
  define t1 where "t1 = t\<lparr>slock := True\<rparr>"
  have t1: "table_ok junk t1" "table_room t1" "rc_word junk t1 = rc_word junk t" "slock t1"
    using assms by (simp_all add: t1_def)
  have L: "(if \<not> locked then sidetable_lock t else Inr t) = Inr t1"
    using assms(5) by (cases t) (auto simp: sidetable_lock_def t1_def)
  have "?f (rc_word junk t1 this) = Inr (retained_word (rc_word junk t this), ())"
    by (simp add: t1(3) retained_word_def)
  then have "\<exists>t2. refcnt_ref junk this t1 ?f = Inr (t2, ()) \<and>
      word_set junk t1 this (retained_word (rc_word junk t this)) t2"
    by (rule refcnt_ref_spec(1) [OF t1(1,2) assms(4), where f = ?f])
  then obtain t2 where t2: "refcnt_ref junk this t1 ?f = Inr (t2, ())"
    "word_set junk t1 this (retained_word (rc_word junk t this)) t2" by blast
  then have "sidetable_retain junk this isa locked t = Inr (t2\<lparr>slock := False\<rparr>, this)"
    unfolding sidetable_retain_def L using assms(1) t1(4) by (simp add: word_set_def sidetable_unlock_def)
  then show ?thesis using t2(2) t1(3) by (auto simp: word_set_def)
qed

lemma try_emplace_word:
  assumes "table_ok junk t" "table_room t" "valid_object this"
  shows "rc_entry junk t this = None \<Longrightarrow> \<exists>m i. try_emplace (RefcountMap junk) (disguise this) v (refcnts t) = Inr (m, i, True) \<and>
      word_set junk t this v (t\<lparr>refcnts := m\<rparr>)"
    and "rc_entry junk t this = Some w \<Longrightarrow> \<exists>i. try_emplace (RefcountMap junk) (disguise this) v (refcnts t) =
      Inr (refcnts t, i, False) \<and> snd (Buckets (refcnts t) ! i) = w \<and>
      (\<forall>x. word_set junk t this x (t\<lparr>refcnts := set_second i x (refcnts t)\<rparr>))"
proof -
  assume none: "rc_entry junk t this = None"
  then obtain m i where "try_emplace (RefcountMap junk) (disguise this) v (refcnts t) = Inr (m, i, True)"
    "inserted (RefcountMap junk) (refcnts t) (disguise this) v m i"
    using rcm.try_emplace_new [of junk "refcnts t" "disguise this" v] assms
    by (auto simp: table_ok_def table_room_def rc_entry_def)
  then show "\<exists>m i. try_emplace (RefcountMap junk) (disguise this) v (refcnts t) = Inr (m, i, True) \<and>
      word_set junk t this v (t\<lparr>refcnts := m\<rparr>)" using rc_word_insert(1) [OF _ none] by blast
next
  assume "rc_entry junk t this = Some w"
  then obtain i where "try_emplace (RefcountMap junk) (disguise this) v (refcnts t) = Inr (refcnts t, i, False)"
    "live_at (RefcountMap junk) (refcnts t) i" "key_at (refcnts t) i = disguise this" "val_at (refcnts t) i = w"
    using rcm.try_emplace_old [of junk "refcnts t" "disguise this" w v] assms
    by (auto simp: table_ok_def rc_entry_def)
  then show "\<exists>i. try_emplace (RefcountMap junk) (disguise this) v (refcnts t) =
      Inr (refcnts t, i, False) \<and> snd (Buckets (refcnts t) ! i) = w \<and>
      (\<forall>x. word_set junk t this x (t\<lparr>refcnts := set_second i x (refcnts t)\<rparr>))"
    using rc_word_second [OF assms(1)] by (auto simp: val_at_def)
qed

lemma word_set_same: "table_ok junk t \<Longrightarrow> word_set junk t this (rc_word junk t this) t"
  by (simp add: word_set_def)

lemma sidetable_tryRetain_spec:
  assumes "\<not> isa_nonpointer isa" "table_ok junk t" "table_room t" "valid_object this"
  shows "\<exists>t'. sidetable_tryRetain junk this isa t = Inr (t', \<not> bit (rc_word junk t this) 1) \<and>
    word_set junk t this (if bit (rc_word junk t this) 1 then rc_word junk t this
      else retained_word (rc_word junk t this)) t'"
proof (cases "rc_entry junk t this")
  case None
  then have "rc_word junk t this = 0" by (simp add: rc_word_def)
  then show ?thesis using try_emplace_word(1) [OF assms(2-4) None, of SIDE_TABLE_RC_ONE] assms(1)
    by (auto simp: sidetable_tryRetain_def retained_word_def Let_def)
next
  case (Some w)
  then have w: "rc_word junk t this = w" by (simp add: rc_word_def)
  then show ?thesis
    using try_emplace_word(2) [OF assms(2-4) Some, of SIDE_TABLE_RC_ONE] assms(1) word_set_same [OF assms(2), of this]
    by (auto simp: sidetable_tryRetain_def retained_word_def Let_def)
qed

lemma sidetable_release_spec:
  assumes "\<not> isa_nonpointer isa" "table_ok junk t" "table_room t" "valid_object this" "slock t = locked"
    "released_word (rc_word junk t this) = (v, dl)"
  shows "\<exists>t'. sidetable_release junk this isa locked pd t = Inr (t', dl, dl \<and> pd) \<and> table_ok junk t' \<and>
    \<not> slock t' \<and> rc_word junk t' = (rc_word junk t)(this := v)"
proof -
  define t1 where "t1 = t\<lparr>slock := True\<rparr>"
  have t1: "table_ok junk t1" "table_room t1" "rc_word junk t1 = rc_word junk t" "rc_entry junk t1 = rc_entry junk t"
    "refcnts t1 = refcnts t"
    using assms by (simp_all add: t1_def)
  have L: "(if \<not> locked then sidetable_lock t else Inr t) = Inr t1"
    using assms(5) by (cases t) (auto simp: sidetable_lock_def t1_def)
  have "\<exists>m i new. try_emplace (RefcountMap junk) (disguise this) SIDE_TABLE_DEALLOCATING (refcnts t) = Inr (m, i, new) \<and>
    (\<exists>m'. (let refcnt = snd (Buckets m ! i) in
       if new then (m, True)
       else if refcnt < SIDE_TABLE_DEALLOCATING then (set_second i (refcnt OR SIDE_TABLE_DEALLOCATING) m, True)
       else if refcnt AND SIDE_TABLE_RC_PINNED = 0 then (set_second i (refcnt - SIDE_TABLE_RC_ONE) m, False)
       else (m, False)) = (m', dl) \<and> word_set junk t1 this v (t1\<lparr>refcnts := m'\<rparr>))"
  proof (cases "rc_entry junk t this")
    case None
    then have "rc_word junk t this = 0" by (simp add: rc_word_def)
    then have "v = SIDE_TABLE_DEALLOCATING" "dl" using assms(6)
      by (auto simp: released_word_def SIDE_TABLE_DEALLOCATING_def)
    then show ?thesis using try_emplace_word(1) [OF t1(1,2) assms(4), of SIDE_TABLE_DEALLOCATING] None
      by (fastforce simp: t1 Let_def)
  next
    case (Some w)
    then have w: "rc_word junk t this = w" by (simp add: rc_word_def)
    obtain i where i: "try_emplace (RefcountMap junk) (disguise this) SIDE_TABLE_DEALLOCATING (refcnts t) =
      Inr (refcnts t, i, False)" "snd (Buckets (refcnts t) ! i) = w"
      "\<And>x. word_set junk t1 this x (t1\<lparr>refcnts := set_second i x (refcnts t)\<rparr>)"
      using try_emplace_word(2) [OF t1(1,2) assms(4), of w SIDE_TABLE_DEALLOCATING] Some by (auto simp: t1)
    have same: "word_set junk t1 this w (t1\<lparr>refcnts := refcnts t\<rparr>)"
      using word_set_same [OF t1(1), of this] w t1(3) by (simp add: t1_def)
    show ?thesis using i same assms(6) w by (auto simp: released_word_def Let_def split: if_splits)
  qed
  then obtain m i new m' where m: "try_emplace (RefcountMap junk) (disguise this) SIDE_TABLE_DEALLOCATING (refcnts t1) = Inr (m, i, new)"
    "(let refcnt = snd (Buckets m ! i) in
       if new then (m, True)
       else if refcnt < SIDE_TABLE_DEALLOCATING then (set_second i (refcnt OR SIDE_TABLE_DEALLOCATING) m, True)
       else if refcnt AND SIDE_TABLE_RC_PINNED = 0 then (set_second i (refcnt - SIDE_TABLE_RC_ONE) m, False)
       else (m, False)) = (m', dl)"
    "word_set junk t1 this v (t1\<lparr>refcnts := m'\<rparr>)" unfolding t1(5) by blast
  have "sidetable_release junk this isa locked pd t =
      bindE (sidetable_unlock (t1\<lparr>refcnts := m'\<rparr>)) (\<lambda>t. Inr (t, dl, dl \<and> pd))"
    unfolding sidetable_release_def L bindE_Inr m(1) prod.case using assms(1) m(2) by (simp add: Let_def)
  then have "sidetable_release junk this isa locked pd t = Inr (t1\<lparr>refcnts := m', slock := False\<rparr>, dl, dl \<and> pd)"
    by (simp add: sidetable_unlock_def t1_def)
  then show ?thesis using m(3) t1(3) by (auto simp: word_set_def)
qed

end
