(* ===== verification/ObjcObject.thy ===== *)
theory ObjcObject
  imports SideTable
begin

text \<open>
  Reference counting of an object (\<^verbatim>\<open>objc-object.h\<close>, the
  \<open>SUPPORT_NONPOINTER_ISA\<close> half): initialising and changing the isa, retain,
  tryRetain, release, retainCount and the isa flags.

  The state is what one object's operations touch: its isa word, its side
  table, and the messages sent.  The compare-and-swap loops run against a
  schedule of what other threads do at each access to the isa: nothing, a
  spurious failure of the exclusive store, or a change of the isa word and,
  when the lock is free, of the table.
\<close>

section \<open>State and configuration\<close>

datatype event = MsgRetain | MsgRelease | MsgAutorelease | MsgDealloc | SwiftRetain | SwiftRelease
  | NoteAssociatedObjects | WeakClear | CallFree | CallObjectDispose | PoolAdd

record obj_state =
  isa :: u64
  table :: side_table
  events :: "event list"

text \<open>The class flags the operations read, by class pointer.\<close>

record class_flags =
  hasCustomRR :: "u64 \<Rightarrow> bool"
  canCallSwiftRR :: "u64 \<Rightarrow> bool"
  isMetaClass :: "u64 \<Rightarrow> bool"
  isFuture :: "u64 \<Rightarrow> bool"
  canAllocNonpointer :: "u64 \<Rightarrow> bool"
  instancesRequireRawIsa :: "u64 \<Rightarrow> bool"
  cls_hasCxxDtor :: "u64 \<Rightarrow> bool"
  implementsNoteAssociated :: "u64 \<Rightarrow> bool"

record rt_config =
  layout :: isa_layout
  tag_mask :: u64
  junk :: "u64 \<times> u64"
  sign_cls :: "u64 \<Rightarrow> u64 \<Rightarrow> u64"
  classes :: class_flags
  DisableNonpointerIsa :: bool
  msg_result :: u64

text \<open>What other threads do at one access to the isa.  An interference has two
  parts: what becomes of the isa while this thread holds the side table's
  lock, and what becomes of the isa and the refcount map while it does not.\<close>

datatype interference = Quiet | Spurious | Interfere "u64 \<Rightarrow> u64" "u64 \<Rightarrow> refcount_map \<Rightarrow> u64 \<times> refcount_map"

type_synonym schedule = "interference list"

definition isTaggedPointer :: "rt_config \<Rightarrow> u64 \<Rightarrow> bool" where
  "isTaggedPointer cfg this \<longleftrightarrow> this AND tag_mask cfg = tag_mask cfg"

definition emit :: "event \<Rightarrow> obj_state \<Rightarrow> obj_state" where
  "emit e st = st\<lparr>events := events st @ [e]\<rparr>"

section \<open>Access to the isa word\<close>

fun other_threads :: "interference \<Rightarrow> obj_state \<Rightarrow> obj_state" where
  "other_threads (Interfere g f) st =
     (if slock (table st) then st\<lparr>isa := g (isa st)\<rparr>
      else case f (isa st) (refcnts (table st)) of (v, m) \<Rightarrow>
        st\<lparr>isa := v, table := (table st)\<lparr>refcnts := m\<rparr>\<rparr>)"
| "other_threads Quiet st = st"
| "other_threads Spurious st = st"

fun LoadExclusive :: "schedule \<Rightarrow> obj_state \<Rightarrow> u64 \<times> schedule \<times> obj_state" where
  "LoadExclusive [] st = (isa st, [], st)"
| "LoadExclusive (x # env) st = (let st' = other_threads x st in (isa st', env, st'))"

definition compare_store :: "u64 \<Rightarrow> u64 \<Rightarrow> obj_state \<Rightarrow> bool \<times> u64 \<times> obj_state" where
  "compare_store old new st =
     (if isa st = old then (True, old, st\<lparr>isa := new\<rparr>) else (False, isa st, st))"

text \<open>On failure the expected value is replaced by the one found.\<close>

fun StoreExclusive :: "u64 \<Rightarrow> u64 \<Rightarrow> schedule \<Rightarrow> obj_state \<Rightarrow> bool \<times> u64 \<times> schedule \<times> obj_state" where
  "StoreExclusive old new [] st = (let (b, o', st') = compare_store old new st in (b, o', [], st'))"
| "StoreExclusive old new (Spurious # env) st = (False, isa st, env, st)"
| "StoreExclusive old new (x # env) st =
     (let (b, o', st') = compare_store old new (other_threads x st) in (b, o', env, st'))"

lemma StoreExclusive_fail_measure:
  assumes "StoreExclusive old new env st = (False, o', env', st')"
  shows "length env' < length env \<or> (env = [] \<and> env' = [] \<and> isa st \<noteq> old)" "isa st' = o'"
    "env = [] \<Longrightarrow> st' = st"
  using assms by (auto elim!: StoreExclusive.elims simp: compare_store_def Let_def split: if_splits)

lemma StoreExclusive_decreases:
  assumes "(False, o', env', st') = StoreExclusive old new env st"
  shows "length env' < length env \<or> (length env' = length env \<and> isa st' = o' \<and> isa st \<noteq> old)"
  using StoreExclusive_fail_measure [OF assms [symmetric]] by auto

lemma StoreExclusive_length:
  "StoreExclusive old new env st = (b, o', env', st') \<Longrightarrow> length env' \<le> length env"
  by (auto elim!: StoreExclusive.elims simp: Let_def split: prod.splits)

lemma LoadExclusive_length:
  "LoadExclusive env st = (v, env', st') \<Longrightarrow> length env' \<le> length env \<and> isa st' = v"
  by (auto elim!: LoadExclusive.elims simp: Let_def)

lemma LoadExclusive_decreases:
  "(v, y) = LoadExclusive env st \<Longrightarrow> (env', st') = y \<Longrightarrow> length env' \<le> length env \<and> isa st' = v"
  by (rule LoadExclusive_length) simp

definition obj_lock :: "obj_state \<Rightarrow> fault + obj_state" where
  "obj_lock st = bindE (sidetable_lock (table st)) (\<lambda>t. Inr (st\<lparr>table := t\<rparr>))"

definition obj_unlock :: "obj_state \<Rightarrow> fault + obj_state" where
  "obj_unlock st = bindE (sidetable_unlock (table st)) (\<lambda>t. Inr (st\<lparr>table := t\<rparr>))"

lemma obj_lock_isa: "obj_lock st = Inr st' \<Longrightarrow> isa st' = isa st"
  by (auto simp: obj_lock_def bindE_eq_Inr)

section \<open>Retain\<close>

datatype RRVariant = Full | Fast | FastOrMsgSend

datatype rr_outcome = Returned u64 | Overflowed

function rootRetain_loop ::
  "rt_config \<Rightarrow> u64 \<Rightarrow> bool \<Rightarrow> RRVariant \<Rightarrow> bool \<Rightarrow> u64 \<Rightarrow> schedule \<Rightarrow> obj_state \<Rightarrow>
    fault + (rr_outcome \<times> schedule \<times> obj_state)" where
  "rootRetain_loop cfg this tryRetain variant sideTableLocked oldisa env st =
     (if \<not> isa_nonpointer oldisa then
        if tryRetain then
          bindE (sidetable_tryRetain (junk cfg) this (isa st) (table st)) (\<lambda>(t, ok).
            Inr (Returned (if ok then this else nil), env, st\<lparr>table := t\<rparr>))
        else
          bindE (sidetable_retain (junk cfg) this (isa st) sideTableLocked (table st)) (\<lambda>(t, r).
            Inr (Returned r, env, st\<lparr>table := t\<rparr>))
      else if isDeallocating (layout cfg) oldisa then
        bindE (if sideTableLocked then if variant \<noteq> Full then Inl AssertFailed else obj_unlock st
               else Inr st) (\<lambda>st.
          Inr (Returned (if tryRetain then nil else this), env, st))
      else case addc oldisa (RC_ONE (layout cfg)) 0 of (newbits, carry) \<Rightarrow>
        if carry \<and> variant \<noteq> Full then Inr (Overflowed, env, st)
        else bindE (if carry \<and> \<not> tryRetain \<and> \<not> sideTableLocked then obj_lock st else Inr st) (\<lambda>st.
          let locked = sideTableLocked \<or> carry;
              newisa = (if carry then set_has_sidetable_rc (layout cfg) True
                          (set_extra_rc (layout cfg) (RC_HALF (layout cfg)) newbits)
                        else newbits)
          in case StoreExclusive oldisa newisa env st of (stored, oldisa', env', st') \<Rightarrow>
             if \<not> stored then rootRetain_loop cfg this tryRetain variant locked oldisa' env' st'
             else if variant = Full then
               bindE (if carry then
                        bindE (sidetable_addExtraRC_nolock (junk cfg) this (isa st')
                                 (of_nat (RC_HALF (layout cfg))) (table st'))
                          (\<lambda>(t, _). Inr (st'\<lparr>table := t\<rparr>))
                      else Inr st') (\<lambda>st.
               bindE (if \<not> tryRetain \<and> locked then obj_unlock st else Inr st) (\<lambda>st.
                 Inr (Returned this, env', st)))
             else if carry \<or> locked then Inl AssertFailed
             else Inr (Returned this, env', st')))"
  by pat_completeness auto
termination
  apply (relation "measures [\<lambda>(_, _, _, _, _, _, env, _). length env,
      \<lambda>(_, _, _, _, _, oldisa, _, st). if isa st = oldisa then 0 else 1]")
   apply simp
  apply (auto dest!: StoreExclusive_decreases simp: obj_lock_isa split: if_splits)
  done

declare rootRetain_loop.simps [simp del]

definition rootRetain_once ::
  "rt_config \<Rightarrow> u64 \<Rightarrow> bool \<Rightarrow> RRVariant \<Rightarrow> schedule \<Rightarrow> obj_state \<Rightarrow>
    fault + (rr_outcome \<times> schedule \<times> obj_state)" where
  "rootRetain_once cfg this tryRetain variant env0 st0 =
     (if isTaggedPointer cfg this then Inr (Returned this, env0, st0)
      else case LoadExclusive env0 st0 of (oldisa, env, st) \<Rightarrow>
        let cls = getClass (layout cfg) oldisa in
        if variant = FastOrMsgSend \<and> hasCustomRR (classes cfg) cls then
          Inr (Returned (msg_result cfg), env,
               emit (if canCallSwiftRR (classes cfg) cls then SwiftRetain else MsgRetain) st)
        else if \<not> isa_nonpointer oldisa \<and> isMetaClass (classes cfg) cls then Inr (Returned this, env, st)
        else rootRetain_loop cfg this tryRetain variant False oldisa env st)"

text \<open>\<open>rootRetain_overflow\<close> calls \<open>rootRetain\<close> with the full variant, which does
  not come back with \<open>Overflowed\<close>.\<close>

definition rootRetain ::
  "rt_config \<Rightarrow> u64 \<Rightarrow> bool \<Rightarrow> RRVariant \<Rightarrow> schedule \<Rightarrow> obj_state \<Rightarrow> fault + (u64 \<times> schedule \<times> obj_state)" where
  "rootRetain cfg this tryRetain variant env st =
     bindE (rootRetain_once cfg this tryRetain variant env st) (\<lambda>(out, env, st). case out of
       Returned r \<Rightarrow> Inr (r, env, st)
     | Overflowed \<Rightarrow> bindE (rootRetain_once cfg this tryRetain Full env st) (\<lambda>(out, env, st). case out of
         Returned r \<Rightarrow> Inr (r, env, st)
       | Overflowed \<Rightarrow> Inl AssertFailed))"

definition obj_retain :: "rt_config \<Rightarrow> u64 \<Rightarrow> schedule \<Rightarrow> obj_state \<Rightarrow> fault + (u64 \<times> schedule \<times> obj_state)" where
  "obj_retain cfg this env st =
     (if isTaggedPointer cfg this then Inl AssertFailed else rootRetain cfg this False FastOrMsgSend env st)"

definition rootTryRetain :: "rt_config \<Rightarrow> u64 \<Rightarrow> schedule \<Rightarrow> obj_state \<Rightarrow> fault + (bool \<times> schedule \<times> obj_state)" where
  "rootTryRetain cfg this env st =
     bindE (rootRetain cfg this True Fast env st) (\<lambda>(r, env, st). Inr (r \<noteq> nil, env, st))"

section \<open>Release\<close>

datatype rel_outcome = RelReturned bool | Underflowed

text \<open>The label \<open>deallocate\<close>.\<close>

definition rootRelease_deallocate ::
  "rt_config \<Rightarrow> bool \<Rightarrow> bool \<Rightarrow> u64 \<Rightarrow> schedule \<Rightarrow> obj_state \<Rightarrow> fault + (rel_outcome \<times> schedule \<times> obj_state)" where
  "rootRelease_deallocate cfg performDealloc sideTableLocked newisa env st =
     (if \<not> isDeallocating (layout cfg) newisa then Inl AssertFailed
      else if \<not> isDeallocating (layout cfg) (isa st) then Inl AssertFailed
      else bindE (if sideTableLocked then obj_unlock st else Inr st) (\<lambda>st.
        Inr (RelReturned True, env, if performDealloc then emit MsgDealloc st else st)))"

text \<open>The stores after a borrow: the first attempt, and when it fails on an isa
  that is still nonpointer, one more that adds the borrowed counts to what
  is there now.  The result: whether stored, and whether the second attempt
  brought the count to zero.\<close>

definition borrow_store ::
  "rt_config \<Rightarrow> u64 \<Rightarrow> u64 \<Rightarrow> bool \<Rightarrow> schedule \<Rightarrow> obj_state \<Rightarrow> bool \<times> bool \<times> u64 \<times> schedule \<times> obj_state" where
  "borrow_store cfg oldisa borrowed emptySideTable env st = (
     let L = layout cfg;
         newisa = set_has_sidetable_rc L (\<not> emptySideTable) (set_extra_rc L (unat (borrowed - 1)) oldisa)
     in case StoreExclusive oldisa newisa env st of (stored, oldisa1, env1, st1) \<Rightarrow>
        if \<not> stored \<and> isa_nonpointer oldisa1 then
          case addc oldisa1 (RC_ONE L * (borrowed - 1)) 0 of (bits, overflow) \<Rightarrow>
            let newisa = set_has_sidetable_rc L (\<not> emptySideTable) bits in
            if \<not> overflow then
              case StoreExclusive oldisa1 newisa env1 st1 of (stored2, oldisa2, env2, st2) \<Rightarrow>
                (stored2, stored2 \<and> isDeallocating L newisa, newisa, env2, st2)
            else (False, False, newisa, env1, st1)
        else (stored, False, newisa, env1, st1))"

lemma borrow_store_decreases:
  assumes "(stored, d, n, env', st') = borrow_store cfg oldisa b e env st" "\<not> stored"
  shows "length env' < length env \<or> (length env' = length env \<and> isa st \<noteq> oldisa)"
  using assms StoreExclusive_length
  by (auto simp: borrow_store_def Let_def split: prod.splits if_splits
      dest!: StoreExclusive_fail_measure(1) [of oldisa] dest: StoreExclusive_length)

function rootRelease_loop ::
  "rt_config \<Rightarrow> u64 \<Rightarrow> bool \<Rightarrow> RRVariant \<Rightarrow> bool \<Rightarrow> u64 \<Rightarrow> schedule \<Rightarrow> obj_state \<Rightarrow>
    fault + (rel_outcome \<times> schedule \<times> obj_state)" where
  "rootRelease_loop cfg this performDealloc variant sideTableLocked oldisa env st =
     (if \<not> isa_nonpointer oldisa then
        bindE (sidetable_release (junk cfg) this (isa st) sideTableLocked performDealloc (table st))
          (\<lambda>(t, do_dealloc, sent).
             let st = st\<lparr>table := t\<rparr>
             in Inr (RelReturned do_dealloc, env, if sent then emit MsgDealloc st else st))
      else if isDeallocating (layout cfg) oldisa then
        bindE (if sideTableLocked then if variant \<noteq> Full then Inl AssertFailed else obj_unlock st
               else Inr st) (\<lambda>st. Inr (RelReturned False, env, st))
      else case subc oldisa (RC_ONE (layout cfg)) 0 of (newisa, carry) \<Rightarrow>
        if \<not> carry then
          case StoreExclusive oldisa newisa env st of (stored, oldisa', env', st') \<Rightarrow>
            if \<not> stored then rootRelease_loop cfg this performDealloc variant sideTableLocked oldisa' env' st'
            else if isDeallocating (layout cfg) newisa then
              rootRelease_deallocate cfg performDealloc sideTableLocked newisa env' st'
            else if variant = Full then
              bindE (if sideTableLocked then obj_unlock st' else Inr st') (\<lambda>st.
                Inr (RelReturned False, env', st))
            else if sideTableLocked then Inl AssertFailed
            else Inr (RelReturned False, env', st')
        else if isa_has_sidetable_rc (layout cfg) oldisa then
          if variant \<noteq> Full then Inr (Underflowed, env, st)
          else if \<not> sideTableLocked then
            bindE (obj_lock st) (\<lambda>st.
              case LoadExclusive env st of (oldisa', env', st') \<Rightarrow>
                rootRelease_loop cfg this performDealloc variant True oldisa' env' st')
          else
            bindE (sidetable_subExtraRC_nolock (junk cfg) this (isa st)
                     (of_nat (RC_HALF (layout cfg))) (table st)) (\<lambda>(t, borrowed, remaining).
              let st = st\<lparr>table := t\<rparr>; emptySideTable = (remaining = 0) in
              if borrowed > 0 then
                case borrow_store cfg oldisa borrowed emptySideTable env st of
                  (stored, didTransitionToDeallocating, newisa, env', st') \<Rightarrow>
                  if \<not> stored then
                    bindE (sidetable_addExtraRC_nolock (junk cfg) this (isa st') borrowed (table st'))
                      (\<lambda>(t, _). case LoadExclusive env' (st'\<lparr>table := t\<rparr>) of (oldisa', env'', st'') \<Rightarrow>
                        rootRelease_loop cfg this performDealloc variant True oldisa' env'' st'')
                  else
                    bindE (if emptySideTable
                           then bindE (sidetable_clearExtraRC_nolock (junk cfg) this (isa st') (table st'))
                                  (\<lambda>t. Inr (st'\<lparr>table := t\<rparr>))
                           else Inr st') (\<lambda>st.
                      if \<not> didTransitionToDeallocating then
                        bindE (obj_unlock st) (\<lambda>st. Inr (RelReturned False, env', st))
                      else rootRelease_deallocate cfg performDealloc True newisa env' st)
              else rootRelease_deallocate cfg performDealloc True oldisa env st)
        else rootRelease_deallocate cfg performDealloc sideTableLocked oldisa env st)"
  by pat_completeness auto
termination
  apply (relation "measures [\<lambda>(_, _, _, _, _, _, env, _). length env,
      \<lambda>(_, _, _, _, locked, _, _, _). if locked then 0 else 1,
      \<lambda>(_, _, _, _, _, oldisa, _, st). if isa st = oldisa then 0 else 1]")
     apply simp
    apply (auto dest!: StoreExclusive_decreases)[1]
   apply (drule (1) LoadExclusive_decreases, clarify, simp add: le_less)
  apply (drule (1) LoadExclusive_decreases, clarify, drule (1) borrow_store_decreases, auto)
  done

declare rootRelease_loop.simps [simp del]

definition rootRelease_once ::
  "rt_config \<Rightarrow> u64 \<Rightarrow> bool \<Rightarrow> RRVariant \<Rightarrow> schedule \<Rightarrow> obj_state \<Rightarrow>
    fault + (rel_outcome \<times> schedule \<times> obj_state)" where
  "rootRelease_once cfg this performDealloc variant env0 st0 =
     (if isTaggedPointer cfg this then Inr (RelReturned False, env0, st0)
      else case LoadExclusive env0 st0 of (oldisa, env, st) \<Rightarrow>
        let cls = getClass (layout cfg) oldisa in
        if variant = FastOrMsgSend \<and> hasCustomRR (classes cfg) cls then
          Inr (RelReturned True, env,
               emit (if canCallSwiftRR (classes cfg) cls then SwiftRelease else MsgRelease) st)
        else if \<not> isa_nonpointer oldisa \<and> isMetaClass (classes cfg) cls then Inr (RelReturned False, env, st)
        else rootRelease_loop cfg this performDealloc variant False oldisa env st)"

definition rootRelease ::
  "rt_config \<Rightarrow> u64 \<Rightarrow> bool \<Rightarrow> RRVariant \<Rightarrow> schedule \<Rightarrow> obj_state \<Rightarrow> fault + (bool \<times> schedule \<times> obj_state)" where
  "rootRelease cfg this performDealloc variant env st =
     bindE (rootRelease_once cfg this performDealloc variant env st) (\<lambda>(out, env, st). case out of
       RelReturned r \<Rightarrow> Inr (r, env, st)
     | Underflowed \<Rightarrow> bindE (rootRelease_once cfg this performDealloc Full env st) (\<lambda>(out, env, st). case out of
         RelReturned r \<Rightarrow> Inr (r, env, st)
       | Underflowed \<Rightarrow> Inl AssertFailed))"

definition obj_release :: "rt_config \<Rightarrow> u64 \<Rightarrow> schedule \<Rightarrow> obj_state \<Rightarrow> fault + (schedule \<times> obj_state)" where
  "obj_release cfg this env st =
     (if isTaggedPointer cfg this then Inl AssertFailed
      else bindE (rootRelease cfg this True FastOrMsgSend env st) (\<lambda>(_, env, st). Inr (env, st)))"

definition rootReleaseShouldDealloc ::
  "rt_config \<Rightarrow> u64 \<Rightarrow> schedule \<Rightarrow> obj_state \<Rightarrow> fault + (bool \<times> schedule \<times> obj_state)" where
  "rootReleaseShouldDealloc cfg this env st = rootRelease cfg this False Fast env st"

section \<open>Retain count\<close>

definition rootRetainCount :: "rt_config \<Rightarrow> u64 \<Rightarrow> obj_state \<Rightarrow> fault + (u64 \<times> obj_state)" where
  "rootRetainCount cfg this st =
     (if isTaggedPointer cfg this then Inr (this, st)
      else bindE (obj_lock st) (\<lambda>st.
        let bits = isa st in
        if isa_nonpointer bits then
          bindE (if isa_has_sidetable_rc (layout cfg) bits
                 then sidetable_getExtraRC_nolock (junk cfg) this (isa st) (table st) else Inr 0) (\<lambda>side.
          bindE (obj_unlock st) (\<lambda>st. Inr (of_nat (isa_extra_rc (layout cfg) bits) + side, st)))
        else
          bindE (obj_unlock st) (\<lambda>st.
          bindE (sidetable_retainCount (junk cfg) this (table st)) (\<lambda>(t, n).
            Inr (n, st\<lparr>table := t\<rparr>)))))"

section \<open>Initialising and changing the isa\<close>

text \<open>\<open>ISA()\<close>, \<open>rawISA()\<close> and \<open>isClass()\<close>.\<close>

definition ISA :: "rt_config \<Rightarrow> u64 \<Rightarrow> obj_state \<Rightarrow> fault + u64" where
  "ISA cfg this st = (if isTaggedPointer cfg this then Inl AssertFailed else Inr (getClass (layout cfg) (isa st)))"

definition rawISA :: "rt_config \<Rightarrow> u64 \<Rightarrow> obj_state \<Rightarrow> fault + u64" where
  "rawISA cfg this st =
     (if isTaggedPointer cfg this \<or> isa_nonpointer (isa st) then Inl AssertFailed else Inr (isa st))"

definition isClass :: "rt_config \<Rightarrow> u64 \<Rightarrow> obj_state \<Rightarrow> fault + bool" where
  "isClass cfg this st =
     (if isTaggedPointer cfg this then Inr False
      else bindE (ISA cfg this st) (\<lambda>c. Inr (isMetaClass (classes cfg) c)))"

definition initIsa :: "rt_config \<Rightarrow> u64 \<Rightarrow> u64 \<Rightarrow> bool \<Rightarrow> bool \<Rightarrow> obj_state \<Rightarrow> fault + obj_state" where
  "initIsa cfg this cls nonpointer hasCxxDtor st =
     (let L = layout cfg in
      if isTaggedPointer cfg this then Inl AssertFailed
      else if \<not> nonpointer then Inr (st\<lparr>isa := setClass L (sign_cls cfg) cls this 0\<rparr>)
      else if DisableNonpointerIsa cfg then Inl AssertFailed
      else if instancesRequireRawIsa (classes cfg) cls then Inl AssertFailed
      else Inr (st\<lparr>isa := set_extra_rc L 1 (setClass L (sign_cls cfg) cls this
                            (set_has_cxx_dtor L hasCxxDtor (ISA_MAGIC_VALUE L)))\<rparr>))"

definition initClassIsa :: "rt_config \<Rightarrow> u64 \<Rightarrow> u64 \<Rightarrow> obj_state \<Rightarrow> fault + obj_state" where
  "initClassIsa cfg this cls st =
     (if DisableNonpointerIsa cfg \<or> instancesRequireRawIsa (classes cfg) cls
      then initIsa cfg this cls False False st else initIsa cfg this cls True False st)"

definition initProtocolIsa :: "rt_config \<Rightarrow> u64 \<Rightarrow> u64 \<Rightarrow> obj_state \<Rightarrow> fault + obj_state" where
  "initProtocolIsa cfg this cls st = initClassIsa cfg this cls st"

definition initInstanceIsa :: "rt_config \<Rightarrow> u64 \<Rightarrow> u64 \<Rightarrow> bool \<Rightarrow> obj_state \<Rightarrow> fault + obj_state" where
  "initInstanceIsa cfg this cls hasCxxDtor st =
     (if instancesRequireRawIsa (classes cfg) cls then Inl AssertFailed
      else if hasCxxDtor \<noteq> cls_hasCxxDtor (classes cfg) cls then Inl AssertFailed
      else initIsa cfg this cls True hasCxxDtor st)"

text \<open>\<open>newisa\<close> lives outside the loop: the branches that only set its class keep
  the other bits of the previous round.\<close>

function changeIsa_loop ::
  "rt_config \<Rightarrow> u64 \<Rightarrow> u64 \<Rightarrow> bool \<Rightarrow> u64 \<Rightarrow> u64 \<Rightarrow> schedule \<Rightarrow> obj_state \<Rightarrow> fault + (u64 \<times> schedule \<times> obj_state)" where
  "changeIsa_loop cfg this newCls sideTableLocked newisa oldisa env st = (
     let L = layout cfg;
         toNonpointer = ((oldisa = 0 \<or> isa_nonpointer oldisa) \<and> \<not> isFuture (classes cfg) newCls \<and>
           canAllocNonpointer (classes cfg) newCls);
         transcribeToSideTable = (\<not> toNonpointer \<and> isa_nonpointer oldisa)
     in bindE (if transcribeToSideTable \<and> \<not> sideTableLocked then obj_lock st else Inr st) (\<lambda>st.
        let locked = sideTableLocked \<or> transcribeToSideTable;
            newisa = (if toNonpointer then
                        set_has_cxx_dtor L (cls_hasCxxDtor (classes cfg) newCls)
                          (if oldisa = 0 then set_extra_rc L 1 (ISA_MAGIC_VALUE L) else oldisa)
                      else newisa);
            newisa = setClass L (sign_cls cfg) newCls this newisa
        in case StoreExclusive oldisa newisa env st of (stored, oldisa', env', st') \<Rightarrow>
           if \<not> stored then changeIsa_loop cfg this newCls locked newisa oldisa' env' st'
           else bindE (if transcribeToSideTable then
                         bindE (sidetable_moveExtraRC_nolock (junk cfg) this (isa st')
                                  (of_nat (isa_extra_rc L oldisa)) (isDeallocating L oldisa)
                                  (isa_weakly_referenced L oldisa) (table st'))
                           (\<lambda>t. Inr (st'\<lparr>table := t\<rparr>))
                       else Inr st') (\<lambda>st.
                bindE (if locked then obj_unlock st else Inr st) (\<lambda>st.
                  Inr (getClass L oldisa, env', st)))))"
  by pat_completeness auto
termination
  apply (relation "measures [\<lambda>(_, _, _, _, _, _, env, _). length env,
      \<lambda>(_, _, _, _, _, oldisa, _, st). if isa st = oldisa then 0 else 1]")
   apply simp
  apply (auto dest!: StoreExclusive_decreases simp: obj_lock_isa split: if_splits)
  done

declare changeIsa_loop.simps [simp del]

definition changeIsa :: "rt_config \<Rightarrow> u64 \<Rightarrow> u64 \<Rightarrow> schedule \<Rightarrow> obj_state \<Rightarrow> fault + (u64 \<times> schedule \<times> obj_state)" where
  "changeIsa cfg this newCls env st =
     (if isTaggedPointer cfg this then Inl AssertFailed
      else case LoadExclusive env st of (oldisa, env, st) \<Rightarrow>
        changeIsa_loop cfg this newCls False 0 oldisa env st)"

section \<open>Flags and deallocation\<close>

definition hasAssociatedObjects :: "rt_config \<Rightarrow> u64 \<Rightarrow> obj_state \<Rightarrow> bool" where
  "hasAssociatedObjects cfg this st =
     (if isTaggedPointer cfg this then True
      else if isa_nonpointer (isa st) then isa_has_assoc (isa st) else True)"

function setHasAssociatedObjects_loop :: "u64 \<Rightarrow> schedule \<Rightarrow> obj_state \<Rightarrow> schedule \<times> obj_state" where
  "setHasAssociatedObjects_loop oldisa env st =
     (if \<not> isa_nonpointer oldisa \<or> isa_has_assoc oldisa then (env, st)
      else case StoreExclusive oldisa (set_has_assoc True oldisa) env st of (stored, oldisa', env', st') \<Rightarrow>
        if \<not> stored then setHasAssociatedObjects_loop oldisa' env' st' else (env', st'))"
  by pat_completeness auto
termination
  by (relation "measures [\<lambda>(_, env, _). length env, \<lambda>(oldisa, _, st). if isa st = oldisa then 0 else 1]")
    (auto dest!: StoreExclusive_decreases)

declare setHasAssociatedObjects_loop.simps [simp del]

definition setHasAssociatedObjects :: "rt_config \<Rightarrow> u64 \<Rightarrow> schedule \<Rightarrow> obj_state \<Rightarrow> schedule \<times> obj_state" where
  "setHasAssociatedObjects cfg this env st =
     (if isTaggedPointer cfg this then (env, st)
      else let cls = getClass (layout cfg) (isa st);
               st = (if \<not> isa_nonpointer (isa st) \<and> hasCustomRR (classes cfg) cls \<and>
                        \<not> isFuture (classes cfg) cls \<and> \<not> isMetaClass (classes cfg) cls \<and>
                        implementsNoteAssociated (classes cfg) cls
                     then emit NoteAssociatedObjects st else st)
           in case LoadExclusive env st of (oldisa, env, st) \<Rightarrow> setHasAssociatedObjects_loop oldisa env st)"

definition isWeaklyReferenced :: "rt_config \<Rightarrow> u64 \<Rightarrow> obj_state \<Rightarrow> fault + (bool \<times> obj_state)" where
  "isWeaklyReferenced cfg this st =
     (if isTaggedPointer cfg this then Inl AssertFailed
      else if isa_nonpointer (isa st) then Inr (isa_weakly_referenced (layout cfg) (isa st), st)
      else bindE (sidetable_isWeaklyReferenced (junk cfg) this (table st)) (\<lambda>(t, b). Inr (b, st\<lparr>table := t\<rparr>)))"

function setWeaklyReferenced_loop ::
  "rt_config \<Rightarrow> u64 \<Rightarrow> u64 \<Rightarrow> schedule \<Rightarrow> obj_state \<Rightarrow> fault + (schedule \<times> obj_state)" where
  "setWeaklyReferenced_loop cfg this oldisa env st =
     (if \<not> isa_nonpointer oldisa then
        bindE (sidetable_setWeaklyReferenced_nolock (junk cfg) this (isa st) (table st)) (\<lambda>t.
          Inr (env, st\<lparr>table := t\<rparr>))
      else if isa_weakly_referenced (layout cfg) oldisa then Inr (env, st)
      else case StoreExclusive oldisa (set_weakly_referenced (layout cfg) True oldisa) env st of
        (stored, oldisa', env', st') \<Rightarrow>
          if \<not> stored then setWeaklyReferenced_loop cfg this oldisa' env' st' else Inr (env', st'))"
  by pat_completeness auto
termination
  by (relation "measures [\<lambda>(_, _, _, env, _). length env,
      \<lambda>(_, _, oldisa, _, st). if isa st = oldisa then 0 else 1]")
    (auto dest!: StoreExclusive_decreases)

declare setWeaklyReferenced_loop.simps [simp del]

definition setWeaklyReferenced_nolock ::
  "rt_config \<Rightarrow> u64 \<Rightarrow> schedule \<Rightarrow> obj_state \<Rightarrow> fault + (schedule \<times> obj_state)" where
  "setWeaklyReferenced_nolock cfg this env st =
     (case LoadExclusive env st of (oldisa, env, st) \<Rightarrow> setWeaklyReferenced_loop cfg this oldisa env st)"

definition hasCxxDtor :: "rt_config \<Rightarrow> u64 \<Rightarrow> obj_state \<Rightarrow> fault + bool" where
  "hasCxxDtor cfg this st =
     (if isTaggedPointer cfg this then Inl AssertFailed
      else if has_cxx_dtor_bit (layout cfg) \<noteq> None \<and> isa_nonpointer (isa st)
      then Inr (isa_has_cxx_dtor (layout cfg) (isa st))
      else Inr (cls_hasCxxDtor (classes cfg) (getClass (layout cfg) (isa st))))"

definition rootIsDeallocating :: "rt_config \<Rightarrow> u64 \<Rightarrow> obj_state \<Rightarrow> fault + bool" where
  "rootIsDeallocating cfg this st =
     (if isTaggedPointer cfg this then Inr False
      else if isa_nonpointer (isa st) then Inr (isDeallocating (layout cfg) (isa st))
      else sidetable_isDeallocating (junk cfg) this (table st))"

text \<open>Clearing the weak references is the call \<open>weak_clear_no_lock\<close>, recorded as an
  event.\<close>

definition clearDeallocating_slow :: "rt_config \<Rightarrow> u64 \<Rightarrow> obj_state \<Rightarrow> fault + obj_state" where
  "clearDeallocating_slow cfg this st = (
     let L = layout cfg in
     if \<not> (isa_nonpointer (isa st) \<and> (isa_weakly_referenced L (isa st) \<or> isa_has_sidetable_rc L (isa st)))
     then Inl AssertFailed
     else bindE (obj_lock st) (\<lambda>st.
       let st = (if isa_weakly_referenced L (isa st) then emit WeakClear st else st)
       in bindE (if isa_has_sidetable_rc L (isa st)
                 then bindE (dm_erase (RefcountMap (junk cfg)) (disguise this) (refcnts (table st)))
                        (\<lambda>(m, _). Inr (st\<lparr>table := (table st)\<lparr>refcnts := m\<rparr>\<rparr>))
                 else Inr st) obj_unlock))"

definition sidetable_clearDeallocating :: "rt_config \<Rightarrow> u64 \<Rightarrow> obj_state \<Rightarrow> fault + obj_state" where
  "sidetable_clearDeallocating cfg this st =
     bindE (obj_lock st) (\<lambda>st.
     bindE (refcnt_find (junk cfg) this (table st)) (\<lambda>it. bindE (case it of
         None \<Rightarrow> Inr st
       | Some (i, v) \<Rightarrow>
           let st = (if v AND SIDE_TABLE_WEAKLY_REFERENCED \<noteq> 0 then emit WeakClear st else st)
           in bindE (erase_bucket (RefcountMap (junk cfg)) i (refcnts (table st))) (\<lambda>m.
                Inr (st\<lparr>table := (table st)\<lparr>refcnts := m\<rparr>\<rparr>))) obj_unlock))"

text \<open>\<open>clearDeallocating\<close> and \<open>rootDealloc\<close> also \<open>assert\<close>, in builds without
  \<open>NDEBUG\<close>, that the side table has no entry left; that check reads only and is
  left out.\<close>

definition clearDeallocating :: "rt_config \<Rightarrow> u64 \<Rightarrow> obj_state \<Rightarrow> fault + obj_state" where
  "clearDeallocating cfg this st =
     (if \<not> isa_nonpointer (isa st) then sidetable_clearDeallocating cfg this st
      else if isa_weakly_referenced (layout cfg) (isa st) \<or> isa_has_sidetable_rc (layout cfg) (isa st)
      then clearDeallocating_slow cfg this st
      else Inr st)"

text \<open>Memory is freed at once, or by \<open>object_dispose\<close>.\<close>

definition rootDealloc :: "rt_config \<Rightarrow> u64 \<Rightarrow> obj_state \<Rightarrow> obj_state" where
  "rootDealloc cfg this st = (
     let L = layout cfg; w = isa st in
     if isTaggedPointer cfg this then st
     else if isa_nonpointer w \<and> \<not> isa_weakly_referenced L w \<and> \<not> isa_has_assoc w \<and>
             \<not> (if has_cxx_dtor_bit L \<noteq> None then isa_has_cxx_dtor L w
                else cls_hasCxxDtor (classes cfg) (getClass L w)) \<and>
             \<not> isa_has_sidetable_rc L w
     then emit CallFree st else emit CallObjectDispose st)"

end
