(* ===== verification/ObjcObject_Correct.thy ===== *)
theory ObjcObject_Correct
  imports ObjcObject
begin

text \<open>
  Correctness of retain, release and retainCount for an object with a
  nonpointer isa, in the presence of other threads.  The retain count of an
  object is its inline count plus the count in the side table.  Every
  operation takes effect at one point: there is a state that the other
  threads' steps reach from the initial one, and the operation changes the
  count of that state by one.  Along the way no assertion fails, the side
  table's lock is free again at the end, and nothing else of the object and no
  other object's count changes.
\<close>

section \<open>Invariant and effect\<close>

definition retain_count :: "rt_config \<Rightarrow> u64 \<Rightarrow> obj_state \<Rightarrow> nat" where
  "retain_count cfg this st =
     isa_extra_rc (layout cfg) (isa st) + unat (rc_word (junk cfg) (table st) this) div 4"

text \<open>Counts move to the side table in portions of \<open>RC_HALF\<close>, and
  \<open>has_sidetable_rc\<close> tells whether any are there.\<close>

definition obj_wf :: "rt_config \<Rightarrow> u64 \<Rightarrow> obj_state \<Rightarrow> bool" where
  "obj_wf cfg this st \<longleftrightarrow> valid_object this \<and> \<not> isTaggedPointer cfg this \<and> table_ok (junk cfg) (table st) \<and>
     isa_nonpointer (isa st) \<and> 4 * RC_HALF (layout cfg) dvd unat (rc_word (junk cfg) (table st) this) \<and>
     (isa_has_sidetable_rc (layout cfg) (isa st) \<longleftrightarrow> rc_word (junk cfg) (table st) this \<noteq> 0)"

text \<open>Room for one more portion: the counts stay far below the pinned bit, and
  the table can still grow.\<close>

definition obj_room :: "rt_config \<Rightarrow> u64 \<Rightarrow> obj_state \<Rightarrow> bool" where
  "obj_room cfg this st \<longleftrightarrow> table_room (table st) \<and> unat (rc_word (junk cfg) (table st) this) < 2 ^ 62"

definition obj_inv :: "rt_config \<Rightarrow> u64 \<Rightarrow> obj_state \<Rightarrow> bool" where
  "obj_inv cfg this st \<longleftrightarrow> obj_wf cfg this st \<and> obj_room cfg this st"

text \<open>What an operation on the count of \<open>this\<close> leaves alone.\<close>

definition rest_kept :: "rt_config \<Rightarrow> u64 \<Rightarrow> obj_state \<Rightarrow> obj_state \<Rightarrow> bool" where
  "rest_kept cfg this st st' \<longleftrightarrow> slock (table st') = slock (table st) \<and>
     (\<forall>obj. obj \<noteq> this \<longrightarrow> rc_word (junk cfg) (table st') obj = rc_word (junk cfg) (table st) obj) \<and>
     getClass (layout cfg) (isa st') = getClass (layout cfg) (isa st) \<and>
     isa_weakly_referenced (layout cfg) (isa st') = isa_weakly_referenced (layout cfg) (isa st) \<and>
     isa_has_assoc (isa st') = isa_has_assoc (isa st)"

definition retained :: "rt_config \<Rightarrow> u64 \<Rightarrow> obj_state \<Rightarrow> obj_state \<Rightarrow> bool" where
  "retained cfg this st st' \<longleftrightarrow> obj_wf cfg this st' \<and> rest_kept cfg this st st' \<and> events st' = events st \<and>
     retain_count cfg this st' = retain_count cfg this st + 1"

text \<open>The effect at the point where retain happens: an object that is being
  deallocated stays as it is.\<close>

definition retain_effect :: "rt_config \<Rightarrow> u64 \<Rightarrow> obj_state \<Rightarrow> obj_state \<Rightarrow> bool" where
  "retain_effect cfg this st st' \<longleftrightarrow>
     (if isDeallocating (layout cfg) (isa st) then st' = st else retained cfg this st st')"

text \<open>Release: the answer says whether the count came to zero, and then the object
  is sent \<open>-dealloc\<close> if that was asked for.\<close>

definition released :: "rt_config \<Rightarrow> u64 \<Rightarrow> bool \<Rightarrow> bool \<Rightarrow> obj_state \<Rightarrow> obj_state \<Rightarrow> bool" where
  "released cfg this performDealloc answer st st' \<longleftrightarrow> obj_wf cfg this st' \<and> rest_kept cfg this st st' \<and>
     retain_count cfg this st = retain_count cfg this st' + 1 \<and> (answer \<longleftrightarrow> retain_count cfg this st' = 0) \<and>
     events st' = events st @ (if answer \<and> performDealloc then [MsgDealloc] else [])"

definition release_effect :: "rt_config \<Rightarrow> u64 \<Rightarrow> bool \<Rightarrow> bool \<Rightarrow> obj_state \<Rightarrow> obj_state \<Rightarrow> bool" where
  "release_effect cfg this performDealloc answer st st' \<longleftrightarrow>
     (if isDeallocating (layout cfg) (isa st) then \<not> answer \<and> st' = st
      else released cfg this performDealloc answer st st')"

section \<open>Other threads\<close>

definition set_lock :: "bool \<Rightarrow> obj_state \<Rightarrow> obj_state" where
  "set_lock b st = st\<lparr>table := (table st)\<lparr>slock := b\<rparr>\<rparr>"

lemma set_lock_simps [simp]:
  "isa (set_lock b st) = isa st" "events (set_lock b st) = events st"
  "slock (table (set_lock b st)) = b" "refcnts (table (set_lock b st)) = refcnts (table st)"
  "set_lock b (set_lock c st) = set_lock b st" "set_lock (slock (table st)) st = st"
  "rc_word j (table (set_lock b st)) = rc_word j (table st)"
  "obj_wf cfg this (set_lock b st) = obj_wf cfg this st"
  "obj_room cfg this (set_lock b st) = obj_room cfg this st"
  "obj_inv cfg this (set_lock b st) = obj_inv cfg this st"
  "retain_count cfg this (set_lock b st) = retain_count cfg this st"
  "isa_update f (set_lock b st) = set_lock b (isa_update f st)"
  by (simp_all add: set_lock_def obj_wf_def obj_room_def obj_inv_def retain_count_def)

text \<open>What is relied on: while the lock is free other threads keep the
  invariant, and while this thread holds it they leave the isa nonpointer and
  do not move counts between the isa and the table.\<close>

definition keeps_object :: "rt_config \<Rightarrow> u64 \<Rightarrow> interference \<Rightarrow> bool" where
  "keeps_object cfg this x \<longleftrightarrow>
     (\<forall>st. obj_inv cfg this st \<longrightarrow> \<not> slock (table st) \<longrightarrow> obj_inv cfg this (other_threads x st)) \<and>
     (\<forall>st. isa_nonpointer (isa st) \<longrightarrow> slock (table st) \<longrightarrow> isa_nonpointer (isa (other_threads x st)) \<and>
       isa_has_sidetable_rc (layout cfg) (isa (other_threads x st)) = isa_has_sidetable_rc (layout cfg) (isa st))"

text \<open>The states other threads reach, as seen without this thread's lock.\<close>

inductive env_reach :: "interference set \<Rightarrow> obj_state \<Rightarrow> obj_state \<Rightarrow> bool" for X where
  env_refl: "env_reach X st st"
| env_step: "env_reach X st s \<Longrightarrow> x \<in> X \<Longrightarrow> env_reach X st (set_lock False (other_threads x (set_lock b s)))"

lemma env_reach_trans: "env_reach X st s \<Longrightarrow> env_reach X r st \<Longrightarrow> env_reach X r s"
  by (induction rule: env_reach.induct) (auto intro: env_reach.intros)

lemma env_reach_mono: "env_reach X st s \<Longrightarrow> X \<subseteq> Y \<Longrightarrow> env_reach Y st s"
  by (induction rule: env_reach.induct) (auto intro: env_reach.intros)

lemma env_reach_unlocked: "env_reach X st s \<Longrightarrow> \<not> slock (table st) \<Longrightarrow> \<not> slock (table s)"
  by (induction rule: env_reach.induct) auto

text \<open>One access to the isa: what the other threads may do before it.\<close>

definition acts :: "interference set \<Rightarrow> obj_state \<Rightarrow> obj_state \<Rightarrow> bool" where
  "acts X st s \<longleftrightarrow> s = st \<or> (\<exists>x\<in>X. s = other_threads x st)"

lemma other_threads_fixed [simp]:
  "slock (table (other_threads x st)) = slock (table st)" "events (other_threads x st) = events st"
  "slock (table st) \<Longrightarrow> table (other_threads x st) = table st"
  by (cases x; simp split: prod.splits)+

lemma acts_fixed:
  assumes "acts X st s"
  shows "slock (table s) = slock (table st)" "slock (table st) \<Longrightarrow> table s = table st" "events s = events st"
  using assms by (auto simp: acts_def)

lemma acts_reach:
  assumes "acts X st s"
  shows "env_reach X (set_lock False st) (set_lock False s)"
proof -
  have "env_reach X (set_lock False st) (set_lock False (other_threads x st))" if "x \<in> X" for x
    using env_step [OF env_refl that, of "set_lock False st" "slock (table st)"] by simp
  then show ?thesis using assms by (auto simp: acts_def intro: env_refl)
qed

lemma acts_inv:
  assumes "acts X st s" "obj_inv cfg this st" "\<forall>x\<in>X. keeps_object cfg this x"
  shows "obj_inv cfg this s"
proof (cases "s = st")
  case False
  then obtain x where x: "x \<in> X" "s = other_threads x st" using assms(1) by (auto simp: acts_def)
  show ?thesis
  proof (cases "slock (table st)")
    case True
    then have "isa_nonpointer (isa s)"
      "isa_has_sidetable_rc (layout cfg) (isa s) = isa_has_sidetable_rc (layout cfg) (isa st)" "table s = table st"
      using assms(2) bspec [OF assms(3) x(1)] x(2) by (auto simp: keeps_object_def obj_inv_def obj_wf_def)
    then show ?thesis using assms(2) by (simp add: obj_inv_def obj_wf_def obj_room_def)
  qed (use assms(2) bspec [OF assms(3) x(1)] x(2) in \<open>simp add: keeps_object_def\<close>)
qed (use assms(2) in simp)

lemma StoreExclusive_acts:
  assumes "isa st = old"
  obtains (stored) s env' where "StoreExclusive old new env st = (True, old, env', s\<lparr>isa := new\<rparr>)"
      "isa s = old" "acts (set env) st s" "set env' \<subseteq> set env"
  | (failed) s env' where "StoreExclusive old new env st = (False, isa s, env', s)"
      "acts (set env) st s" "set env' \<subseteq> set env" "length env' < length env"
proof (cases env)
  case Nil
  then show ?thesis using stored [of "[]" st] assms by (simp add: compare_store_def acts_def)
next
  case (Cons x env1)
  show ?thesis
  proof (cases "x = Spurious")
    case True
    then show ?thesis using failed [of st env1] Cons by (auto simp: acts_def)
  next
    case False
    have a: "acts (set env) st (other_threads x st)" using Cons by (auto simp: acts_def)
    have e: "StoreExclusive old new env st =
        (let (b, o', st') = compare_store old new (other_threads x st) in (b, o', env1, st'))"
      using False Cons by (cases x) auto
    show ?thesis
    proof (cases "isa (other_threads x st) = old")
      case True
      then show ?thesis using stored [of env1 "other_threads x st"] e a Cons by (auto simp: compare_store_def)
    qed (use failed [of "other_threads x st" env1] e a Cons in \<open>auto simp: compare_store_def\<close>)
  qed
qed

text \<open>Several accesses while the lock is held, and the same ones on a state that
  differs in the locked table.\<close>

lemma actss_fixed:
  assumes "(acts X)\<^sup>*\<^sup>* st s"
  shows "slock (table s) = slock (table st) \<and> (slock (table st) \<longrightarrow> table s = table st) \<and> events s = events st"
  using assms by (induction rule: rtranclp_induct) (auto dest: acts_fixed)

lemma actss_reach: "(acts X)\<^sup>*\<^sup>* st s \<Longrightarrow> env_reach X (set_lock False st) (set_lock False s)"
  by (induction rule: rtranclp_induct) (auto intro: env_refl env_reach_trans dest: acts_reach)

lemma actss_inv:
  "(acts X)\<^sup>*\<^sup>* st s \<Longrightarrow> obj_inv cfg this st \<Longrightarrow> \<forall>x\<in>X. keeps_object cfg this x \<Longrightarrow> obj_inv cfg this s"
  by (induction rule: rtranclp_induct) (auto intro: acts_inv)

lemma actss_table:
  assumes "(acts X)\<^sup>*\<^sup>* (st\<lparr>table := t\<rparr>) s" "slock t" "slock (table st)"
  shows "\<exists>s0. (acts X)\<^sup>*\<^sup>* st s0 \<and> s = s0\<lparr>table := t\<rparr>"
  using assms(1)
proof (induction rule: rtranclp_induct)
  case (step r s)
  then obtain r0 where r0: "(acts X)\<^sup>*\<^sup>* st r0" "r = r0\<lparr>table := t\<rparr>" by blast
  have lk: "slock (table r0)" using actss_fixed [OF r0(1)] assms(3) by simp
  have "other_threads x (r0\<lparr>table := t\<rparr>) = (other_threads x r0)\<lparr>table := t\<rparr>" for x
    using lk assms(2) by (cases x) simp_all
  then obtain s0 where "acts X r0 s0" "s = s0\<lparr>table := t\<rparr>" using step(2) unfolding acts_def r0(2) by blast
  then show ?case using r0(1) rtranclp.rtrancl_into_rtrancl by metis
qed (auto intro: exI [of _ st])

lemma actss_nonpointer:
  assumes "(acts X)\<^sup>*\<^sup>* st s" "slock (table st)" "isa_nonpointer (isa st)" "\<forall>x\<in>X. keeps_object cfg this x"
  shows "isa_nonpointer (isa s) \<and>
    isa_has_sidetable_rc (layout cfg) (isa s) = isa_has_sidetable_rc (layout cfg) (isa st)"
  using assms(1)
proof (induction rule: rtranclp_induct)
  case (step r s)
  have "slock (table r)" using actss_fixed [OF step(1)] assms(2) by simp
  then show ?case using step(2,3) assms(4) by (auto simp: acts_def keeps_object_def)
qed (use assms(3) in simp)

lemma LoadExclusive_acts:
  obtains s env' where "LoadExclusive env st = (isa s, env', s)" "acts (set env) st s" "set env' \<subseteq> set env"
    "length env' \<le> length env"
proof (cases env)
  case Nil
  then show ?thesis using that [of st "[]"] by (simp add: acts_def)
next
  case (Cons x env1)
  then show ?thesis using that [of "other_threads x st" env1] by (auto simp: acts_def Let_def)
qed

section \<open>Retain\<close>

lemma obj_lock_eq: "\<not> slock (table st) \<Longrightarrow> obj_lock st = Inr (set_lock True st)"
  by (simp add: obj_lock_def sidetable_lock_def set_lock_def)

lemma obj_unlock_eq: "slock (table st) \<Longrightarrow> obj_unlock st = Inr (set_lock False st)"
  by (simp add: obj_unlock_def sidetable_unlock_def set_lock_def)

locale counted_object = packed_isa "layout cfg" for cfg :: rt_config
begin

lemma deallocating_iff:
  assumes "obj_wf cfg this st"
  shows "isDeallocating (layout cfg) (isa st) \<longleftrightarrow> retain_count cfg this st = 0"
proof -
  have "4 dvd unat (rc_word (junk cfg) (table st) this)" using assms dvd_mult_left by (auto simp: obj_wf_def)
  then have "unat (rc_word (junk cfg) (table st) this) div 4 = 0 \<longleftrightarrow> rc_word (junk cfg) (table st) this = 0"
    by (auto simp: unat_eq_0 elim!: dvdE)
  then show ?thesis using assms by (auto simp: isDeallocating_def retain_count_def obj_wf_def)
qed

lemma rc_half_small: "RC_HALF (layout cfg) \<le> 2 ^ 59"
  unfolding rc_half using rc_top side_below cls_below by (intro power_increasing) auto

lemma unat_rc_half [simp]: "unat (of_nat (RC_HALF (layout cfg)) :: u64) = RC_HALF (layout cfg)"
  using rc_half_small by (intro unat_of_nat_u64) simp

lemma retained_inline:
  assumes "obj_wf cfg this s" "addc (isa s) (RC_ONE (layout cfg)) 0 = (v, False)"
  shows "retained cfg this s (s\<lparr>isa := v\<rparr>)"
proof -
  note a = addc_one [OF assms(2)]
  note f = low_fields [OF addc_one_low [OF assms(2)]]
  show ?thesis using assms(1) a f by (simp add: retained_def obj_wf_def rest_kept_def retain_count_def)
qed

text \<open>The inline count is full: half of it stays, half goes to the table.\<close>

lemma retained_overflow:
  assumes "obj_inv cfg this s" "addc (isa s) (RC_ONE (layout cfg)) 0 = (v, True)"
    and new: "new = set_has_sidetable_rc (layout cfg) True (set_extra_rc (layout cfg) (RC_HALF (layout cfg)) v)"
  shows "\<exists>t b. sidetable_addExtraRC_nolock (junk cfg) this new (of_nat (RC_HALF (layout cfg))) (table s) = Inr (t, b) \<and>
    retained cfg this s (s\<lparr>isa := new, table := t\<rparr>)"
proof -
  let ?L = "layout cfg" and ?w = "rc_word (junk cfg) (table s) this"
  have wf: "obj_wf cfg this s" and room: "obj_room cfg this s" using assms(1) by (auto simp: obj_inv_def)
  note f = low_fields [OF addc_one_low [OF assms(2)]]
  have np: "isa_nonpointer new" using wf f by (simp add: new obj_wf_def)
  obtain c where c: "unat ?w = 4 * RC_HALF ?L * c" using wf by (auto simp: obj_wf_def elim: dvdE)
  have small: "unat ?w + 4 * RC_HALF ?L < 2 ^ 63" using room rc_half_small by (simp add: obj_room_def)
  obtain t u where t: "sidetable_addExtraRC_nolock (junk cfg) this new (of_nat (RC_HALF ?L)) (table s) = Inr (t, False)"
    "word_set (junk cfg) (table s) this u t" "unat u = unat ?w + 4 * RC_HALF ?L"
    using addExtraRC_spec [OF np, of "junk cfg" "table s" this "of_nat (RC_HALF ?L)"] wf room small c
    by (auto simp: obj_wf_def obj_room_def)
  have "isa_extra_rc ?L new = RC_HALF ?L" unfolding new using rc_half_bounds(3) by (simp add: set_extra_rc_get)
  moreover have "isa_extra_rc ?L (isa s) + 1 = 2 * RC_HALF ?L" using addc_one(1) [OF assms(2)] rc_half_bounds(2) by simp
  moreover have "u \<noteq> 0" "4 * RC_HALF ?L dvd unat u" using t(3) c rc_half_bounds(1) by auto
  moreover have "unat u div 4 = unat ?w div 4 + RC_HALF ?L" using t(3) c by simp
  ultimately have "retained cfg this s (s\<lparr>isa := new, table := t\<rparr>)"
    using wf t(2) np f by (simp add: retained_def obj_wf_def rest_kept_def retain_count_def word_set_def new)
  then show ?thesis using t(1) by blast
qed

lemma retained_set_lock: "retained cfg this s s' \<Longrightarrow> retained cfg this (set_lock b s) (set_lock b s')"
  by (simp add: retained_def rest_kept_def)

lemma set_lock_False_id: "\<not> slock (table st) \<Longrightarrow> set_lock False st = st"
  using set_lock_simps(6) [of st] by simp

text \<open>Release of the lock at the end of an operation.\<close>

lemma finish_unlock:
  assumes "slock (table st) = locked"
  shows "(if locked then obj_unlock st else Inr st) = Inr (set_lock False st)"
  using assms by (simp add: obj_unlock_eq set_lock_False_id)

lemma take_lock:
  assumes "slock (table st) = locked"
  shows "(if carry \<and> \<not> locked then obj_lock st else Inr st) = Inr (set_lock (locked \<or> carry) st)"
proof (cases "carry \<and> \<not> locked")
  case True
  then show ?thesis using assms by (simp add: obj_lock_eq)
next
  case False
  then have "set_lock (locked \<or> carry) st = st" using assms set_lock_simps(6) [of st] by auto
  then show ?thesis using False by auto
qed

lemma rootRetain_full:
  assumes "isa st = oldisa" "slock (table st) = locked" "obj_inv cfg this st"
    "\<forall>x\<in>set env. keeps_object cfg this x"
  shows "\<exists>env' st1 st'. rootRetain_loop cfg this False Full locked oldisa env st = Inr (Returned this, env', st') \<and>
    env_reach (set env) (set_lock False st) st1 \<and> obj_inv cfg this st1 \<and> retain_effect cfg this st1 st'"
  using assms
proof (induction "length env" arbitrary: env st oldisa locked rule: less_induct)
  case less
  let ?L = "layout cfg"
  have np: "isa_nonpointer oldisa" using less.prems(1,3) by (auto simp: obj_inv_def obj_wf_def)
  obtain v carry where a: "addc oldisa (RC_ONE ?L) 0 = (v, carry)" by fastforce
  let ?new = "if carry then set_has_sidetable_rc ?L True (set_extra_rc ?L (RC_HALF ?L) v) else v"
  let ?locked = "locked \<or> carry"
  let ?st = "set_lock ?locked st"
  show ?case
  proof (cases "isDeallocating ?L oldisa")
    case True
    have "rootRetain_loop cfg this False Full locked oldisa env st = Inr (Returned this, env, set_lock False st)"
      using np True finish_unlock [OF less.prems(2)] by (cases locked) (simp_all add: rootRetain_loop.simps)
    then show ?thesis using True less.prems(1,3) env_refl by (auto simp: retain_effect_def intro!: exI)
  next
    case False
    have loop: "rootRetain_loop cfg this False Full locked oldisa env st =
      (case StoreExclusive oldisa ?new env ?st of (stored, oldisa', env', st') \<Rightarrow>
         if \<not> stored then rootRetain_loop cfg this False Full ?locked oldisa' env' st'
         else bindE (if carry then
                bindE (sidetable_addExtraRC_nolock (junk cfg) this (isa st') (of_nat (RC_HALF ?L)) (table st'))
                  (\<lambda>(t, _). Inr (st'\<lparr>table := t\<rparr>))
              else Inr st') (\<lambda>st. bindE (if ?locked then obj_unlock st else Inr st) (\<lambda>st.
                Inr (Returned this, env', st))))"
      using np False take_lock [OF less.prems(2), of carry]
      by (subst rootRetain_loop.simps) (simp add: a Let_def cong: if_cong prod.case_cong)
    have "isa ?st = oldisa" using less.prems(1) by simp
    then show ?thesis
    proof (cases rule: StoreExclusive_acts [where new = ?new and env = env])
      case (stored s env')
      have inv: "obj_inv cfg this s" using acts_inv [OF stored(3)] less.prems(3,4) by simp
      have lk: "slock (table s) = ?locked" using acts_fixed(1) [OF stored(3)] by simp
      have reach: "env_reach (set env) (set_lock False st) (set_lock False s)"
        using acts_reach [OF stored(3)] by simp
      have nd: "\<not> isDeallocating ?L (isa s)" using False stored(2) by simp
      have "\<exists>s'. rootRetain_loop cfg this False Full locked oldisa env st = Inr (Returned this, env', set_lock False s') \<and>
        retained cfg this s s'"
      proof (cases carry)
        case True
        with a stored(2) have "addc (isa s) (RC_ONE ?L) 0 = (v, True)" by simp
        from retained_overflow [OF inv this refl] obtain t b where
          t: "sidetable_addExtraRC_nolock (junk cfg) this ?new (of_nat (RC_HALF ?L)) (table s) = Inr (t, b)"
          "retained cfg this s (s\<lparr>isa := ?new, table := t\<rparr>)" using True by auto
        have "slock t" using t(2) lk True by (simp add: retained_def rest_kept_def)
        then show ?thesis unfolding loop stored(1) using t True by (auto simp: obj_unlock_eq)
      next
        case False
        then have "retained cfg this s (s\<lparr>isa := v\<rparr>)"
          using retained_inline a stored(2) inv by (simp add: obj_inv_def)
        then show ?thesis unfolding loop stored(1)
          using False finish_unlock [of "s\<lparr>isa := v\<rparr>" locked] lk
          by (intro exI [of _ "s\<lparr>isa := v\<rparr>"]) (cases locked; simp)
      qed
      then show ?thesis using reach inv nd retained_set_lock
        by (metis retain_effect_def set_lock_simps(1) set_lock_simps(10))
    next
      case (failed s env')
      have inv: "obj_inv cfg this s" using acts_inv [OF failed(2)] less.prems(3,4) by simp
      have lk: "slock (table s) = ?locked" using acts_fixed(1) [OF failed(2)] by simp
      from less.hyps [OF failed(4) refl lk inv] less.prems(4) failed(3) obtain env'' st1 st' where
        r: "rootRetain_loop cfg this False Full ?locked (isa s) env' s = Inr (Returned this, env'', st')"
        "env_reach (set env') (set_lock False s) st1" "obj_inv cfg this st1" "retain_effect cfg this st1 st'" by blast
      have "env_reach (set env) (set_lock False st) (set_lock False s)" using acts_reach [OF failed(2)] by simp
      then have "env_reach (set env) (set_lock False st) st1"
        using env_reach_trans env_reach_mono [OF r(2) failed(3)] by blast
      then show ?thesis unfolding loop failed(1) using r by auto
    qed
  qed
qed

lemma rootRetain_fast:
  assumes "isa st = oldisa" "\<not> slock (table st)" "obj_inv cfg this st"
    "\<forall>x\<in>set env. keeps_object cfg this x" "variant \<noteq> Full"
  shows "(\<exists>env' st1 st'. rootRetain_loop cfg this False variant False oldisa env st = Inr (Returned this, env', st') \<and>
      env_reach (set env) st st1 \<and> obj_inv cfg this st1 \<and> retain_effect cfg this st1 st') \<or>
    (\<exists>env' st'. rootRetain_loop cfg this False variant False oldisa env st = Inr (Overflowed, env', st') \<and>
      set env' \<subseteq> set env \<and> env_reach (set env) st st' \<and> obj_inv cfg this st')"
  using assms(1-4)
proof (induction "length env" arbitrary: env st oldisa rule: less_induct)
  case less
  let ?L = "layout cfg"
  have np: "isa_nonpointer oldisa" using less.prems(1,3) by (auto simp: obj_inv_def obj_wf_def)
  obtain v carry where a: "addc oldisa (RC_ONE ?L) 0 = (v, carry)" by fastforce
  consider (dealloc) "isDeallocating ?L oldisa" | (carry) "\<not> isDeallocating ?L oldisa" carry
    | (attempt) "\<not> isDeallocating ?L oldisa" "\<not> carry" by blast
  then show ?case
  proof cases
    case dealloc
    then have "rootRetain_loop cfg this False variant False oldisa env st = Inr (Returned this, env, st)"
      using np by (simp add: rootRetain_loop.simps)
    then show ?thesis using dealloc less.prems(1,3) env_refl by (auto simp: retain_effect_def)
  next
    case carry
    then have "rootRetain_loop cfg this False variant False oldisa env st = Inr (Overflowed, env, st)"
      using np a assms(5) by (simp add: rootRetain_loop.simps)
    then show ?thesis using less.prems(3) env_refl by blast
  next
    case attempt
    have loop: "rootRetain_loop cfg this False variant False oldisa env st =
      (case StoreExclusive oldisa v env st of (stored, oldisa', env', st') \<Rightarrow>
         if \<not> stored then rootRetain_loop cfg this False variant False oldisa' env' st'
         else Inr (Returned this, env', st'))"
      using np attempt assms(5) by (subst rootRetain_loop.simps) (simp add: a Let_def cong: if_cong prod.case_cong)
    show ?thesis
    proof (cases rule: StoreExclusive_acts [OF less.prems(1), where new = v and env = env])
      case (1 s env')
      have "obj_inv cfg this s" using acts_inv [OF 1(3)] less.prems(3,4) by simp
      moreover from this have "retained cfg this s (s\<lparr>isa := v\<rparr>)"
        using retained_inline a 1(2) attempt(2) by (simp add: obj_inv_def)
      moreover have "env_reach (set env) st s"
        using acts_reach [OF 1(3)] acts_fixed(1) [OF 1(3)] less.prems(2) by (simp add: set_lock_False_id)
      ultimately show ?thesis unfolding loop 1(1) using attempt(1) 1(2) by (auto simp: retain_effect_def)
    next
      case (2 s env')
      have inv: "obj_inv cfg this s" using acts_inv [OF 2(2)] less.prems(3,4) by simp
      have lk: "\<not> slock (table s)" using acts_fixed(1) [OF 2(2)] less.prems(2) by simp
      have "env_reach (set env) st s" using acts_reach [OF 2(2)] lk less.prems(2) by (simp add: set_lock_False_id)
      then have reach: "env_reach (set env') s r \<Longrightarrow> env_reach (set env) st r" for r
        using env_reach_trans env_reach_mono [OF _ 2(3)] by blast
      have "\<forall>x\<in>set env'. keeps_object cfg this x" using less.prems(4) 2(3) by blast
      from less.hyps [OF 2(4) refl lk inv this] show ?thesis unfolding loop 2(1)
      proof (elim disjE exE conjE, goal_cases)
        case (1 env'' st1 st')
        then show ?case using reach by auto
      next
        case (2 env'' st')
        then show ?case using reach \<open>set env' \<subseteq> set env\<close> by auto
      qed
    qed
  qed
qed

text \<open>The whole of retain, where the class does not override it.\<close>

lemma rootRetain_once_enters:
  assumes "obj_inv cfg this st" "\<not> slock (table st)" "\<forall>x\<in>set env. keeps_object cfg this x"
    "variant = FastOrMsgSend \<Longrightarrow> \<forall>c. \<not> hasCustomRR (classes cfg) c"
  obtains s env' where "rootRetain_once cfg this tryRetain variant env st =
      rootRetain_loop cfg this tryRetain variant False (isa s) env' s"
    "obj_inv cfg this s" "\<not> slock (table s)" "env_reach (set env) st s" "set env' \<subseteq> set env"
proof -
  obtain s env' where l: "LoadExclusive env st = (isa s, env', s)" "acts (set env) st s" "set env' \<subseteq> set env"
    by (rule LoadExclusive_acts)
  have inv: "obj_inv cfg this s" using acts_inv [OF l(2)] assms(1,3) by simp
  have lk: "\<not> slock (table s)" using acts_fixed(1) [OF l(2)] assms(2) by simp
  have "env_reach (set env) st s" using acts_reach [OF l(2)] lk assms(2) by (simp add: set_lock_False_id)
  moreover have "rootRetain_once cfg this tryRetain variant env st =
      rootRetain_loop cfg this tryRetain variant False (isa s) env' s"
    using inv assms(4) by (auto simp: rootRetain_once_def l(1) obj_inv_def obj_wf_def Let_def)
  ultimately show ?thesis using that inv lk l(3) by blast
qed

lemma rootRetain_correct:
  assumes "obj_inv cfg this st" "\<not> slock (table st)" "\<forall>x\<in>set env. keeps_object cfg this x"
    "variant = FastOrMsgSend \<Longrightarrow> \<forall>c. \<not> hasCustomRR (classes cfg) c"
  shows "\<exists>env' st1 st'. rootRetain cfg this False variant env st = Inr (this, env', st') \<and>
    env_reach (set env) st st1 \<and> obj_inv cfg this st1 \<and> retain_effect cfg this st1 st'"
proof -
  have full: "\<exists>env' st1 st'. rootRetain_once cfg this False Full env s = Inr (Returned this, env', st') \<and>
    env_reach (set env) s st1 \<and> obj_inv cfg this st1 \<and> retain_effect cfg this st1 st'"
    if s: "obj_inv cfg this s" "\<not> slock (table s)" "\<forall>x\<in>set env. keeps_object cfg this x" for s env
  proof -
    obtain r env' where r: "rootRetain_once cfg this False Full env s =
        rootRetain_loop cfg this False Full False (isa r) env' r"
      "obj_inv cfg this r" "\<not> slock (table r)" "env_reach (set env) s r" "set env' \<subseteq> set env"
      using rootRetain_once_enters [OF s] by blast
    have "\<forall>x\<in>set env'. keeps_object cfg this x" using s(3) r(5) by blast
    from rootRetain_full [OF refl _ r(2) this, of False] r(3) show ?thesis
      unfolding r(1) using env_reach_trans [OF _ r(4)] env_reach_mono [OF _ r(5)]
      by (simp add: set_lock_False_id) blast
  qed
  obtain s env' where s: "rootRetain_once cfg this False variant env st =
      rootRetain_loop cfg this False variant False (isa s) env' s"
    "obj_inv cfg this s" "\<not> slock (table s)" "env_reach (set env) st s" "set env' \<subseteq> set env"
    using rootRetain_once_enters [OF assms] by blast
  show ?thesis
  proof (cases "variant = Full")
    case True
    then show ?thesis using full [OF assms(1-3)] by (auto simp: rootRetain_def)
  next
    case False
    have keeps: "\<forall>x\<in>set env'. keeps_object cfg this x" using assms(3) s(5) by blast
    have reach: "env_reach (set env') s r \<Longrightarrow> env_reach (set env) st r" for r
      using env_reach_trans [OF _ s(4)] env_reach_mono [OF _ s(5)] by blast
    from rootRetain_fast [OF refl s(3,2) keeps False] show ?thesis
    proof (elim disjE exE conjE, goal_cases)
      case (1 env'' st1 st')
      then show ?case using reach by (auto simp: rootRetain_def s(1))
    next
      case (2 env'' r)
      have r: "obj_inv cfg this r" "\<not> slock (table r)" "\<forall>x\<in>set env''. keeps_object cfg this x"
        using 2 env_reach_unlocked [OF _ s(3)] keeps by auto
      have "env_reach (set env) st q" if "env_reach (set env'') r q" for q
        using env_reach_mono [OF that, of "set env"] 2(2) s(5) env_reach_trans [OF _ reach [OF 2(3)]] by blast
      then show ?case using full [OF r] 2(1) by (fastforce simp: rootRetain_def s(1))
    qed
  qed
qed

text \<open>Release within the inline count.\<close>

lemma released_inline:
  assumes "obj_wf cfg this s" "subc (isa s) (RC_ONE (layout cfg)) 0 = (v, False)"
    "answer = isDeallocating (layout cfg) v"
  shows "released cfg this pd answer s (if answer \<and> pd then emit MsgDealloc (s\<lparr>isa := v\<rparr>) else s\<lparr>isa := v\<rparr>)"
proof -
  let ?s = "s\<lparr>isa := v\<rparr>"
  note a = subc_one [OF assms(2)]
  note f = low_fields [OF a(3) [simplified]]
  have wf: "obj_wf cfg this ?s" using assms(1) f by (simp add: obj_wf_def)
  then have "answer \<longleftrightarrow> retain_count cfg this ?s = 0" using deallocating_iff [OF wf] assms(3) by simp
  then show ?thesis using wf a(2) f
    by (simp add: released_def rest_kept_def retain_count_def obj_wf_def emit_def)
qed

lemma rootRelease_deallocate_eq:
  assumes "isDeallocating (layout cfg) n" "isDeallocating (layout cfg) (isa st)" "slock (table st) = locked"
  shows "rootRelease_deallocate cfg pd locked n env st =
    Inr (RelReturned True, env, if pd then emit MsgDealloc (set_lock False st) else set_lock False st)"
  using assms by (cases locked) (simp_all add: rootRelease_deallocate_def obj_unlock_eq set_lock_False_id)

text \<open>Release that borrows from the side table.\<close>

lemma released_borrow:
  assumes "obj_inv cfg this g" "word_set (junk cfg) (table g) this v t"
    "unat (rc_word (junk cfg) (table g) this) = unat v + 4 * RC_HALF (layout cfg)"
    "isa_extra_rc (layout cfg) new + 1 = isa_extra_rc (layout cfg) (isa g) + RC_HALF (layout cfg)"
    "isa_has_sidetable_rc (layout cfg) new \<longleftrightarrow> v \<noteq> 0" "isa_nonpointer new"
    "getClass (layout cfg) new = getClass (layout cfg) (isa g)" "isa_has_assoc new = isa_has_assoc (isa g)"
    "isa_weakly_referenced (layout cfg) new = isa_weakly_referenced (layout cfg) (isa g)"
    "if v = 0 then word_set (junk cfg) t this 0 t2 else t2 = t"
  shows "released cfg this pd False g (g\<lparr>isa := new, table := t2\<rparr>)"
proof -
  let ?w = "rc_word (junk cfg) (table g) this" and ?H = "RC_HALF (layout cfg)"
  have t2: "table_ok (junk cfg) t2" "slock t2 = slock (table g)"
    "rc_word (junk cfg) t2 = (rc_word (junk cfg) (table g))(this := v)"
    using assms(2,10) by (auto simp: word_set_def split: if_splits)
  obtain c where c: "unat ?w = 4 * ?H * c" using assms(1) by (auto simp: obj_inv_def obj_wf_def elim: dvdE)
  have "4 * ?H dvd unat ?w" "4 * ?H dvd 4 * ?H" using c by auto
  then have d: "4 * ?H dvd unat v" using assms(3) by (metis dvd_add_left_iff)
  then obtain e where e: "unat v = 4 * ?H * e" by (elim dvdE)
  have wf: "obj_wf cfg this (g\<lparr>isa := new, table := t2\<rparr>)"
    using assms(1,5,6) t2 d by (simp add: obj_inv_def obj_wf_def)
  have "unat ?w div 4 = unat v div 4 + ?H" using assms(3) e by simp
  moreover have "2 \<le> ?H" by (rule rc_half_bounds(4))
  ultimately show ?thesis using wf assms(4,7-9) t2
    by (simp add: released_def rest_kept_def retain_count_def)
qed

text \<open>The word that takes the borrowed counts in.\<close>

definition refilled :: "bool \<Rightarrow> u64 \<Rightarrow> u64 \<Rightarrow> bool" where
  "refilled e w new \<longleftrightarrow> isa_nonpointer new = isa_nonpointer w \<and> (isa_has_sidetable_rc (layout cfg) new \<longleftrightarrow> \<not> e) \<and>
     isa_extra_rc (layout cfg) new + 1 = isa_extra_rc (layout cfg) w + RC_HALF (layout cfg) \<and>
     getClass (layout cfg) new = getClass (layout cfg) w \<and> isa_has_assoc new = isa_has_assoc w \<and>
     isa_weakly_referenced (layout cfg) new = isa_weakly_referenced (layout cfg) w"

lemma refilled_first:
  assumes "isa_extra_rc (layout cfg) w = 0"
  shows "refilled e w (set_has_sidetable_rc (layout cfg) (\<not> e) (set_extra_rc (layout cfg) (RC_HALF (layout cfg) - 1) w))"
proof -
  have "RC_HALF (layout cfg) - 1 < 2 ^ extra_rc_width (layout cfg)" using rc_half_bounds(3) by linarith
  then show ?thesis using assms rc_half_bounds(1) by (simp add: refilled_def set_extra_rc_get)
qed

lemma unat_half_minus_1: "unat (of_nat (RC_HALF (layout cfg)) - 1 :: u64) = RC_HALF (layout cfg) - 1"
  "of_nat (RC_HALF (layout cfg)) - 1 = (of_nat (RC_HALF (layout cfg) - 1) :: u64)"
proof -
  have "0 < RC_HALF (layout cfg)" by (rule rc_half_bounds(1))
  then show "of_nat (RC_HALF (layout cfg)) - 1 = (of_nat (RC_HALF (layout cfg) - 1) :: u64)" by simp
  moreover have "unat (of_nat (RC_HALF (layout cfg) - 1) :: u64) = RC_HALF (layout cfg) - 1"
    using rc_half_small by (intro unat_of_nat_u64) simp
  ultimately show "unat (of_nat (RC_HALF (layout cfg)) - 1 :: u64) = RC_HALF (layout cfg) - 1" by simp
qed

lemma refilled_second:
  assumes "addc w (RC_ONE (layout cfg) * (of_nat (RC_HALF (layout cfg)) - 1)) 0 = (v, False)"
  shows "refilled e w (set_has_sidetable_rc (layout cfg) (\<not> e) v)"
proof -
  have lt: "RC_HALF (layout cfg) - 1 < 2 ^ extra_rc_width (layout cfg)" using rc_half_bounds(3) by linarith
  note a = addc_many [OF assms [unfolded unat_half_minus_1(2)] lt]
  show ?thesis using a(2) low_fields [OF a(3) [simplified]] rc_half_bounds(1) by (simp add: refilled_def)
qed

lemma refilled_alive: "refilled e w new \<Longrightarrow> \<not> isDeallocating (layout cfg) new"
  using rc_half_bounds(4) by (auto simp: refilled_def isDeallocating_def)

lemma borrow_store_outcomes:
  assumes "isa st = oldisa" "slock (table st)" "isa_nonpointer oldisa" "isa_extra_rc (layout cfg) oldisa = 0"
    "\<forall>x\<in>set env. keeps_object cfg this x"
  obtains (stored) r env' new where
      "borrow_store cfg oldisa (of_nat (RC_HALF (layout cfg))) e env st = (True, False, new, env', r\<lparr>isa := new\<rparr>)"
      "(acts (set env))\<^sup>*\<^sup>* st r" "refilled e (isa r) new"
  | (failed) r env' d new where
      "borrow_store cfg oldisa (of_nat (RC_HALF (layout cfg))) e env st = (False, d, new, env', r)"
      "(acts (set env))\<^sup>*\<^sup>* st r" "set env' \<subseteq> set env" "length env' < length env"
proof -
  let ?L = "layout cfg"
  let ?new = "set_has_sidetable_rc ?L (\<not> e) (set_extra_rc ?L (RC_HALF ?L - 1) oldisa)"
  note def = borrow_store_def Let_def unat_half_minus_1(1)
  show ?thesis
  proof (cases rule: StoreExclusive_acts [OF assms(1), where new = ?new and env = env])
    case (1 s env')
    then show ?thesis using stored [of ?new env' s] refilled_first [OF assms(4)]
      by (simp add: def r_into_rtranclp)
  next
    case (2 s env')
    have sr: "(acts (set env))\<^sup>*\<^sup>* st s" using 2(2) by (rule r_into_rtranclp)
    from actss_nonpointer [OF this assms(2)] have np: "isa_nonpointer (isa s)" using assms(1,3,5) by simp
    obtain v overflow where v: "addc (isa s) (RC_ONE ?L * (of_nat (RC_HALF ?L) - 1)) 0 = (v, overflow)" by fastforce
    let ?new2 = "set_has_sidetable_rc ?L (\<not> e) v"
    show ?thesis
    proof (cases overflow)
      case True
      then show ?thesis using failed [of False ?new2 env' s] 2 v np by (simp add: def r_into_rtranclp)
    next
      case no: False
      have rf: "refilled e (isa s) ?new2" using refilled_second v no by simp
      have tr: "(acts (set env))\<^sup>*\<^sup>* st r" if "acts (set env') s r" for r
      proof -
        have "acts (set env) s r" using that 2(3) by (auto simp: acts_def)
        with sr show ?thesis by (rule rtranclp.rtrancl_into_rtrancl)
      qed
      show ?thesis
      proof (cases rule: StoreExclusive_acts [OF refl, of s ?new2 env'])
        case (1 r env'')
        then show ?thesis using stored [of ?new2 env'' r] 2(1) v np no rf refilled_alive [OF rf] tr
          by (simp add: def)
      next
        case f: (2 r env'')
        have "set env'' \<subseteq> set env" "length env'' < length env" using f(3,4) 2(3,4) by auto
        then show ?thesis using failed [of False ?new2 env'' r] 2(1) v np no f(1) tr [OF f(2)]
          by (simp add: def)
      qed
    qed
  qed
qed

text \<open>What a run of the release loop comes to.\<close>

definition releases ::
  "u64 \<Rightarrow> bool \<Rightarrow> schedule \<Rightarrow> obj_state \<Rightarrow> fault + (rel_outcome \<times> schedule \<times> obj_state) \<Rightarrow> bool" where
  "releases this pd env st out \<longleftrightarrow> (\<exists>answer env' st1 st'. out = Inr (RelReturned answer, env', st') \<and>
     env_reach (set env) (set_lock False st) st1 \<and> obj_inv cfg this st1 \<and> release_effect cfg this pd answer st1 st')"

lemma releases_later:
  assumes "releases this pd env' s out" "env_reach (set env) (set_lock False st) (set_lock False s)" "set env' \<subseteq> set env"
  shows "releases this pd env st out"
  using assms(1) env_reach_trans [OF _ assms(2)] env_reach_mono [OF _ assms(3)] unfolding releases_def by blast

lemma releases_now:
  assumes "out = Inr (RelReturned answer, env', st')" "obj_inv cfg this s"
    "env_reach (set env) (set_lock False st) (set_lock False s)" "release_effect cfg this pd answer (set_lock False s) st'"
  shows "releases this pd env st out"
  unfolding releases_def using assms by (intro exI conjI) (assumption | simp)+

lemma released_set_lock:
  "released cfg this pd b s s' \<Longrightarrow> released cfg this pd b (set_lock c s) (set_lock c s')"
  by (simp add: released_def rest_kept_def)

lemma release_borrow:
  assumes "isa st = oldisa" "slock (table st)" "obj_inv cfg this st" "isa_extra_rc (layout cfg) oldisa = 0"
    "isa_has_sidetable_rc (layout cfg) oldisa" "\<forall>x\<in>set env. keeps_object cfg this x"
    and IH: "\<And>env' s. length env' < length env \<Longrightarrow> set env' \<subseteq> set env \<Longrightarrow> slock (table s) \<Longrightarrow> obj_inv cfg this s \<Longrightarrow>
      releases this pd env' s (rootRelease_loop cfg this pd Full True (isa s) env' s)"
  shows "releases this pd env st (rootRelease_loop cfg this pd Full True oldisa env st)"
proof -
  let ?L = "layout cfg" and ?H = "RC_HALF (layout cfg)" and ?w = "rc_word (junk cfg) (table st) this"
  have wf: "valid_object this" "table_ok (junk cfg) (table st)" "isa_nonpointer oldisa" "?w \<noteq> 0"
    "4 * ?H dvd unat ?w" "unat ?w < 2 ^ 63" "table_room (table st)"
    using assms(1,3,5) by (auto simp: obj_inv_def obj_wf_def obj_room_def)
  have d4: "4 dvd unat ?w" using wf(5) by (rule dvd_mult_left)
  have le: "4 * ?H \<le> unat ?w" using wf(4,5) by (intro dvd_imp_le) (simp_all add: unat_gt_0)
  have half: "0 < unat (of_nat ?H :: u64)" using rc_half_bounds(1) by simp
  obtain t v where t: "sidetable_subExtraRC_nolock (junk cfg) this oldisa (of_nat ?H) (table st) = Inr (t, of_nat ?H, drop_bit 2 v)"
    "word_set (junk cfg) (table st) this v t" "rc_entry (junk cfg) t this = Some v" "unat v = unat ?w - 4 * ?H"
    using subExtraRC_spec [OF wf(3,2,1) d4 half] le by auto
  have lk: "slock t" using t(2) assms(2) by (simp add: word_set_def)
  have v4: "4 dvd unat v" using t(4) d4 by (simp add: dvd_diff_nat)
  have e: "drop_bit 2 v = 0 \<longleftrightarrow> v = 0"
  proof -
    have "drop_bit 2 v = 0 \<longleftrightarrow> unat v div 4 = 0" by (simp add: unat_drop_bit_div flip: unat_eq_0)
    then show ?thesis using v4 by (auto simp flip: unat_eq_0 elim!: dvdE)
  qed
  obtain sb where sb: "subc oldisa (RC_ONE ?L) 0 = (sb, True)"
    using subc_one(1) assms(4) by (metis (full_types) surj_pair)
  let ?st = "st\<lparr>table := t\<rparr>"
  have nd: "\<not> isDeallocating ?L oldisa" using assms(5) by (simp add: isDeallocating_def)
  have pos: "0 < (of_nat ?H :: u64)" using half by (simp add: word_less_nat_alt)
  have loop: "rootRelease_loop cfg this pd Full True oldisa env st =
    (case borrow_store cfg oldisa (of_nat ?H) (v = 0) env ?st of
      (stored, didTransitionToDeallocating, newisa, env', st') \<Rightarrow>
        if \<not> stored then
          bindE (sidetable_addExtraRC_nolock (junk cfg) this (isa st') (of_nat ?H) (table st'))
            (\<lambda>(t, _). case LoadExclusive env' (st'\<lparr>table := t\<rparr>) of (oldisa', env'', st'') \<Rightarrow>
              rootRelease_loop cfg this pd Full True oldisa' env'' st'')
        else
          bindE (if v = 0
                 then bindE (sidetable_clearExtraRC_nolock (junk cfg) this (isa st') (table st'))
                        (\<lambda>t. Inr (st'\<lparr>table := t\<rparr>))
                 else Inr st') (\<lambda>st.
            if \<not> didTransitionToDeallocating then
              bindE (obj_unlock st) (\<lambda>st. Inr (RelReturned False, env', st))
            else rootRelease_deallocate cfg pd True newisa env' st))"
    using wf(3) nd sb assms(1,5) t(1) pos e
    by (subst rootRelease_loop.simps) (simp add: Let_def cong: if_cong prod.case_cong)
  have pre: "isa ?st = oldisa" "slock (table ?st)" using assms(1) lk by simp_all
  show ?thesis
  proof (cases rule: borrow_store_outcomes [OF pre wf(3) assms(4,6), of "v = 0"])
    case (1 r env' new)
    obtain g where g: "(acts (set env))\<^sup>*\<^sup>* st g" "r = g\<lparr>table := t\<rparr>"
      using actss_table [OF 1(2) lk assms(2)] by blast
    have inv: "obj_inv cfg this g" and tg: "table g = table st"
      using actss_inv [OF g(1) assms(3,6)] actss_fixed [OF g(1)] assms(2) by auto
    have hs: "isa_has_sidetable_rc ?L (isa g)" "isa_nonpointer (isa g)"
      using actss_nonpointer [OF g(1) assms(2) _ assms(6)] wf(3) assms(1,5) by auto
    have new: "refilled (v = 0) (isa g) new" using 1(3) g(2) by simp
    have npn: "isa_nonpointer new" using new hs(2) by (simp add: refilled_def)
    obtain t2 where t2: "if v = 0 then sidetable_clearExtraRC_nolock (junk cfg) this new t = Inr t2 \<and>
        word_set (junk cfg) t this 0 t2 else t2 = t"
    proof (cases "v = 0")
      case True
      have "table_ok (junk cfg) t" "rc_entry (junk cfg) t this \<noteq> None" using t(2,3) by (auto simp: word_set_def)
      from clearExtraRC_spec [OF npn this(1) wf(1) this(2)] show ?thesis using that True by auto
    qed (use that in auto)
    have "released cfg this pd False g (g\<lparr>isa := new, table := t2\<rparr>)"
      using inv t(2,4) le new hs t2 tg by (intro released_borrow [where v = v and t = t])
        (auto simp: refilled_def split: if_splits)
    then have rel: "released cfg this pd False (set_lock False g) (set_lock False (g\<lparr>isa := new, table := t2\<rparr>))"
      by (rule released_set_lock)
    have lk2: "slock t2" using t2 lk by (auto simp: word_set_def split: if_splits)
    have "rootRelease_loop cfg this pd Full True oldisa env st =
        Inr (RelReturned False, env', set_lock False (g\<lparr>isa := new, table := t2\<rparr>))"
      unfolding loop 1(1) using t2 lk2 by (auto simp: g(2) obj_unlock_eq split: if_splits)
    moreover have "\<not> isDeallocating ?L (isa g)" using hs(1) by (simp add: isDeallocating_def)
    ultimately show ?thesis using inv actss_reach [OF g(1)] rel
      by (intro releases_now) (auto simp: release_effect_def)
  next
    case (2 r env' d new)
    obtain g where g: "(acts (set env))\<^sup>*\<^sup>* st g" "r = g\<lparr>table := t\<rparr>"
      using actss_table [OF 2(2) lk assms(2)] by blast
    have inv: "obj_inv cfg this g" and tg: "table g = table st"
      using actss_inv [OF g(1) assms(3,6)] actss_fixed [OF g(1)] assms(2) by auto
    have hs: "isa_nonpointer (isa g)" using inv by (simp add: obj_inv_def obj_wf_def)
    have "sidetable_addExtraRC_nolock (junk cfg) this (isa g) (of_nat ?H) t = Inr (table st, False)"
      using sub_add_restores [OF wf(3) hs wf(2,1) d4 half _ wf(6) t(1)] le by simp
    then have restored: "sidetable_addExtraRC_nolock (junk cfg) this (isa r) (of_nat ?H) (table r) = Inr (table st, False)"
      "r\<lparr>table := table st\<rparr> = g" using g(2) tg by simp_all
    obtain s env'' where s: "LoadExclusive env' g = (isa s, env'', s)" "acts (set env') g s"
      "set env'' \<subseteq> set env'" "length env'' \<le> length env'" by (rule LoadExclusive_acts)
    have ga: "acts (set env) g s" using s(2) 2(3) by (auto simp: acts_def)
    have "slock (table s)" "obj_inv cfg this s"
      using acts_fixed(1) [OF ga] acts_inv [OF ga inv assms(6)] tg assms(2) by auto
    then have "releases this pd env'' s (rootRelease_loop cfg this pd Full True (isa s) env'' s)"
      using IH [of env'' s] s(3,4) 2(3,4) by auto
    moreover have "env_reach (set env) (set_lock False st) (set_lock False s)"
      by (rule env_reach_trans [OF acts_reach [OF ga] actss_reach [OF g(1)]])
    moreover have "set env'' \<subseteq> set env" using s(3) 2(3) by (rule order_trans)
    ultimately have "releases this pd env st (rootRelease_loop cfg this pd Full True (isa s) env'' s)"
      by (rule releases_later)
    then show ?thesis unfolding loop 2(1) using restored s(1) by simp
  qed
qed

text \<open>The decrement of the inline count, for every variant.\<close>

lemma release_inline_step:
  assumes "isa st = oldisa" "slock (table st) = locked" "obj_inv cfg this st" "\<not> isDeallocating (layout cfg) oldisa"
    "subc oldisa (RC_ONE (layout cfg)) 0 = (v, False)" "\<forall>x\<in>set env. keeps_object cfg this x"
    "variant = Full \<or> \<not> locked"
    and IH: "\<And>env' s. length env' < length env \<Longrightarrow> set env' \<subseteq> set env \<Longrightarrow> slock (table s) = locked \<Longrightarrow> obj_inv cfg this s \<Longrightarrow>
      env_reach (set env) (set_lock False st) (set_lock False s) \<Longrightarrow>
      P (rootRelease_loop cfg this pd variant locked (isa s) env' s)"
    and now: "\<And>out. releases this pd env st out \<Longrightarrow> P out"
  shows "P (rootRelease_loop cfg this pd variant locked oldisa env st)"
proof -
  let ?L = "layout cfg"
  have np: "isa_nonpointer oldisa" using assms(1,3) by (auto simp: obj_inv_def obj_wf_def)
  have loop: "rootRelease_loop cfg this pd variant locked oldisa env st =
    (case StoreExclusive oldisa v env st of (stored, oldisa', env', st') \<Rightarrow>
       if \<not> stored then rootRelease_loop cfg this pd variant locked oldisa' env' st'
       else if isDeallocating ?L v then rootRelease_deallocate cfg pd locked v env' st'
       else bindE (if locked then obj_unlock st' else Inr st') (\<lambda>st. Inr (RelReturned False, env', st)))"
    using np assms(4,5,7) by (subst rootRelease_loop.simps) (auto simp: Let_def cong: if_cong prod.case_cong split: prod.split)
  show ?thesis
  proof (cases rule: StoreExclusive_acts [OF assms(1), where new = v and env = env])
    case (1 s env')
    have inv: "obj_inv cfg this s" using acts_inv [OF 1(3) assms(3,6)] .
    have lk: "slock (table s) = locked" using acts_fixed(1) [OF 1(3)] assms(2) by simp
    let ?d = "isDeallocating ?L v" and ?s = "s\<lparr>isa := v\<rparr>"
    let ?s' = "if ?d \<and> pd then emit MsgDealloc ?s else ?s"
    have "released cfg this pd ?d s ?s'" using released_inline [OF _ _ refl, of this s v pd] inv assms(5) 1(2)
      by (simp add: obj_inv_def)
    then have rel: "released cfg this pd ?d (set_lock False s) (set_lock False ?s')" by (rule released_set_lock)
    have "rootRelease_loop cfg this pd variant locked oldisa env st = Inr (RelReturned ?d, env', set_lock False ?s')"
    proof (cases ?d)
      case True
      then show ?thesis unfolding loop 1(1) using rootRelease_deallocate_eq [of v ?s locked pd env'] lk
        by (auto simp: emit_def set_lock_def)
    next
      case False
      then show ?thesis unfolding loop 1(1) using finish_unlock [of ?s locked] lk by (cases locked) auto
    qed
    then have "releases this pd env st (rootRelease_loop cfg this pd variant locked oldisa env st)"
      using inv acts_reach [OF 1(3)] rel assms(4) 1(2) by (intro releases_now) (auto simp: release_effect_def)
    then show ?thesis by (rule now)
  next
    case (2 s env')
    have "obj_inv cfg this s" "slock (table s) = locked"
      using acts_inv [OF 2(2) assms(3,6)] acts_fixed(1) [OF 2(2)] assms(2) by auto
    then show ?thesis unfolding loop 2(1) using IH [OF 2(4,3) _ _ acts_reach [OF 2(2)]] by simp
  qed
qed

lemma release_dealloc_step:
  assumes "isa st = oldisa" "slock (table st) = locked" "obj_inv cfg this st" "isDeallocating (layout cfg) oldisa"
    "variant = Full \<or> \<not> locked"
  shows "releases this pd env st (rootRelease_loop cfg this pd variant locked oldisa env st)"
proof -
  have np: "isa_nonpointer oldisa" using assms(1,3) by (auto simp: obj_inv_def obj_wf_def)
  have "rootRelease_loop cfg this pd variant locked oldisa env st = Inr (RelReturned False, env, set_lock False st)"
    using np assms(4,5) finish_unlock [OF assms(2)] by (cases locked) (simp_all add: rootRelease_loop.simps)
  then show ?thesis using assms by (intro releases_now [OF _ assms(3) env_refl]) (auto simp: release_effect_def)
qed

lemma rootRelease_full:
  assumes "isa st = oldisa" "slock (table st) = locked" "obj_inv cfg this st" "\<forall>x\<in>set env. keeps_object cfg this x"
  shows "releases this pd env st (rootRelease_loop cfg this pd Full locked oldisa env st)"
  using assms
proof (induction "2 * length env + (if locked then 0 else 1)" arbitrary: env st oldisa locked rule: less_induct)
  case less
  let ?L = "layout cfg"
  have np: "isa_nonpointer oldisa" using less.prems(1,3) by (auto simp: obj_inv_def obj_wf_def)
  obtain v carry where a: "subc oldisa (RC_ONE ?L) 0 = (v, carry)" by fastforce
  have IH: "releases this pd env' s (rootRelease_loop cfg this pd Full locked' (isa s) env' s)"
    if "2 * length env' + (if locked' then 0 else 1) < 2 * length env + (if locked then 0 else 1)"
      "set env' \<subseteq> set env" "slock (table s) = locked'" "obj_inv cfg this s" for env' s locked'
    using less.hyps [OF that(1) refl that(3,4)] less.prems(4) that(2) by blast
  consider (dealloc) "isDeallocating ?L oldisa" | (inline) "\<not> isDeallocating ?L oldisa" "\<not> carry"
    | (borrow) "\<not> isDeallocating ?L oldisa" carry by blast
  then show ?case
  proof cases
    case dealloc
    then show ?thesis using release_dealloc_step [OF less.prems(1-3)] by simp
  next
    case inline
    then have sb: "subc oldisa (RC_ONE ?L) 0 = (v, False)" using a by simp
    show ?thesis
    proof (rule release_inline_step [OF less.prems(1-3) inline(1) sb less.prems(4)], goal_cases)
      case (2 env' s)
      then show ?case using IH [of env' locked s] releases_later by auto
    qed auto
  next
    case borrow
    then have rc0: "isa_extra_rc ?L oldisa = 0" using subc_one(1) [OF a] by simp
    then have hs: "isa_has_sidetable_rc ?L oldisa" using borrow(1) by (simp add: isDeallocating_def)
    show ?thesis
    proof (cases locked)
      case True
      have "slock (table st)" using less.prems(2) True by simp
      from release_borrow [OF less.prems(1) this less.prems(3) rc0 hs less.prems(4)] show ?thesis
        using IH [where locked' = True] True by auto
    next
      case False
      obtain s env' where s: "LoadExclusive env (set_lock True st) = (isa s, env', s)"
        "acts (set env) (set_lock True st) s" "set env' \<subseteq> set env" "length env' \<le> length env"
        by (rule LoadExclusive_acts)
      have loop: "rootRelease_loop cfg this pd Full locked oldisa env st =
          rootRelease_loop cfg this pd Full True (isa s) env' s"
        using np borrow hs a False less.prems(2) s(1)
        by (subst rootRelease_loop.simps) (simp add: obj_lock_eq)
      have "slock (table s)" "obj_inv cfg this s"
        using acts_fixed(1) [OF s(2)] acts_inv [OF s(2)] less.prems(3,4) by auto
      then have "releases this pd env' s (rootRelease_loop cfg this pd Full True (isa s) env' s)"
        using IH [of env' True s] s(3,4) False by simp
      from releases_later [OF this _ s(3)] acts_reach [OF s(2)] show ?thesis unfolding loop by simp
    qed
  qed
qed

text \<open>The fast variants either finish or leave the object as they found it and
  hand over to the slow one.\<close>

definition hands_over :: "u64 \<Rightarrow> schedule \<Rightarrow> obj_state \<Rightarrow> fault + (rel_outcome \<times> schedule \<times> obj_state) \<Rightarrow> bool" where
  "hands_over this env st out \<longleftrightarrow> (\<exists>env' st'. out = Inr (Underflowed, env', st') \<and> set env' \<subseteq> set env \<and>
     \<not> slock (table st') \<and> env_reach (set env) (set_lock False st) st' \<and> obj_inv cfg this st')"

lemma hands_over_later:
  assumes "hands_over this env' s out" "env_reach (set env) (set_lock False st) (set_lock False s)" "set env' \<subseteq> set env"
  shows "hands_over this env st out"
  using assms(1,3) env_reach_trans [OF _ assms(2)] env_reach_mono [OF _ assms(3)] unfolding hands_over_def by blast

lemma rootRelease_fast:
  assumes "isa st = oldisa" "\<not> slock (table st)" "obj_inv cfg this st"
    "\<forall>x\<in>set env. keeps_object cfg this x" "variant \<noteq> Full"
  shows "releases this pd env st (rootRelease_loop cfg this pd variant False oldisa env st) \<or>
    hands_over this env st (rootRelease_loop cfg this pd variant False oldisa env st)"
  using assms(1-4)
proof (induction "length env" arbitrary: env st oldisa rule: less_induct)
  case less
  let ?L = "layout cfg" and ?loop = "rootRelease_loop cfg this pd variant False"
  have np: "isa_nonpointer oldisa" using less.prems(1,3) by (auto simp: obj_inv_def obj_wf_def)
  obtain v carry where a: "subc oldisa (RC_ONE ?L) 0 = (v, carry)" by fastforce
  consider (dealloc) "isDeallocating ?L oldisa" | (inline) "\<not> isDeallocating ?L oldisa" "\<not> carry"
    | (borrow) "\<not> isDeallocating ?L oldisa" carry by blast
  then show ?case
  proof cases
    case dealloc
    then show ?thesis using release_dealloc_step [OF less.prems(1) _ less.prems(3)] less.prems(2) by simp
  next
    case inline
    then have sb: "subc oldisa (RC_ONE ?L) 0 = (v, False)" using a by simp
    have lk: "slock (table st) = False" using less.prems(2) by simp
    show ?thesis
    proof (rule release_inline_step [OF less.prems(1) lk less.prems(3) inline(1) sb less.prems(4)], goal_cases)
      case (2 env' s)
      have "releases this pd env' s (?loop (isa s) env' s) \<or> hands_over this env' s (?loop (isa s) env' s)"
        using less.hyps [OF 2(1) refl _ 2(4)] 2(2,3) less.prems(4) by blast
      then show ?case using releases_later [OF _ 2(5,2)] hands_over_later [OF _ 2(5,2)] by blast
    qed auto
  next
    case borrow
    then have "isa_has_sidetable_rc ?L oldisa" using subc_one(1) [OF a] by (simp add: isDeallocating_def)
    then have "?loop oldisa env st = Inr (Underflowed, env, st)"
      using np borrow a assms(5) by (simp add: rootRelease_loop.simps)
    then show ?thesis using less.prems(2,3) env_refl by (auto simp: hands_over_def set_lock_False_id)
  qed
qed

lemma rootRelease_once_enters:
  assumes "obj_inv cfg this st" "\<not> slock (table st)" "\<forall>x\<in>set env. keeps_object cfg this x"
    "variant = FastOrMsgSend \<Longrightarrow> \<forall>c. \<not> hasCustomRR (classes cfg) c"
  obtains s env' where "rootRelease_once cfg this pd variant env st =
      rootRelease_loop cfg this pd variant False (isa s) env' s"
    "obj_inv cfg this s" "\<not> slock (table s)" "env_reach (set env) (set_lock False st) (set_lock False s)"
    "set env' \<subseteq> set env" "\<forall>x\<in>set env'. keeps_object cfg this x"
proof -
  obtain s env' where l: "LoadExclusive env st = (isa s, env', s)" "acts (set env) st s" "set env' \<subseteq> set env"
    by (rule LoadExclusive_acts)
  have inv: "obj_inv cfg this s" using acts_inv [OF l(2)] assms(1,3) by simp
  have "\<not> slock (table s)" using acts_fixed(1) [OF l(2)] assms(2) by simp
  moreover have "rootRelease_once cfg this pd variant env st =
      rootRelease_loop cfg this pd variant False (isa s) env' s"
    using inv assms(4) by (auto simp: rootRelease_once_def l(1) obj_inv_def obj_wf_def Let_def)
  moreover have "\<forall>x\<in>set env'. keeps_object cfg this x" using assms(3) l(3) by blast
  ultimately show ?thesis using that inv acts_reach [OF l(2)] l(3) by blast
qed

lemma rootRelease_once_full:
  assumes "obj_inv cfg this st" "\<not> slock (table st)" "\<forall>x\<in>set env. keeps_object cfg this x"
  shows "releases this pd env st (rootRelease_once cfg this pd Full env st)"
proof -
  obtain s env' where s: "rootRelease_once cfg this pd Full env st =
      rootRelease_loop cfg this pd Full False (isa s) env' s"
    "obj_inv cfg this s" "\<not> slock (table s)" "env_reach (set env) (set_lock False st) (set_lock False s)"
    "set env' \<subseteq> set env" "\<forall>x\<in>set env'. keeps_object cfg this x"
    by (rule rootRelease_once_enters [OF assms, where variant = Full and pd = pd]) (simp, rule that)
  have "slock (table s) = False" using s(3) by simp
  from releases_later [OF rootRelease_full [OF refl this s(2,6)] s(4,5)] show ?thesis unfolding s(1) .
qed

lemma rootRelease_correct:
  assumes "obj_inv cfg this st" "\<not> slock (table st)" "\<forall>x\<in>set env. keeps_object cfg this x"
    "variant = FastOrMsgSend \<Longrightarrow> \<forall>c. \<not> hasCustomRR (classes cfg) c"
  shows "\<exists>answer env' st1 st'. rootRelease cfg this pd variant env st = Inr (answer, env', st') \<and>
    env_reach (set env) st st1 \<and> obj_inv cfg this st1 \<and> release_effect cfg this pd answer st1 st'"
proof -
  obtain s env' where s: "rootRelease_once cfg this pd variant env st =
      rootRelease_loop cfg this pd variant False (isa s) env' s"
    "obj_inv cfg this s" "\<not> slock (table s)" "env_reach (set env) (set_lock False st) (set_lock False s)"
    "set env' \<subseteq> set env" "\<forall>x\<in>set env'. keeps_object cfg this x"
    by (rule rootRelease_once_enters [OF assms, where pd = pd]) (simp, rule that)
  have st: "set_lock False st = st" using assms(2) by (simp add: set_lock_False_id)
  have "releases this pd env st (rootRelease_once cfg this pd variant env st) \<or>
      hands_over this env st (rootRelease_once cfg this pd variant env st)"
  proof (cases "variant = Full")
    case True
    then show ?thesis using rootRelease_once_full [OF assms(1-3)] by simp
  next
    case False
    from rootRelease_fast [OF refl s(3,2,6) False] show ?thesis unfolding s(1)
      using releases_later [OF _ s(4,5)] hands_over_later [OF _ s(4,5)] by blast
  qed
  then show ?thesis
  proof
    assume "hands_over this env st (rootRelease_once cfg this pd variant env st)"
    then obtain env2 s2 where h: "rootRelease_once cfg this pd variant env st = Inr (Underflowed, env2, s2)"
      "set env2 \<subseteq> set env" "\<not> slock (table s2)" "env_reach (set env) st s2" "obj_inv cfg this s2"
      unfolding hands_over_def st by blast
    have "releases this pd env2 s2 (rootRelease_once cfg this pd Full env2 s2)"
      using rootRelease_once_full [OF h(5,3)] h(2) assms(3) by blast
    from releases_later [OF this _ h(2), of st] h(3,4)
    have "releases this pd env st (rootRelease_once cfg this pd Full env2 s2)" by (simp add: st set_lock_False_id)
    then show ?thesis unfolding releases_def st by (fastforce simp: rootRelease_def h(1))
  qed (fastforce simp: rootRelease_def releases_def st)
qed

end

end
