(* ===== verification/ObjcObject_Lifecycle.thy ===== *)
theory ObjcObject_Lifecycle
  imports ObjcObject_Correct
begin

text \<open>
  The life of an object with a nonpointer isa, seen by one thread: initialising
  the isa gives count one and the class back, any sequence of retains and
  releases follows a plain counter and sends \<open>-dealloc\<close> exactly once, when the
  counter comes to zero; \<open>retainCount\<close> reads the counter; setting the flags
  does not disturb it; and an isa that becomes raw takes the count along.
\<close>

section \<open>Sequences of retains and releases\<close>

datatype rr_op = Retain | Release

text \<open>The specification: a counter that stays at zero once it is there.\<close>

fun counter_step :: "rr_op \<Rightarrow> nat \<Rightarrow> nat" where
  "counter_step Retain n = (if n = 0 then 0 else n + 1)"
| "counter_step Release n = n - 1"

text \<open>One thread's calls, one after the other, as long as there is room.\<close>

inductive rr_run :: "rt_config \<Rightarrow> u64 \<Rightarrow> obj_state \<Rightarrow> rr_op list \<Rightarrow> obj_state \<Rightarrow> bool" for cfg this st where
  run_none: "rr_run cfg this st [] st"
| run_retain: "rr_run cfg this st ops s \<Longrightarrow> obj_room cfg this s \<Longrightarrow>
    rootRetain cfg this False Fast [] s = Inr (this, env, s') \<Longrightarrow> rr_run cfg this st (ops @ [Retain]) s'"
| run_release: "rr_run cfg this st ops s \<Longrightarrow> obj_room cfg this s \<Longrightarrow>
    rootRelease cfg this True Fast [] s = Inr (answer, env, s') \<Longrightarrow> rr_run cfg this st (ops @ [Release]) s'"

lemma env_reach_none: "env_reach {} st s \<longleftrightarrow> s = st"
  by (auto elim: env_reach.cases intro: env_refl)

context counted_object
begin

lemma retain_alone:
  assumes "obj_wf cfg this st" "obj_room cfg this st" "\<not> slock (table st)"
  shows "\<exists>env' st'. rootRetain cfg this False Fast [] st = Inr (this, env', st') \<and> retain_effect cfg this st st'"
  using rootRetain_correct [of this st "[]" Fast] assms by (auto simp: obj_inv_def env_reach_none)

lemma release_alone:
  assumes "obj_wf cfg this st" "obj_room cfg this st" "\<not> slock (table st)"
  shows "\<exists>answer env' st'. rootRelease cfg this pd Fast [] st = Inr (answer, env', st') \<and>
    release_effect cfg this pd answer st st'"
  using rootRelease_correct [of this st "[]" Fast pd] assms by (auto simp: obj_inv_def env_reach_none)

text \<open>What holds along a run.\<close>

definition run_ok :: "u64 \<Rightarrow> nat \<Rightarrow> obj_state \<Rightarrow> bool" where
  "run_ok this n s \<longleftrightarrow> obj_wf cfg this s \<and> \<not> slock (table s) \<and> retain_count cfg this s = n \<and>
     events s = (if n = 0 then [MsgDealloc] else [])"

lemma run_ok_retain:
  assumes "run_ok this n s" "obj_room cfg this s" "rootRetain cfg this False Fast [] s = Inr (this, env, s')"
  shows "run_ok this (counter_step Retain n) s'"
proof -
  have "retain_effect cfg this s s'" using retain_alone [of this s] assms by (auto simp: run_ok_def)
  then show ?thesis using assms(1) deallocating_iff [of this s]
    by (auto simp: retain_effect_def retained_def rest_kept_def run_ok_def split: if_splits)
qed

lemma run_ok_release:
  assumes "run_ok this n s" "obj_room cfg this s" "rootRelease cfg this True Fast [] s = Inr (answer, env, s')"
  shows "run_ok this (counter_step Release n) s'"
proof -
  have "release_effect cfg this True answer s s'" using release_alone [of this s True] assms by (auto simp: run_ok_def)
  then show ?thesis using assms(1) deallocating_iff [of this s]
    by (auto simp: release_effect_def released_def rest_kept_def run_ok_def split: if_splits)
qed

lemma rr_run_ok:
  assumes "rr_run cfg this st ops s" "run_ok this n st"
  shows "run_ok this (fold counter_step ops n) s"
  using assms
proof (induction rule: rr_run.induct)
  case (run_retain ops s env s')
  show ?case using run_ok_retain [OF run_retain.IH [OF run_retain.prems] run_retain.hyps(2,3)] by simp
next
  case (run_release ops s answer env s')
  show ?case using run_ok_release [OF run_release.IH [OF run_release.prems] run_release.hyps(2,3)] by simp
qed simp

lemma rr_run_counts:
  assumes "rr_run cfg this st ops s" "obj_wf cfg this st" "\<not> slock (table st)" "events st = []"
    "0 < retain_count cfg this st"
  shows "retain_count cfg this s = fold counter_step ops (retain_count cfg this st)"
    and "events s = (if fold counter_step ops (retain_count cfg this st) = 0 then [MsgDealloc] else [])"
    and "obj_wf cfg this s" "\<not> slock (table s)"
  using rr_run_ok [OF assms(1), of "retain_count cfg this st"] assms(2-) by (auto simp: run_ok_def)

section \<open>Reading the count\<close>

lemma rootRetainCount_correct:
  assumes "obj_wf cfg this st" "unat (rc_word (junk cfg) (table st) this) < 2 ^ 62" "\<not> slock (table st)"
  shows "\<exists>n. rootRetainCount cfg this st = Inr (n, st) \<and> unat n = retain_count cfg this st"
proof -
  let ?w = "rc_word (junk cfg) (table st) this" and ?L = "layout cfg"
  let ?n = "of_nat (isa_extra_rc ?L (isa st)) + drop_bit 2 ?w :: u64"
  have wf: "valid_object this" "\<not> isTaggedPointer cfg this" "table_ok (junk cfg) (table st)" "isa_nonpointer (isa st)"
    "isa_has_sidetable_rc ?L (isa st) \<longleftrightarrow> ?w \<noteq> 0" using assms(1) by (auto simp: obj_wf_def)
  have side: "(if isa_has_sidetable_rc ?L (isa st) then sidetable_getExtraRC_nolock (junk cfg) this (isa st) (table (set_lock True st))
      else Inr 0) = Inr (drop_bit 2 ?w)"
    using wf getExtraRC_spec [OF wf(4), of "junk cfg" "table (set_lock True st)" this] by (auto simp: set_lock_def)
  have "isa_extra_rc ?L (isa st) < 2 ^ 62"
    using extra_rc_less [of "isa st"] rc_half_bounds(2) rc_half_small by simp
  moreover have "unat (drop_bit 2 ?w) = unat ?w div 4" by (simp add: drop_bit_eq_div unat_div)
  ultimately have "unat ?n = retain_count cfg this st"
    using assms(2) by (subst unat_add_nowrap_u64) (simp_all add: retain_count_def unat_of_nat take_bit_nat_eq_self)
  moreover have "rootRetainCount cfg this st = Inr (?n, st)"
    using wf side assms(3) unfolding rootRetainCount_def
    by (cases "?w = 0") (simp_all add: obj_lock_eq obj_unlock_eq Let_def set_lock_False_id)
  ultimately show ?thesis by blast
qed

section \<open>Initialising the isa\<close>

lemma set_cxx_fields [simp]:
  "isa_nonpointer (set_has_cxx_dtor (layout cfg) b w) = isa_nonpointer w"
  "isa_has_assoc (set_has_cxx_dtor (layout cfg) b w) = isa_has_assoc w"
  "isa_extra_rc (layout cfg) (set_has_cxx_dtor (layout cfg) b w) = isa_extra_rc (layout cfg) w"
  "isa_has_sidetable_rc (layout cfg) (set_has_cxx_dtor (layout cfg) b w) = isa_has_sidetable_rc (layout cfg) w"
  "isa_weakly_referenced (layout cfg) (set_has_cxx_dtor (layout cfg) b w) = isa_weakly_referenced (layout cfg) w"
proof -
  let ?L = "layout cfg"
  show "isa_nonpointer (set_has_cxx_dtor ?L b w) = isa_nonpointer w" "isa_has_assoc (set_has_cxx_dtor ?L b w) = isa_has_assoc w"
    using cxx by (auto simp: isa_nonpointer_def isa_has_assoc_def set_has_cxx_dtor_def bit_put_flag)
  show "isa_extra_rc ?L (set_has_cxx_dtor ?L b w) = isa_extra_rc ?L w"
    unfolding isa_extra_rc_def set_has_cxx_dtor_def using cxx cls_below side_below
    by (auto simp: get_put_flag_other)
  show "isa_has_sidetable_rc ?L (set_has_cxx_dtor ?L b w) = isa_has_sidetable_rc ?L w"
    "isa_weakly_referenced ?L (set_has_cxx_dtor ?L b w) = isa_weakly_referenced ?L w"
    using cxx cls_below weak_above weak_below side_below rc_top
    by (auto simp: isa_has_sidetable_rc_def isa_weakly_referenced_def set_has_cxx_dtor_def bit_put_flag)
qed

text \<open>The isa word of a new object.\<close>

lemma initIsa_nonpointer:
  assumes "\<not> isTaggedPointer cfg this" "valid_object this" "\<not> DisableNonpointerIsa cfg"
    "\<not> instancesRequireRawIsa (classes cfg) cls" "class_fits (layout cfg) cls" "sign_cls cfg cls this = cls"
    "table_ok (junk cfg) (table st)" "rc_word (junk cfg) (table st) this = 0"
  shows "\<exists>w. initIsa cfg this cls True cxx st = Inr (st\<lparr>isa := w\<rparr>) \<and> obj_wf cfg this (st\<lparr>isa := w\<rparr>) \<and>
    retain_count cfg this (st\<lparr>isa := w\<rparr>) = 1 \<and> getClass (layout cfg) w = cls \<and>
    \<not> isa_has_assoc w \<and> \<not> isa_weakly_referenced (layout cfg) w"
proof -
  let ?L = "layout cfg"
  let ?m = "set_has_cxx_dtor ?L cxx (ISA_MAGIC_VALUE ?L)"
  let ?w = "set_extra_rc ?L 1 (setClass ?L (sign_cls cfg) cls this ?m)"
  have "isa_extra_rc ?L ?w = 1" using rc_half_bounds by (intro set_extra_rc_get) linarith
  moreover have "isa_nonpointer ?w" "\<not> isa_has_sidetable_rc ?L ?w" "\<not> isa_has_assoc ?w" "\<not> isa_weakly_referenced ?L ?w"
    using magic by (simp_all add: isa_nonpointer_def [of "ISA_MAGIC_VALUE ?L"] isa_has_sidetable_rc_def [of _ "ISA_MAGIC_VALUE ?L"]
        isa_has_assoc_def [of "ISA_MAGIC_VALUE ?L"] isa_weakly_referenced_def [of _ "ISA_MAGIC_VALUE ?L"])
  moreover have "getClass ?L ?w = cls" using getClass_setClass [OF assms(5), of "sign_cls cfg" this] assms(6) by simp
  moreover have "initIsa cfg this cls True cxx st = Inr (st\<lparr>isa := ?w\<rparr>)" using assms(1,3,4) by (simp add: initIsa_def Let_def)
  ultimately show ?thesis using assms(1,2,7,8)
    by (intro exI [of _ ?w]) (simp add: obj_wf_def retain_count_def)
qed

section \<open>Setting flags\<close>

text \<open>A flag below the count: neither the count nor the class moves.\<close>

lemma set_weak_fields [simp]:
  "isa_nonpointer (set_weakly_referenced (layout cfg) b w) = isa_nonpointer w"
  "isa_has_assoc (set_weakly_referenced (layout cfg) b w) = isa_has_assoc w"
  "isa_extra_rc (layout cfg) (set_weakly_referenced (layout cfg) b w) = isa_extra_rc (layout cfg) w"
  "isa_has_sidetable_rc (layout cfg) (set_weakly_referenced (layout cfg) b w) = isa_has_sidetable_rc (layout cfg) w"
  "isa_weakly_referenced (layout cfg) (set_weakly_referenced (layout cfg) b w) = b"
  "getClass (layout cfg) (set_weakly_referenced (layout cfg) b w) = getClass (layout cfg) w"
proof -
  let ?L = "layout cfg"
  show "isa_nonpointer (set_weakly_referenced ?L b w) = isa_nonpointer w"
    "isa_has_assoc (set_weakly_referenced ?L b w) = isa_has_assoc w"
    using weak_above by (auto simp: isa_nonpointer_def isa_has_assoc_def set_weakly_referenced_def bit_put_flag)
  show "isa_extra_rc ?L (set_weakly_referenced ?L b w) = isa_extra_rc ?L w"
    unfolding isa_extra_rc_def set_weakly_referenced_def using weak_below side_below by (subst get_put_flag_other) auto
  show "isa_has_sidetable_rc ?L (set_weakly_referenced ?L b w) = isa_has_sidetable_rc ?L w"
    "isa_weakly_referenced ?L (set_weakly_referenced ?L b w) = b"
    using weak_below side_below rc_top
    by (auto simp: isa_has_sidetable_rc_def isa_weakly_referenced_def set_weakly_referenced_def bit_put_flag)
  show "getClass ?L (set_weakly_referenced ?L b w) = getClass ?L w"
    unfolding getClass_def cls_mask set_weakly_referenced_def using weak_not_cls
    by (intro bit_word_eqI) (auto simp: bit_and_iff bit_put_flag bit_push_bit_iff bit_mask_iff)
qed

lemma set_assoc_fields [simp]:
  "isa_nonpointer (set_has_assoc b w) = isa_nonpointer w" "isa_has_assoc (set_has_assoc b w) = b"
  "isa_extra_rc (layout cfg) (set_has_assoc b w) = isa_extra_rc (layout cfg) w"
  "isa_has_sidetable_rc (layout cfg) (set_has_assoc b w) = isa_has_sidetable_rc (layout cfg) w"
  "isa_weakly_referenced (layout cfg) (set_has_assoc b w) = isa_weakly_referenced (layout cfg) w"
  "getClass (layout cfg) (set_has_assoc b w) = getClass (layout cfg) w"
proof -
  let ?L = "layout cfg"
  show "isa_nonpointer (set_has_assoc b w) = isa_nonpointer w" "isa_has_assoc (set_has_assoc b w) = b"
    by (auto simp: isa_nonpointer_def isa_has_assoc_def set_has_assoc_def bit_put_flag)
  show "isa_extra_rc ?L (set_has_assoc b w) = isa_extra_rc ?L w"
    unfolding isa_extra_rc_def set_has_assoc_def using cls_below side_below by (subst get_put_flag_other) auto
  show "isa_has_sidetable_rc ?L (set_has_assoc b w) = isa_has_sidetable_rc ?L w"
    "isa_weakly_referenced ?L (set_has_assoc b w) = isa_weakly_referenced ?L w"
    using cls_below weak_above weak_below side_below rc_top
    by (auto simp: isa_has_sidetable_rc_def isa_weakly_referenced_def set_has_assoc_def bit_put_flag)
  show "getClass ?L (set_has_assoc b w) = getClass ?L w"
    unfolding getClass_def cls_mask set_has_assoc_def
    by (intro bit_word_eqI) (auto simp: bit_and_iff bit_put_flag bit_push_bit_iff bit_mask_iff)
qed

text \<open>Both setters are loops of the same shape: the flag is set in one state that
  the other threads reach, and nothing else is touched.\<close>

definition flag_set :: "u64 \<Rightarrow> (u64 \<Rightarrow> u64) \<Rightarrow> schedule \<Rightarrow> obj_state \<Rightarrow> obj_state \<Rightarrow> bool" where
  "flag_set this f env st st' \<longleftrightarrow> (\<exists>s. env_reach (set env) (set_lock False st) (set_lock False s) \<and>
     obj_inv cfg this s \<and> slock (table s) = slock (table st) \<and> st' = s\<lparr>isa := f (isa s)\<rparr>)"

lemma flag_set_now: "obj_inv cfg this st \<Longrightarrow> f (isa st) = isa st \<Longrightarrow> flag_set this f env st st"
  unfolding flag_set_def by (rule exI [of _ st]) (simp add: env_refl)

lemma flag_set_later:
  assumes "flag_set this f env' s st'" "acts (set env) st s" "set env' \<subseteq> set env"
  shows "flag_set this f env st st'"
  using assms(1) env_reach_trans [OF _ acts_reach [OF assms(2)]] env_reach_mono [OF _ assms(3)] acts_fixed(1) [OF assms(2)]
  unfolding flag_set_def by auto

lemma flag_set_stored:
  assumes "acts (set env) st s" "obj_inv cfg this s"
  shows "flag_set this f env st (s\<lparr>isa := f (isa s)\<rparr>)"
  unfolding flag_set_def using acts_reach [OF assms(1)] acts_fixed(1) [OF assms(1)] assms(2) by blast

lemma setHasAssociatedObjects_loop_correct:
  assumes "obj_inv cfg this st" "\<forall>x\<in>set env. keeps_object cfg this x" "isa st = oldisa"
  shows "\<exists>env' st'. setHasAssociatedObjects_loop oldisa env st = (env', st') \<and> flag_set this (set_has_assoc True) env st st'"
  using assms
proof (induction "length env" arbitrary: env st oldisa rule: less_induct)
  case less
  show ?case
  proof (cases "isa_has_assoc oldisa")
    case True
    then have "set_has_assoc True (isa st) = isa st" using less.prems(3) put_flag_same [of 1 "isa st"]
      by (simp add: set_has_assoc_def isa_has_assoc_def)
    then show ?thesis using True flag_set_now [OF less.prems(1)]
      by (subst setHasAssociatedObjects_loop.simps) simp
  next
    case False
    have loop: "setHasAssociatedObjects_loop oldisa env st =
      (case StoreExclusive oldisa (set_has_assoc True oldisa) env st of (stored, oldisa', env', st') \<Rightarrow>
        if \<not> stored then setHasAssociatedObjects_loop oldisa' env' st' else (env', st'))"
      using False less.prems(1,3) by (subst setHasAssociatedObjects_loop.simps) (auto simp: obj_inv_def obj_wf_def)
    show ?thesis
    proof (cases rule: StoreExclusive_acts [OF less.prems(3), where new = "set_has_assoc True oldisa" and env = env])
      case (1 s env')
      then show ?thesis unfolding loop 1(1)
        using flag_set_stored [OF 1(3) acts_inv [OF 1(3) less.prems(1,2)], of "set_has_assoc True"] by auto
    next
      case (2 s env')
      have "\<forall>x\<in>set env'. keeps_object cfg this x" using less.prems(2) 2(3) by blast
      from less.hyps [OF 2(4) acts_inv [OF 2(2) less.prems(1,2)] this refl] show ?thesis unfolding loop 2(1)
        using flag_set_later [OF _ 2(2,3)] by auto
    qed
  qed
qed

lemma setWeaklyReferenced_loop_correct:
  assumes "obj_inv cfg this st" "\<forall>x\<in>set env. keeps_object cfg this x" "isa st = oldisa"
  shows "\<exists>env' st'. setWeaklyReferenced_loop cfg this oldisa env st = Inr (env', st') \<and>
    flag_set this (set_weakly_referenced (layout cfg) True) env st st'"
  using assms
proof (induction "length env" arbitrary: env st oldisa rule: less_induct)
  case less
  let ?L = "layout cfg"
  have np: "isa_nonpointer oldisa" using less.prems(1,3) by (auto simp: obj_inv_def obj_wf_def)
  show ?case
  proof (cases "isa_weakly_referenced ?L oldisa")
    case True
    then have "set_weakly_referenced ?L True (isa st) = isa st"
      using less.prems(3) put_flag_same [of "weakly_referenced_bit ?L" "isa st"]
      by (simp add: set_weakly_referenced_def isa_weakly_referenced_def)
    then show ?thesis using True flag_set_now [OF less.prems(1)] np
      by (subst setWeaklyReferenced_loop.simps) simp
  next
    case False
    have loop: "setWeaklyReferenced_loop cfg this oldisa env st =
      (case StoreExclusive oldisa (set_weakly_referenced ?L True oldisa) env st of (stored, oldisa', env', st') \<Rightarrow>
        if \<not> stored then setWeaklyReferenced_loop cfg this oldisa' env' st' else Inr (env', st'))"
      using False np by (subst setWeaklyReferenced_loop.simps) auto
    show ?thesis
    proof (cases rule: StoreExclusive_acts [OF less.prems(3), where new = "set_weakly_referenced ?L True oldisa" and env = env])
      case (1 s env')
      then show ?thesis unfolding loop 1(1)
        using flag_set_stored [OF 1(3) acts_inv [OF 1(3) less.prems(1,2)], of "set_weakly_referenced ?L True"] by auto
    next
      case (2 s env')
      have "\<forall>x\<in>set env'. keeps_object cfg this x" using less.prems(2) 2(3) by blast
      from less.hyps [OF 2(4) acts_inv [OF 2(2) less.prems(1,2)] this refl] show ?thesis unfolding loop 2(1)
        using flag_set_later [OF _ 2(2,3)] by auto
    qed
  qed
qed

section \<open>Changing the class\<close>

text \<open>The new class also allows a nonpointer isa: only the class and the
  destructor flag change.\<close>

lemma changeIsa_nonpointer:
  assumes "obj_wf cfg this st" "canAllocNonpointer (classes cfg) newCls" "\<not> isFuture (classes cfg) newCls"
    "class_fits (layout cfg) newCls" "sign_cls cfg newCls this = newCls"
  shows "\<exists>w. changeIsa cfg this newCls [] st = Inr (getClass (layout cfg) (isa st), [], st\<lparr>isa := w\<rparr>) \<and>
    obj_wf cfg this (st\<lparr>isa := w\<rparr>) \<and> retain_count cfg this (st\<lparr>isa := w\<rparr>) = retain_count cfg this st \<and>
    getClass (layout cfg) w = newCls"
proof -
  let ?L = "layout cfg"
  let ?w = "setClass ?L (sign_cls cfg) newCls this (set_has_cxx_dtor ?L (cls_hasCxxDtor (classes cfg) newCls) (isa st))"
  have np: "isa_nonpointer (isa st)" "isa st \<noteq> 0" using assms(1) by (auto simp: obj_wf_def isa_nonpointer_def)
  then have "changeIsa cfg this newCls [] st = Inr (getClass ?L (isa st), [], st\<lparr>isa := ?w\<rparr>)"
    using assms(1-3) unfolding changeIsa_def LoadExclusive.simps prod.case
    by (subst changeIsa_loop.simps) (simp add: Let_def compare_store_def obj_wf_def)
  moreover have "getClass ?L ?w = newCls"
    using getClass_setClass [OF assms(4), of "sign_cls cfg" this] assms(5) by simp
  moreover have "obj_wf cfg this (st\<lparr>isa := ?w\<rparr>)" "retain_count cfg this (st\<lparr>isa := ?w\<rparr>) = retain_count cfg this st"
    using assms(1) by (simp_all add: obj_wf_def retain_count_def)
  ultimately show ?thesis by blast
qed

text \<open>The new class needs a raw isa: the whole count and the weak flag go to the
  side table, whose word counts one less than the object.\<close>

lemma changeIsa_raw:
  assumes "obj_inv cfg this st" "\<not> slock (table st)" "\<not> canAllocNonpointer (classes cfg) newCls"
    "class_fits (layout cfg) newCls" "sign_cls cfg newCls this = newCls" "0 < isa_extra_rc (layout cfg) (isa st)"
  shows "\<exists>st'. changeIsa cfg this newCls [] st = Inr (getClass (layout cfg) (isa st), [], st') \<and>
    \<not> isa_nonpointer (isa st') \<and> getClass (layout cfg) (isa st') = newCls \<and> \<not> slock (table st') \<and>
    unat (rc_word (junk cfg) (table st') this) =
      4 * (retain_count cfg this st - 1) + flags_word False (isa_weakly_referenced (layout cfg) (isa st)) \<and>
    (\<forall>obj. obj \<noteq> this \<longrightarrow> rc_word (junk cfg) (table st') obj = rc_word (junk cfg) (table st) obj)"
proof -
  let ?L = "layout cfg" and ?st = "set_lock True st" and ?x = "isa_extra_rc (layout cfg) (isa st)"
  let ?w = "setClass ?L (sign_cls cfg) newCls this 0" and ?rw = "rc_word (junk cfg) (table st) this"
  let ?k = "isa_weakly_referenced ?L (isa st)"
  have wf: "obj_wf cfg this st" "obj_room cfg this st" using assms(1) by (auto simp: obj_inv_def)
  have np: "isa_nonpointer (isa st)" "isa st \<noteq> 0" using wf by (auto simp: obj_wf_def isa_nonpointer_def)
  have raw: "\<not> isa_nonpointer ?w" by (simp add: isa_nonpointer_def [of 0])
  have nd: "\<not> isDeallocating ?L (isa st)" using assms(6) by (simp add: isDeallocating_def)
  have small: "?x < 2 ^ 60" using extra_rc_less [of "isa st"] rc_half_bounds(2) rc_half_small by simp
  then have ux: "unat (of_nat ?x :: u64) = ?x" by (intro unat_of_nat_u64) simp
  have div4: "4 dvd unat ?rw" using wf(1) dvd_mult_left by (auto simp: obj_wf_def)
  have ok: "table_ok (junk cfg) (table ?st)" "table_room (table ?st)"
    "4 dvd unat (rc_word (junk cfg) (table ?st) this)"
    "unat (rc_word (junk cfg) (table ?st) this) + 4 * (unat (of_nat ?x :: u64) - 1) < 2 ^ 64"
    using wf div4 small by (auto simp: obj_wf_def obj_room_def ux set_lock_def)
  obtain t v where t: "sidetable_moveExtraRC_nolock (junk cfg) this ?w (of_nat ?x) False ?k (table ?st) = Inr t"
    "word_set (junk cfg) (table ?st) this v t" "unat v = unat ?rw + 4 * (?x - 1) + flags_word False ?k"
    using moveExtraRC_spec [OF raw ok(1,2) _ ok(3) _ ok(4), of False ?k] wf(1) assms(6) by (auto simp: ux obj_wf_def)
  have "changeIsa cfg this newCls [] st =
      bindE (obj_unlock (?st\<lparr>isa := ?w, table := t\<rparr>)) (\<lambda>s. Inr (getClass ?L (isa st), [], s))"
    using assms(2,3) np nd wf(1) t(1) unfolding changeIsa_def LoadExclusive.simps prod.case
    by (subst changeIsa_loop.simps) (simp add: Let_def compare_store_def obj_wf_def obj_lock_eq set_lock_def)
  moreover have "slock t" using t(2) by (simp add: word_set_def)
  ultimately have run: "changeIsa cfg this newCls [] st =
      Inr (getClass ?L (isa st), [], set_lock False (?st\<lparr>isa := ?w, table := t\<rparr>))" by (simp add: obj_unlock_eq)
  have "getClass ?L ?w = newCls" using getClass_setClass [OF assms(4), of "sign_cls cfg" this] assms(5) by simp
  moreover have "unat ?rw = 4 * (unat ?rw div 4)" using div4 by simp
  then have "4 * (retain_count cfg this st - 1) = unat ?rw + 4 * (?x - 1)"
    using assms(6) unfolding retain_count_def by linarith
  ultimately show ?thesis using run raw t(2,3)
    by (auto simp: word_set_def set_lock_def)
qed

text \<open>With the whole count in the table, the count is not moved but pinned: the
  word says that the object lives for ever.\<close>

lemma changeIsa_raw_pins:
  assumes "obj_inv cfg this st" "\<not> slock (table st)" "\<not> canAllocNonpointer (classes cfg) newCls"
    "isa_extra_rc (layout cfg) (isa st) = 0" "isa_has_sidetable_rc (layout cfg) (isa st)"
  shows "\<exists>st'. changeIsa cfg this newCls [] st = Inr (getClass (layout cfg) (isa st), [], st') \<and>
    bit (rc_word (junk cfg) (table st') this) 63"
proof -
  let ?L = "layout cfg" and ?st = "set_lock True st"
  let ?w = "setClass ?L (sign_cls cfg) newCls this 0" and ?rw = "rc_word (junk cfg) (table st) this"
  let ?k = "isa_weakly_referenced ?L (isa st)"
  have wf: "obj_wf cfg this st" "obj_room cfg this st" using assms(1) by (auto simp: obj_inv_def)
  have np: "isa_nonpointer (isa st)" "isa st \<noteq> 0" using wf by (auto simp: obj_wf_def isa_nonpointer_def)
  have raw: "\<not> isa_nonpointer ?w" by (simp add: isa_nonpointer_def [of 0])
  have nd: "\<not> isDeallocating ?L (isa st)" using assms(5) by (simp add: isDeallocating_def)
  have ok: "table_ok (junk cfg) (table ?st)" "table_room (table ?st)" "valid_object this"
    "4 dvd unat (rc_word (junk cfg) (table ?st) this)" "rc_word (junk cfg) (table ?st) this \<noteq> 0"
    using wf assms(5) dvd_mult_left by (auto simp: obj_wf_def obj_room_def set_lock_def)
  obtain t v where t: "sidetable_moveExtraRC_nolock (junk cfg) this ?w 0 False ?k (table ?st) = Inr t"
    "word_set (junk cfg) (table ?st) this v t" "unat v = 2 ^ 63 + flags_word False ?k"
    using moveExtraRC_zero [OF raw ok, of False ?k] by blast
  have "changeIsa cfg this newCls [] st =
      bindE (obj_unlock (?st\<lparr>isa := ?w, table := t\<rparr>)) (\<lambda>s. Inr (getClass ?L (isa st), [], s))"
    using assms(2-4) np nd wf(1) t(1) unfolding changeIsa_def LoadExclusive.simps prod.case
    by (subst changeIsa_loop.simps) (simp add: Let_def compare_store_def obj_wf_def obj_lock_eq set_lock_def)
  moreover have "slock t" using t(2) by (simp add: word_set_def)
  ultimately show ?thesis using t(2,3) by (simp add: obj_unlock_eq word_set_def pinned_iff set_lock_def)
qed

section \<open>Try to retain\<close>

text \<open>\<open>rootTryRetain\<close> is called with the lock held (by the loads of weak
  variables).  Without interference it retains the object, or answers nil if
  it is being deallocated, and the lock is still held afterwards.\<close>

lemma tryRetain_alone:
  assumes "obj_inv cfg this st" "slock (table st)"
  shows "\<exists>env' st'. rootRetain cfg this True Fast [] st =
      Inr (if isDeallocating (layout cfg) (isa st) then nil else this, env', st') \<and>
    retain_effect cfg this st st'"
proof -
  let ?L = "layout cfg"
  have wf: "obj_wf cfg this st" using assms(1) by (simp add: obj_inv_def)
  have np: "isa_nonpointer (isa st)" "\<not> isTaggedPointer cfg this" using wf by (auto simp: obj_wf_def)
  obtain v carry where a: "addc (isa st) (RC_ONE ?L) 0 = (v, carry)" by fastforce
  let ?new = "set_has_sidetable_rc ?L True (set_extra_rc ?L (RC_HALF ?L) v)"
  have once: "rootRetain_once cfg this True variant [] st = rootRetain_loop cfg this True variant False (isa st) [] st"
    if "variant \<noteq> FastOrMsgSend" for variant
    using that np by (simp add: rootRetain_once_def Let_def)
  consider (dealloc) "isDeallocating ?L (isa st)" | (inline) "\<not> isDeallocating ?L (isa st)" "\<not> carry"
    | (over) "\<not> isDeallocating ?L (isa st)" carry by blast
  then show ?thesis
  proof cases
    case dealloc
    then show ?thesis using np by (simp add: rootRetain_def once rootRetain_loop.simps retain_effect_def)
  next
    case inline
    then have "rootRetain_loop cfg this True Fast False (isa st) [] st = Inr (Returned this, [], st\<lparr>isa := v\<rparr>)"
      using np a by (subst rootRetain_loop.simps) (simp add: compare_store_def Let_def)
    then show ?thesis using inline a retained_inline [OF wf, of v] by (simp add: rootRetain_def once retain_effect_def)
  next
    case over
    then have fast: "rootRetain_loop cfg this True Fast False (isa st) [] st = Inr (Overflowed, [], st)"
      using np a by (subst rootRetain_loop.simps) simp
    obtain t b where t: "sidetable_addExtraRC_nolock (junk cfg) this ?new (of_nat (RC_HALF ?L)) (table st) = Inr (t, b)"
      "retained cfg this st (st\<lparr>isa := ?new, table := t\<rparr>)"
      using retained_overflow [OF assms(1), of v ?new] a over by auto
    then have "rootRetain_loop cfg this True Full False (isa st) [] st =
        Inr (Returned this, [], st\<lparr>isa := ?new, table := t\<rparr>)"
      using over np a by (subst rootRetain_loop.simps) (simp add: compare_store_def Let_def)
    then show ?thesis using over t(2) fast by (simp add: rootRetain_def once retain_effect_def)
  qed
qed

text \<open>But when the inline count is full and the object is found deallocating
  after a failed store, the unlock at that exit releases the caller's lock.\<close>

lemma tryRetain_race:
  assumes "obj_wf cfg this st" "slock (table st)" "isa_extra_rc (layout cfg) (isa st) + 1 = 2 ^ extra_rc_width (layout cfg)"
    "isa_nonpointer w" "isDeallocating (layout cfg) w"
  shows "rootRetain cfg this True Fast [Quiet, Quiet, Interfere (\<lambda>_. w) f] st =
    Inr (nil, [], set_lock False (st\<lparr>isa := w\<rparr>))"
proof -
  let ?L = "layout cfg"
  have np: "isa_nonpointer (isa st)" "\<not> isTaggedPointer cfg this" using assms(1) by (auto simp: obj_wf_def)
  have pos: "0 < isa_extra_rc ?L (isa st)" using assms(3) rc_half_bounds by linarith
  then have nd: "\<not> isDeallocating ?L (isa st)" "w \<noteq> isa st" using assms(5) by (auto simp: isDeallocating_def)
  obtain v where a: "addc (isa st) (RC_ONE ?L) 0 = (v, True)"
    using addc_one(1) [of "isa st"] assms(3) by (cases "addc (isa st) (RC_ONE ?L) 0") simp
  have once: "rootRetain_once cfg this True variant (Quiet # env) st =
      rootRetain_loop cfg this True variant False (isa st) env st" if "variant \<noteq> FastOrMsgSend" for variant env
    using that np by (simp add: rootRetain_once_def Let_def)
  have fast: "rootRetain_loop cfg this True Fast False (isa st) env st = Inr (Overflowed, env, st)" for env
    using np nd a by (subst rootRetain_loop.simps) simp
  have "rootRetain_loop cfg this True Full True w [] (st\<lparr>isa := w\<rparr>) =
      Inr (Returned nil, [], set_lock False (st\<lparr>isa := w\<rparr>))"
    using assms(2,4,5) by (subst rootRetain_loop.simps) (simp add: obj_unlock_eq)
  then have "rootRetain_loop cfg this True Full False (isa st) [Interfere (\<lambda>_. w) f] st =
      Inr (Returned nil, [], set_lock False (st\<lparr>isa := w\<rparr>))"
    using np nd a assms(2) by (subst rootRetain_loop.simps) (simp add: compare_store_def Let_def)
  then show ?thesis by (simp add: rootRetain_def once fast)
qed

section \<open>Other threads that retain and release\<close>

lemma inline_change_keeps:
  assumes "\<And>w. take_bit (extra_rc_shift (layout cfg)) (f w) = take_bit (extra_rc_shift (layout cfg)) w"
  shows "keeps_object cfg this (Interfere f (\<lambda>w m. (f w, m)))"
proof -
  note keep = low_fields [OF assms]
  show ?thesis by (auto simp: keeps_object_def obj_inv_def obj_wf_def obj_room_def keep)
qed

end

text \<open>Another thread retains or releases within the inline count.\<close>

definition other_retain :: "isa_layout \<Rightarrow> interference" where
  "other_retain L = (let f = (\<lambda>w. case addc w (RC_ONE L) 0 of (v, carry) \<Rightarrow> if carry then w else v)
     in Interfere f (\<lambda>w m. (f w, m)))"

definition other_release :: "isa_layout \<Rightarrow> interference" where
  "other_release L = (let f = (\<lambda>w. case subc w (RC_ONE L) 0 of (v, carry) \<Rightarrow> if carry then w else v)
     in Interfere f (\<lambda>w m. (f w, m)))"

context counted_object
begin

lemma other_retain_keeps: "keeps_object cfg this (other_retain (layout cfg))"
  unfolding other_retain_def Let_def
  by (rule inline_change_keeps) (auto split: prod.split dest: addc_one(3))

lemma other_release_keeps: "keeps_object cfg this (other_release (layout cfg))"
  unfolding other_release_def Let_def
  by (rule inline_change_keeps) (auto split: prod.split dest: subc_one(3))

end

section \<open>The three layouts\<close>

interpretation arm64e_object: counted_object "cfg\<lparr>layout := arm64e_layout\<rparr>" for cfg
  by (simp add: counted_object_def arm64e.packed_isa_axioms)

interpretation arm64_object: counted_object "cfg\<lparr>layout := arm64_layout\<rparr>" for cfg
  by (simp add: counted_object_def arm64.packed_isa_axioms)

interpretation x86_64_object: counted_object "cfg\<lparr>layout := x86_64_layout\<rparr>" for cfg
  by (simp add: counted_object_def x86_64.packed_isa_axioms)

lemma counted_objectI:
  "layout cfg = arm64e_layout \<or> layout cfg = arm64_layout \<or> layout cfg = x86_64_layout \<Longrightarrow> counted_object cfg"
  using arm64e_object.counted_object_axioms [of cfg] arm64_object.counted_object_axioms [of cfg]
    x86_64_object.counted_object_axioms [of cfg] by (auto simp: counted_object_def)

lemma keeps_object_simple: "keeps_object cfg this Quiet" "keeps_object cfg this Spurious"
  by (auto simp: keeps_object_def)

section \<open>A concrete object\<close>

text \<open>A process on x86_64 whose classes are ordinary, and an object of the class
  at 0x1000 with inline count \<open>n\<close> in an empty side table.\<close>

definition plain_classes :: class_flags where
  "plain_classes = \<lparr>hasCustomRR = (\<lambda>_. False), canCallSwiftRR = (\<lambda>_. False), isMetaClass = (\<lambda>_. False),
     isFuture = (\<lambda>_. False), canAllocNonpointer = (\<lambda>c. c = 4096), instancesRequireRawIsa = (\<lambda>_. False),
     cls_hasCxxDtor = (\<lambda>_. False), implementsNoteAssociated = (\<lambda>_. False)\<rparr>"

definition x86_config :: rt_config where
  "x86_config = \<lparr>layout = x86_64_layout, tag_mask = 1, junk = (0, 0), sign_cls = (\<lambda>c _. c),
     classes = plain_classes, DisableNonpointerIsa = False, msg_result = 0\<rparr>"

definition empty_table :: side_table where
  "empty_table = \<lparr>slock = False, refcnts = \<lparr>Buckets = [], NumEntries = 0, NumTombstones = 0, NumBuckets = 0\<rparr>\<rparr>"

definition x86_object :: "nat \<Rightarrow> obj_state" where
  "x86_object n = \<lparr>isa = set_extra_rc x86_64_layout n (setClass x86_64_layout (\<lambda>c _. c) 4096 0 (ISA_MAGIC_VALUE x86_64_layout)),
     table = empty_table, events = []\<rparr>"

lemma x86_config_simps [simp]:
  "layout x86_config = x86_64_layout" "junk x86_config = (0, 0)" "classes x86_config = plain_classes"
  "sign_cls x86_config = (\<lambda>c _. c)" "\<not> DisableNonpointerIsa x86_config" "isTaggedPointer x86_config p = odd p"
  "canAllocNonpointer plain_classes c = (c = 4096)" "\<not> isFuture plain_classes c" "\<not> hasCustomRR plain_classes c"
  "\<not> instancesRequireRawIsa plain_classes c"
  by (simp_all add: x86_config_def plain_classes_def isTaggedPointer_def and_one_eq odd_iff_mod_2_eq_one)

lemma empty_table_ok [simp]:
  "table_ok j empty_table" "table_room empty_table" "\<not> slock empty_table" "rc_word j empty_table this = 0"
  by (simp_all add: empty_table_def table_ok_def table_room_def rc_word_def rc_entry_def dm_inv_def dm_map_def
      dm_shape_def dm_counts_def dm_distinct_def dm_reachable_def live_at_def live_list_def tomb_list_def list_map_def)

lemma x86_object_simps [simp]:
  "table (x86_object n) = empty_table" "events (x86_object n) = []"
  "isa_nonpointer (isa (x86_object n))" "\<not> isa_has_sidetable_rc x86_64_layout (isa (x86_object n))"
  "n < 256 \<Longrightarrow> isa_extra_rc x86_64_layout (isa (x86_object n)) = n"
  using x86_64.magic x86_64.set_extra_rc_get [of n] by (simp_all add: x86_object_def isa_nonpointer_def [of "ISA_MAGIC_VALUE _"]
      isa_has_sidetable_rc_def [of _ "ISA_MAGIC_VALUE _"] x86_64_layout_def [THEN arg_cong [of _ _ extra_rc_width]])

lemma x86_object_inv [simp]: "this = 16 \<Longrightarrow> obj_inv x86_config this (x86_object n)"
  by (simp add: obj_inv_def obj_wf_def obj_room_def valid_object_def)

text \<open>The same object with all of its counts, one portion, in the side table.\<close>

definition x86_side_object :: obj_state where
  "x86_side_object = (let w = set_has_sidetable_rc x86_64_layout True (isa (x86_object 0))
     in \<lparr>isa = w, table = (case sidetable_addExtraRC_nolock (0, 0) 16 w 128 empty_table of
           Inr (t, _) \<Rightarrow> t | Inl _ \<Rightarrow> empty_table), events = []\<rparr>)"

lemma x86_side_object_ok:
  "obj_wf x86_config 16 x86_side_object" "\<not> slock (table x86_side_object)"
  "rc_word (0, 0) (table x86_side_object) 16 = 512" "obj_inv x86_config 16 x86_side_object"
  "isa_extra_rc x86_64_layout (isa x86_side_object) = 0" "isa_has_sidetable_rc x86_64_layout (isa x86_side_object)"
proof -
  let ?w = "set_has_sidetable_rc x86_64_layout True (isa (x86_object 0))"
  have np: "isa_nonpointer ?w" by simp
  obtain t v where t: "sidetable_addExtraRC_nolock (0, 0) 16 ?w 128 empty_table = Inr (t, False)"
    "word_set (0, 0) empty_table 16 v t" "unat v = 512"
    using addExtraRC_spec [OF np, of "(0, 0)" empty_table 16 128] by (auto simp: valid_object_def)
  have st: "x86_side_object = \<lparr>isa = ?w, table = t, events = []\<rparr>"
    unfolding x86_side_object_def Let_def t(1) by simp
  have v: "v = 512" using t(3) by (simp add: word_unat_eq_iff)
  have half: "RC_HALF x86_64_layout = 128" by (simp add: x86_64_layout_def)
  show side: "\<not> slock (table x86_side_object)" "rc_word (0, 0) (table x86_side_object) 16 = 512"
    "isa_extra_rc x86_64_layout (isa x86_side_object) = 0" "isa_has_sidetable_rc x86_64_layout (isa x86_side_object)"
    unfolding st using t(2) v by (auto simp: word_set_def)
  show wf: "obj_wf x86_config 16 x86_side_object"
    unfolding st obj_wf_def using t(2) v by (simp add: word_set_def valid_object_def half)
  have "NumEntries (refcnts empty_table) < 2 ^ 27" by (simp add: empty_table_def)
  then have "table_room (table x86_side_object)" unfolding st using t(2) by (auto simp: word_set_def)
  then show "obj_inv x86_config 16 x86_side_object" using wf side(2) by (simp add: obj_inv_def obj_room_def)
qed

end
