(* ===== verification/RefCounter.thy ===== *)
theory RefCounter
  imports ObjcObject_Lifecycle
begin

text \<open>
  The contract of reference counting that both representations of an object
  fulfil, and what follows from it for any sequence of retains and releases.
  The provider here is the object with a nonpointer isa.
\<close>

section \<open>The contract\<close>

text \<open>A counter that may not be used any more once it is at zero.\<close>

fun live_step :: "rr_op \<Rightarrow> nat \<Rightarrow> nat option" where
  "live_step _ 0 = None"
| "live_step Retain (Suc n) = Some (n + 2)"
| "live_step Release (Suc n) = Some n"

fun live_run :: "rr_op list \<Rightarrow> nat \<Rightarrow> nat option" where
  "live_run [] n = Some n"
| "live_run (x # ops) n = Option.bind (live_step x n) (live_run ops)"

text \<open>Running a sequence of operations; \<open>None\<close> if there is no room at some point.\<close>

fun run_ops ::
  "('s \<Rightarrow> bool) \<Rightarrow> ('s \<Rightarrow> fault + 's) \<Rightarrow> ('s \<Rightarrow> fault + 's) \<Rightarrow> rr_op list \<Rightarrow> 's \<Rightarrow> (fault + 's) option" where
  "run_ops room retain release [] s = Some (Inr s)"
| "run_ops room retain release (x # ops) s = (if \<not> room s then None
     else case (if x = Retain then retain s else release s) of
       Inl e \<Rightarrow> Some (Inl e) | Inr s' \<Rightarrow> run_ops room retain release ops s')"

locale ref_counter =
  fixes inv :: "'s \<Rightarrow> bool" and room :: "'s \<Rightarrow> bool" and count :: "'s \<Rightarrow> nat" and sent :: "'s \<Rightarrow> event list"
    and retain :: "'s \<Rightarrow> fault + 's" and release :: "'s \<Rightarrow> fault + 's"
  assumes retain_law: "inv s \<Longrightarrow> room s \<Longrightarrow> 0 < count s \<Longrightarrow>
      \<exists>s'. retain s = Inr s' \<and> inv s' \<and> count s' = count s + 1 \<and> sent s' = sent s"
    and release_law: "inv s \<Longrightarrow> room s \<Longrightarrow> 0 < count s \<Longrightarrow>
      \<exists>s'. release s = Inr s' \<and> inv s' \<and> count s' = count s - 1 \<and>
        sent s' = sent s @ (if count s = 1 then [MsgDealloc] else [])"
begin

lemma run_counts:
  assumes "inv s" "0 < count s" "live_run ops (count s) = Some n" "run_ops room retain release ops s = Some r"
  shows "\<exists>s'. r = Inr s' \<and> inv s' \<and> count s' = n \<and> sent s' = sent s @ (if n = 0 then [MsgDealloc] else [])"
  using assms
proof (induction ops arbitrary: s)
  case (Cons x ops)
  obtain k where k: "live_step x (count s) = Some k" "live_run ops k = Some n" using Cons.prems(3) by (auto simp: bind_eq_Some_conv)
  have room: "room s" using Cons.prems(4) by (auto split: if_splits)
  have "\<exists>s'. (if x = Retain then retain s else release s) = Inr s' \<and> inv s' \<and> count s' = k \<and>
      sent s' = sent s @ (if k = 0 then [MsgDealloc] else [])"
    using k(1) retain_law [OF Cons.prems(1) room Cons.prems(2)] release_law [OF Cons.prems(1) room Cons.prems(2)]
    by (cases x; cases "count s") auto
  then obtain s' where s': "(if x = Retain then retain s else release s) = Inr s'" "inv s'" "count s' = k"
    "sent s' = sent s @ (if k = 0 then [MsgDealloc] else [])" by blast
  have r: "run_ops room retain release ops s' = Some r" using Cons.prems(4) room s'(1) by simp
  show ?case
  proof (cases "k = 0")
    case True
    then have "ops = []" using k(2) by (cases ops) auto
    then show ?thesis using True k(2) r s' by auto
  next
    case False
    then show ?thesis using Cons.IH [OF s'(2) _ _ r] k(2) s'(3,4) by auto
  qed
qed auto

end

section \<open>Objects with a nonpointer isa\<close>

definition np_inv :: "rt_config \<Rightarrow> u64 \<Rightarrow> obj_state \<Rightarrow> bool" where
  "np_inv cfg this st \<longleftrightarrow> obj_wf cfg this st \<and> \<not> slock (table st)"

definition np_retain :: "rt_config \<Rightarrow> u64 \<Rightarrow> obj_state \<Rightarrow> fault + obj_state" where
  "np_retain cfg this st = bindE (rootRetain cfg this False Fast [] st) (\<lambda>(_, _, st'). Inr st')"

definition np_release :: "rt_config \<Rightarrow> u64 \<Rightarrow> obj_state \<Rightarrow> fault + obj_state" where
  "np_release cfg this st = bindE (rootRelease cfg this True Fast [] st) (\<lambda>(_, _, st'). Inr st')"

lemma np_ref_counter:
  assumes "counted_object cfg"
  shows "ref_counter (np_inv cfg this) (obj_room cfg this) (retain_count cfg this) events (np_retain cfg this) (np_release cfg this)"
proof
  fix s assume s: "np_inv cfg this s" "obj_room cfg this s" "0 < retain_count cfg this s"
  have nd: "\<not> isDeallocating (layout cfg) (isa s)"
    using counted_object.deallocating_iff [OF assms] s by (auto simp: np_inv_def)
  show "\<exists>s'. np_retain cfg this s = Inr s' \<and> np_inv cfg this s' \<and> retain_count cfg this s' = retain_count cfg this s + 1 \<and>
      events s' = events s"
    using counted_object.retain_alone [OF assms, of this s] s nd
    by (auto simp: np_inv_def np_retain_def retain_effect_def retained_def rest_kept_def)
  show "\<exists>s'. np_release cfg this s = Inr s' \<and> np_inv cfg this s' \<and> retain_count cfg this s' = retain_count cfg this s - 1 \<and>
      events s' = events s @ (if retain_count cfg this s = 1 then [MsgDealloc] else [])"
    using counted_object.release_alone [OF assms, of this s True] s nd
    by (auto simp: np_inv_def np_release_def release_effect_def released_def rest_kept_def)
qed

interpretation x86_np: ref_counter "np_inv (cfg\<lparr>layout := x86_64_layout\<rparr>) this" "obj_room (cfg\<lparr>layout := x86_64_layout\<rparr>) this"
  "retain_count (cfg\<lparr>layout := x86_64_layout\<rparr>) this" events "np_retain (cfg\<lparr>layout := x86_64_layout\<rparr>) this"
  "np_release (cfg\<lparr>layout := x86_64_layout\<rparr>) this" for cfg this
  by (rule np_ref_counter [OF x86_64_object.counted_object_axioms])

interpretation arm64_np: ref_counter "np_inv (cfg\<lparr>layout := arm64_layout\<rparr>) this" "obj_room (cfg\<lparr>layout := arm64_layout\<rparr>) this"
  "retain_count (cfg\<lparr>layout := arm64_layout\<rparr>) this" events "np_retain (cfg\<lparr>layout := arm64_layout\<rparr>) this"
  "np_release (cfg\<lparr>layout := arm64_layout\<rparr>) this" for cfg this
  by (rule np_ref_counter [OF arm64_object.counted_object_axioms])

end
