(* ===== verification/RawObject.thy ===== *)
theory RawObject
  imports RefCounter
begin

text \<open>
  The runtime built without nonpointer isa (\<^verbatim>\<open>objc-object.h\<close>, the half for
  \<open>not SUPPORT_NONPOINTER_ISA\<close>): the isa is the class pointer and the whole
  count is in the side table.  The object fulfils the same contract as one
  with a nonpointer isa.
\<close>

section \<open>State and operations\<close>

text \<open>The associated-objects flag is kept by class here: \<open>assoc\<close> tells which classes
  have it.  The side table functions assert a raw isa only in a build with
  nonpointer isas; they are passed a raw one.\<close>

definition raw_setClass :: "u64 \<Rightarrow> u64 \<Rightarrow> u64" where
  "raw_setClass newCls obj = newCls"

definition raw_getClass :: "u64 \<Rightarrow> u64" where
  "raw_getClass w = w"

definition raw_getDecodedClass :: "u64 \<Rightarrow> u64" where
  "raw_getDecodedClass w = raw_getClass w"

definition raw_ISA :: "rt_config \<Rightarrow> u64 \<Rightarrow> obj_state \<Rightarrow> fault + u64" where
  "raw_ISA cfg this st = (if isTaggedPointer cfg this then Inl AssertFailed else Inr (raw_getClass (isa st)))"

definition raw_rawISA :: "rt_config \<Rightarrow> u64 \<Rightarrow> obj_state \<Rightarrow> fault + u64" where
  "raw_rawISA cfg this st = raw_ISA cfg this st"

definition raw_hasNonpointerIsa :: "obj_state \<Rightarrow> bool" where
  "raw_hasNonpointerIsa st = False"

definition raw_initIsa :: "rt_config \<Rightarrow> u64 \<Rightarrow> u64 \<Rightarrow> obj_state \<Rightarrow> fault + obj_state" where
  "raw_initIsa cfg this cls st =
     (if isTaggedPointer cfg this then Inl AssertFailed else Inr (st\<lparr>isa := raw_setClass cls this\<rparr>))"

definition raw_initClassIsa :: "rt_config \<Rightarrow> u64 \<Rightarrow> u64 \<Rightarrow> obj_state \<Rightarrow> fault + obj_state" where
  "raw_initClassIsa cfg this cls st = raw_initIsa cfg this cls st"

definition raw_initProtocolIsa :: "rt_config \<Rightarrow> u64 \<Rightarrow> u64 \<Rightarrow> obj_state \<Rightarrow> fault + obj_state" where
  "raw_initProtocolIsa cfg this cls st = raw_initIsa cfg this cls st"

definition raw_initInstanceIsa :: "rt_config \<Rightarrow> u64 \<Rightarrow> u64 \<Rightarrow> bool \<Rightarrow> obj_state \<Rightarrow> fault + obj_state" where
  "raw_initInstanceIsa cfg this cls b st = raw_initIsa cfg this cls st"

definition raw_initIsa3 :: "rt_config \<Rightarrow> u64 \<Rightarrow> u64 \<Rightarrow> bool \<Rightarrow> bool \<Rightarrow> obj_state \<Rightarrow> fault + obj_state" where
  "raw_initIsa3 cfg this cls b c st = raw_initIsa cfg this cls st"

definition raw_changeIsa ::
  "rt_config \<Rightarrow> u64 \<Rightarrow> u64 \<Rightarrow> (u64 \<Rightarrow> bool) \<Rightarrow> obj_state \<Rightarrow> fault + (u64 \<times> (u64 \<Rightarrow> bool) \<times> obj_state)" where
  "raw_changeIsa cfg this cls assoc st =
     (if isTaggedPointer cfg this then Inl AssertFailed
      else let oldisa = isa st;
               st = st\<lparr>isa := raw_setClass cls this\<rparr>;
               oldcls = raw_getDecodedClass oldisa;
               assoc = (if oldcls \<noteq> nil \<and> assoc oldcls then assoc(cls := True) else assoc)
           in Inr (oldcls, assoc, st))"

text \<open>\<open>getIsa()\<close> is the class of the object, or for a tagged pointer the one
  \<open>tagged_class\<close> of its tag.\<close>

definition raw_getIsa :: "rt_config \<Rightarrow> (u64 \<Rightarrow> u64) \<Rightarrow> u64 \<Rightarrow> obj_state \<Rightarrow> u64" where
  "raw_getIsa cfg tagged_class this st =
     (if isTaggedPointer cfg this then tagged_class this else raw_getClass (isa st))"

definition raw_hasAssociatedObjects ::
  "rt_config \<Rightarrow> (u64 \<Rightarrow> u64) \<Rightarrow> u64 \<Rightarrow> (u64 \<Rightarrow> bool) \<Rightarrow> obj_state \<Rightarrow> bool" where
  "raw_hasAssociatedObjects cfg tagged_class this assoc st = assoc (raw_getIsa cfg tagged_class this st)"

definition raw_setHasAssociatedObjects ::
  "rt_config \<Rightarrow> (u64 \<Rightarrow> u64) \<Rightarrow> u64 \<Rightarrow> (u64 \<Rightarrow> bool) \<Rightarrow> obj_state \<Rightarrow> u64 \<Rightarrow> bool" where
  "raw_setHasAssociatedObjects cfg tagged_class this assoc st = assoc(raw_getIsa cfg tagged_class this st := True)"

definition raw_isWeaklyReferenced :: "rt_config \<Rightarrow> u64 \<Rightarrow> obj_state \<Rightarrow> fault + (bool \<times> obj_state)" where
  "raw_isWeaklyReferenced cfg this st =
     (if isTaggedPointer cfg this then Inl AssertFailed
      else bindE (sidetable_isWeaklyReferenced (junk cfg) this (table st)) (\<lambda>(t, b). Inr (b, st\<lparr>table := t\<rparr>)))"

definition raw_setWeaklyReferenced_nolock :: "rt_config \<Rightarrow> u64 \<Rightarrow> obj_state \<Rightarrow> fault + obj_state" where
  "raw_setWeaklyReferenced_nolock cfg this st =
     (if isTaggedPointer cfg this then Inl AssertFailed
      else bindE (sidetable_setWeaklyReferenced_nolock (junk cfg) this 0 (table st)) (\<lambda>t. Inr (st\<lparr>table := t\<rparr>)))"

definition raw_hasCxxDtor :: "rt_config \<Rightarrow> u64 \<Rightarrow> obj_state \<Rightarrow> fault + bool" where
  "raw_hasCxxDtor cfg this st =
     (if isTaggedPointer cfg this then Inl AssertFailed
      else Inr (cls_hasCxxDtor (classes cfg) (raw_getClass (isa st))))"

definition raw_rootIsDeallocating :: "rt_config \<Rightarrow> u64 \<Rightarrow> obj_state \<Rightarrow> fault + bool" where
  "raw_rootIsDeallocating cfg this st =
     (if isTaggedPointer cfg this then Inr False else sidetable_isDeallocating (junk cfg) this (table st))"

definition raw_clearDeallocating :: "rt_config \<Rightarrow> u64 \<Rightarrow> obj_state \<Rightarrow> fault + obj_state" where
  "raw_clearDeallocating cfg this st = sidetable_clearDeallocating cfg this st"

definition raw_rootDealloc :: "rt_config \<Rightarrow> u64 \<Rightarrow> obj_state \<Rightarrow> obj_state" where
  "raw_rootDealloc cfg this st = (if isTaggedPointer cfg this then st else emit CallObjectDispose st)"

definition raw_rootRetain :: "rt_config \<Rightarrow> u64 \<Rightarrow> obj_state \<Rightarrow> fault + (u64 \<times> obj_state)" where
  "raw_rootRetain cfg this st =
     (if isTaggedPointer cfg this then Inr (this, st)
      else bindE (sidetable_retain (junk cfg) this 0 False (table st)) (\<lambda>(t, r). Inr (r, st\<lparr>table := t\<rparr>)))"

definition raw_retain :: "rt_config \<Rightarrow> u64 \<Rightarrow> obj_state \<Rightarrow> fault + (u64 \<times> obj_state)" where
  "raw_retain cfg this st =
     (if isTaggedPointer cfg this then Inl AssertFailed
      else bindE (raw_ISA cfg this st) (\<lambda>c.
        if \<not> hasCustomRR (classes cfg) c
        then bindE (sidetable_retain (junk cfg) this 0 False (table st)) (\<lambda>(t, r). Inr (r, st\<lparr>table := t\<rparr>))
        else Inr (msg_result cfg, emit MsgRetain st)))"

definition raw_rootRelease :: "rt_config \<Rightarrow> u64 \<Rightarrow> bool \<Rightarrow> obj_state \<Rightarrow> fault + (bool \<times> obj_state)" where
  "raw_rootRelease cfg this performDealloc st =
     (if isTaggedPointer cfg this then Inr (False, st)
      else bindE (sidetable_release (junk cfg) this 0 False performDealloc (table st)) (\<lambda>(t, do_dealloc, sent).
        let st = st\<lparr>table := t\<rparr> in Inr (do_dealloc, if sent then emit MsgDealloc st else st)))"

definition raw_release :: "rt_config \<Rightarrow> u64 \<Rightarrow> obj_state \<Rightarrow> fault + obj_state" where
  "raw_release cfg this st =
     (if isTaggedPointer cfg this then Inl AssertFailed
      else bindE (raw_ISA cfg this st) (\<lambda>c.
        if \<not> hasCustomRR (classes cfg) c
        then bindE (raw_rootRelease cfg this True st) (\<lambda>(_, st). Inr st)
        else Inr (emit MsgRelease st)))"

definition raw_rootReleaseShouldDealloc :: "rt_config \<Rightarrow> u64 \<Rightarrow> obj_state \<Rightarrow> fault + (bool \<times> obj_state)" where
  "raw_rootReleaseShouldDealloc cfg this st =
     (if isTaggedPointer cfg this then Inr (False, st) else raw_rootRelease cfg this False st)"

definition raw_rootTryRetain :: "rt_config \<Rightarrow> u64 \<Rightarrow> obj_state \<Rightarrow> fault + (bool \<times> obj_state)" where
  "raw_rootTryRetain cfg this st =
     (if isTaggedPointer cfg this then Inr (True, st)
      else bindE (sidetable_tryRetain (junk cfg) this 0 (table st)) (\<lambda>(t, ok). Inr (ok, st\<lparr>table := t\<rparr>)))"

definition raw_rootRetainCount :: "rt_config \<Rightarrow> u64 \<Rightarrow> obj_state \<Rightarrow> fault + (u64 \<times> obj_state)" where
  "raw_rootRetainCount cfg this st =
     (if isTaggedPointer cfg this then Inr (this, st)
      else bindE (sidetable_retainCount (junk cfg) this (table st)) (\<lambda>(t, n). Inr (n, st\<lparr>table := t\<rparr>)))"

section \<open>The count in the side table\<close>

text \<open>The word counts the references but one; the deallocating bit is set when the
  last one is gone.\<close>

definition raw_count :: "rt_config \<Rightarrow> u64 \<Rightarrow> obj_state \<Rightarrow> nat" where
  "raw_count cfg this st = (let w = rc_word (junk cfg) (table st) this in if bit w 1 then 0 else 1 + unat w div 4)"

definition raw_inv :: "rt_config \<Rightarrow> u64 \<Rightarrow> obj_state \<Rightarrow> bool" where
  "raw_inv cfg this st \<longleftrightarrow> valid_object this \<and> \<not> isTaggedPointer cfg this \<and> table_ok (junk cfg) (table st) \<and>
     \<not> slock (table st) \<and> unat (rc_word (junk cfg) (table st) this) < 2 ^ 63"

definition raw_do_retain :: "rt_config \<Rightarrow> u64 \<Rightarrow> obj_state \<Rightarrow> fault + obj_state" where
  "raw_do_retain cfg this st = bindE (raw_rootRetain cfg this st) (\<lambda>(_, st'). Inr st')"

definition raw_do_release :: "rt_config \<Rightarrow> u64 \<Rightarrow> obj_state \<Rightarrow> fault + obj_state" where
  "raw_do_release cfg this st = bindE (raw_rootRelease cfg this True st) (\<lambda>(_, st'). Inr st')"

lemma bit_1_unat: "bit (w :: u64) 1 \<longleftrightarrow> odd (unat w div 2)"
proof -
  have "bit w 1 \<longleftrightarrow> bit (unat w) 1" by (simp add: bit_unsigned_iff)
  then show ?thesis by (simp only: bit_iff_odd power_one_right)
qed

lemma unat_numeral_2: "unat (2 :: u64) = 2"
  by simp

lemma raw_word_cases:
  fixes w :: u64
  assumes "\<not> bit w 1"
  shows "w < 2 \<longleftrightarrow> unat w div 4 = 0"
proof -
  obtain k where "unat w div 2 = 2 * k" using assms unfolding bit_1_unat by (auto elim!: evenE)
  then show ?thesis unfolding word_less_nat_alt unat_numeral_2 by presburger
qed

lemma raw_retained_word:
  assumes "\<not> bit w 1" "unat w < 2 ^ 62"
  shows "retained_word w = w + 4" "unat (w + 4) = unat w + 4" "\<not> bit (w + 4) 1"
proof -
  have "\<not> bit w 63" using assms(2) by (simp add: pinned_iff)
  then show "retained_word w = w + 4" by (simp add: retained_word_def SIDE_TABLE_RC_ONE_def)
  show u: "unat (w + 4) = unat w + 4" using assms(2) by (subst unat_add_nowrap_u64) auto
  show "\<not> bit (w + 4) 1" using assms(1) unfolding bit_1_unat u by presburger
qed

lemma raw_released_word:
  assumes "\<not> bit w 1" "unat w < 2 ^ 62" "released_word w = (v, dl)"
  shows "dl \<longleftrightarrow> unat w div 4 = 0" "unat v < 2 ^ 63"
    "dl \<Longrightarrow> bit v 1" "\<not> dl \<Longrightarrow> \<not> bit v 1" "\<not> dl \<Longrightarrow> unat v div 4 = unat w div 4 - 1"
proof -
  have np: "\<not> bit w 63" using assms(2) by (simp add: pinned_iff)
  have two: "SIDE_TABLE_DEALLOCATING = 2" by (simp add: SIDE_TABLE_DEALLOCATING_def)
  show dl: "dl \<longleftrightarrow> unat w div 4 = 0"
    using assms(3) np raw_word_cases [OF assms(1)] by (auto simp: released_word_def two split: if_splits)
  have low: "unat (w OR 2) < 2 ^ 63" "bit (w OR 2) 1" if "unat w div 4 = 0"
  proof -
    have "w = 0 \<or> w = 1" using that raw_word_cases [OF assms(1)] by (auto simp: word_less_nat_alt word_unat_eq_iff)
    then show "unat (w OR 2) < 2 ^ 63" "bit (w OR 2) 1" by (auto simp: bit_or_iff)
  qed
  have high: "v = w - 4 \<and> unat (w - 4) = unat w - 4 \<and> 4 \<le> unat w" if "\<not> dl"
  proof -
    have "4 \<le> unat w" using that dl by (cases "4 \<le> unat w") auto
    then show ?thesis using assms(3) that np unat_sub_u64 [of 4 w]
      by (auto simp: released_word_def two SIDE_TABLE_RC_ONE_def split: if_splits)
  qed
  have v: "v = w OR 2" if dl
    using that assms(3) by (auto simp: released_word_def two split: if_splits)
  show "unat v < 2 ^ 63" using high assms(2) low(1) dl v by (cases dl) auto
  show "dl \<Longrightarrow> bit v 1" using low(2) dl v by simp
  show "\<not> dl \<Longrightarrow> unat v div 4 = unat w div 4 - 1" using high by auto
  obtain k where "unat w div 2 = 2 * k" using assms(1) unfolding bit_1_unat by (auto elim!: evenE)
  then have "even ((unat w - 4) div 2)" by presburger
  then show "\<not> dl \<Longrightarrow> \<not> bit v 1" using high unfolding bit_1_unat by simp
qed

section \<open>The contract\<close>

lemma raw_isa_0: "\<not> isa_nonpointer 0"
  by (simp add: isa_nonpointer_def)

interpretation raw_counter: ref_counter "raw_inv cfg this" "obj_room cfg this" "raw_count cfg this" events
  "raw_do_retain cfg this"
  "raw_do_release cfg this" for cfg this
proof
  fix s assume s: "raw_inv cfg this s" "obj_room cfg this s" "0 < raw_count cfg this s"
  let ?w = "rc_word (junk cfg) (table s) this"
  have ok: "table_ok (junk cfg) (table s)" "table_room (table s)" "valid_object this" "slock (table s) = False"
    "\<not> isTaggedPointer cfg this" "unat ?w < 2 ^ 62" using s(1,2) by (auto simp: raw_inv_def obj_room_def)
  have alive: "\<not> bit ?w 1" using s(3) by (auto simp: raw_count_def Let_def split: if_splits)
  obtain t where "sidetable_retain (junk cfg) this 0 False (table s) = Inr (t, this)" "table_ok (junk cfg) t" "\<not> slock t"
    "rc_word (junk cfg) t this = retained_word ?w"
    using sidetable_retain_spec [OF raw_isa_0 ok(1-4)] by auto
  then show "\<exists>s'. raw_do_retain cfg this s = Inr s' \<and> raw_inv cfg this s' \<and>
      raw_count cfg this s' = raw_count cfg this s + 1 \<and> events s' = events s"
    using ok alive raw_retained_word [OF alive ok(6)] by (auto simp: raw_do_retain_def raw_rootRetain_def raw_inv_def raw_count_def Let_def)
  obtain v dl where v: "released_word ?w = (v, dl)" by fastforce
  note r = raw_released_word [OF alive ok(6) v]
  obtain t where t: "sidetable_release (junk cfg) this 0 False True (table s) = Inr (t, dl, dl)" "table_ok (junk cfg) t"
    "\<not> slock t" "rc_word (junk cfg) t this = v"
    using sidetable_release_spec [OF raw_isa_0 ok(1-4) v, of True] by auto
  show "\<exists>s'. raw_do_release cfg this s = Inr s' \<and> raw_inv cfg this s' \<and>
      raw_count cfg this s' = raw_count cfg this s - 1 \<and>
      events s' = events s @ (if raw_count cfg this s = 1 then [MsgDealloc] else [])"
    using t r ok alive by (cases dl) (auto simp: raw_do_release_def raw_rootRelease_def raw_inv_def raw_count_def emit_def Let_def)
qed

lemma raw_rootRetainCount_correct:
  assumes "raw_inv cfg this st" "0 < raw_count cfg this st"
  shows "\<exists>n. raw_rootRetainCount cfg this st = Inr (n, st) \<and> unat n = raw_count cfg this st"
proof -
  let ?w = "rc_word (junk cfg) (table st) this" and ?t = "(table st)\<lparr>slock := True\<rparr>"
  have ok: "valid_object this" "\<not> isTaggedPointer cfg this" "table_ok (junk cfg) ?t" "\<not> slock (table st)" "unat ?w < 2 ^ 63"
    using assms(1) by (auto simp: raw_inv_def)
  have alive: "\<not> bit ?w 1" using assms(2) by (auto simp: raw_count_def Let_def split: if_splits)
  have n: "unat (1 + drop_bit 2 ?w) = raw_count cfg this st"
  proof -
    have "unat (drop_bit 2 ?w) = unat ?w div 4" by (simp add: drop_bit_eq_div unat_div)
    then show ?thesis using ok(5) alive by (subst unat_add_nowrap_u64) (simp_all add: raw_count_def Let_def)
  qed
  have unlock: "sidetable_unlock ?t = Inr (table st)" using ok(4) by (cases "table st") (simp add: sidetable_unlock_def)
  have "sidetable_retainCount (junk cfg) this (table st) = Inr (table st, 1 + drop_bit 2 ?w)"
  proof (cases "rc_entry (junk cfg) ?t this")
    case None
    then show ?thesis using refcnt_find_spec(1) [OF ok(3,1)] ok(4) unlock
      by (simp add: sidetable_retainCount_def sidetable_lock_def rc_word_def)
  next
    case (Some v)
    then show ?thesis using refcnt_find_spec(2) [OF ok(3,1) Some] ok(4) unlock
      by (auto simp: sidetable_retainCount_def sidetable_lock_def rc_word_def SIDE_TABLE_RC_SHIFT_def)
  qed
  then show ?thesis using n ok(2) by (simp add: raw_rootRetainCount_def)
qed

end
