(* ===== verification/Memory.thy ===== *)
theory Memory
  imports Bitfields
begin

text \<open>
  Byte memory of a little-endian 64-bit machine, for the parts of the runtime
  that compute with addresses: reading and writing of 16, 32 and 64 bit words,
  and when a write does not disturb a read.
\<close>

type_synonym memory = "u64 \<Rightarrow> u8"

section \<open>Reading and writing\<close>

definition read_u16 :: "memory \<Rightarrow> u64 \<Rightarrow> u16" where
  "read_u16 mem a = ucast (mem a) OR push_bit 8 (ucast (mem (a + 1)))"

definition read_u32 :: "memory \<Rightarrow> u64 \<Rightarrow> u32" where
  "read_u32 mem a = ucast (read_u16 mem a) OR push_bit 16 (ucast (read_u16 mem (a + 2)))"

definition read_u64 :: "memory \<Rightarrow> u64 \<Rightarrow> u64" where
  "read_u64 mem a = ucast (read_u32 mem a) OR push_bit 32 (ucast (read_u32 mem (a + 4)))"

definition write_bytes :: "nat \<Rightarrow> u64 \<Rightarrow> 'a::len word \<Rightarrow> memory \<Rightarrow> memory" where
  "write_bytes n a v mem = (\<lambda>x. if unat (x - a) < n then ucast (drop_bit (8 * unat (x - a)) v) else mem x)"

definition write_u32 :: "u64 \<Rightarrow> u32 \<Rightarrow> memory \<Rightarrow> memory" where
  "write_u32 a v = write_bytes 4 a v"

definition write_u64 :: "u64 \<Rightarrow> u64 \<Rightarrow> memory \<Rightarrow> memory" where
  "write_u64 a v = write_bytes 8 a v"

text \<open>\<open>calloc\<close>: the bytes of the new block are zero.\<close>

definition zero_bytes :: "u64 \<Rightarrow> u64 \<Rightarrow> memory \<Rightarrow> memory" where
  "zero_bytes a n mem = (\<lambda>x. if x - a < n then 0 else mem x)"

section \<open>The bits of a word in memory\<close>

lemma bit_read_u16: "bit (read_u16 mem a) i \<longleftrightarrow> i < 16 \<and> bit (mem (a + of_nat (i div 8))) (i mod 8)"
proof (cases "i < 8")
  case True
  then show ?thesis by (simp add: read_u16_def bit_or_iff bit_push_bit_iff bit_ucast_iff)
next
  case False
  then have d: "i < 16 \<Longrightarrow> i div 8 = 1" "i < 16 \<Longrightarrow> i mod 8 = i - 8" by (simp_all add: div_nat_eqI mod_if)
  show ?thesis
    using False d by (auto simp: read_u16_def bit_or_iff bit_push_bit_iff bit_ucast_iff dest: bit_imp_le_length)
qed

lemma bit_read_u32: "bit (read_u32 mem a) i \<longleftrightarrow> i < 32 \<and> bit (mem (a + of_nat (i div 8))) (i mod 8)"
proof (cases "i < 16")
  case True
  then show ?thesis by (simp add: read_u32_def bit_or_iff bit_push_bit_iff bit_ucast_iff bit_read_u16)
next
  case False
  then obtain j where j: "i = j + 16" by (metis add.commute le_Suc_ex not_less)
  have "(j + 16) div 8 = j div 8 + 2" "(j + 16) mod 8 = j mod 8" by presburger+
  then show ?thesis unfolding j
    by (auto simp: read_u32_def bit_or_iff bit_push_bit_iff bit_ucast_iff bit_read_u16 algebra_simps)
qed

lemma bit_read_u64: "bit (read_u64 mem a) i \<longleftrightarrow> i < 64 \<and> bit (mem (a + of_nat (i div 8))) (i mod 8)"
proof (cases "i < 32")
  case True
  then show ?thesis by (simp add: read_u64_def bit_or_iff bit_push_bit_iff bit_ucast_iff bit_read_u32)
next
  case False
  then obtain j where j: "i = j + 32" by (metis add.commute le_Suc_ex not_less)
  have "(j + 32) div 8 = j div 8 + 4" "(j + 32) mod 8 = j mod 8" by presburger+
  then show ?thesis unfolding j
    by (auto simp: read_u64_def bit_or_iff bit_push_bit_iff bit_ucast_iff bit_read_u32 algebra_simps)
qed

lemma write_bytes_at:
  assumes "i < 2 ^ 64"
  shows "write_bytes n a v mem (a + of_nat i) = (if i < n then ucast (drop_bit (8 * i) v) else mem (a + of_nat i))"
  using assms by (simp add: write_bytes_def unat_of_nat_u64)

lemma read_write_u32 [simp]: "read_u32 (write_u32 a v mem) a = v"
proof (rule bit_word_eqI)
  fix i assume "i < LENGTH(32)"
  then have i: "i < 32" "i div 8 < 4" "i mod 8 < 8" by auto
  have "bit (ucast (drop_bit (8 * (i div 8)) v) :: u8) (i mod 8) \<longleftrightarrow> bit v (8 * (i div 8) + i mod 8)"
    using i(3) by (simp add: bit_ucast_iff bit_drop_bit_eq)
  then show "bit (read_u32 (write_u32 a v mem) a) i = bit v i"
    using i by (simp add: bit_read_u32 write_u32_def write_bytes_at)
qed

lemma read_write_u64 [simp]: "read_u64 (write_u64 a v mem) a = v"
proof (rule bit_word_eqI)
  fix i assume "i < LENGTH(64)"
  then have i: "i < 64" "i div 8 < 8" "i mod 8 < 8" by auto
  have "bit (ucast (drop_bit (8 * (i div 8)) v) :: u8) (i mod 8) \<longleftrightarrow> bit v (8 * (i div 8) + i mod 8)"
    using i(3) by (simp add: bit_ucast_iff bit_drop_bit_eq)
  then show "bit (read_u64 (write_u64 a v mem) a) i = bit v i"
    using i by (simp add: bit_read_u64 write_u64_def write_bytes_at)
qed

section \<open>Disjoint accesses\<close>

text \<open>The \<open>n\<close> bytes at \<open>a\<close> are outside the \<open>m\<close> bytes at \<open>b\<close>.\<close>

definition apart :: "u64 \<Rightarrow> nat \<Rightarrow> u64 \<Rightarrow> nat \<Rightarrow> bool" where
  "apart a n b m \<longleftrightarrow> (\<forall>i<n. m \<le> unat (a + of_nat i - b))"

lemma read_u32_cong: "(\<And>i. i < 4 \<Longrightarrow> mem (a + of_nat i) = mem' (a + of_nat i)) \<Longrightarrow> read_u32 mem a = read_u32 mem' a"
  by (rule bit_word_eqI) (auto simp: bit_read_u32)

lemma read_u64_cong: "(\<And>i. i < 8 \<Longrightarrow> mem (a + of_nat i) = mem' (a + of_nat i)) \<Longrightarrow> read_u64 mem a = read_u64 mem' a"
  by (rule bit_word_eqI) (auto simp: bit_read_u64)

lemma read_u32_apart:
  "apart a 4 b 4 \<Longrightarrow> read_u32 (write_u32 b v mem) a = read_u32 mem a"
  "apart a 4 b 8 \<Longrightarrow> read_u32 (write_u64 b w mem) a = read_u32 mem a"
  "apart a 4 b (unat n) \<Longrightarrow> read_u32 (zero_bytes b n mem) a = read_u32 mem a"
  by (rule read_u32_cong; fastforce simp: apart_def write_u32_def write_u64_def write_bytes_def zero_bytes_def word_less_nat_alt)+

lemma read_u64_apart:
  "apart a 8 b 4 \<Longrightarrow> read_u64 (write_u32 b v mem) a = read_u64 mem a"
  "apart a 8 b 8 \<Longrightarrow> read_u64 (write_u64 b w mem) a = read_u64 mem a"
  "apart a 8 b (unat n) \<Longrightarrow> read_u64 (zero_bytes b n mem) a = read_u64 mem a"
  by (rule read_u64_cong; fastforce simp: apart_def write_u32_def write_u64_def write_bytes_def zero_bytes_def word_less_nat_alt)+

text \<open>Accesses at offsets of one block.\<close>

lemma write_bytes_offset:
  assumes "unat (x - b) < k \<or> k + n \<le> unat (x - b)" "k + n \<le> 2 ^ 64" "0 < n"
  shows "write_bytes n (b + of_nat k) v mem x = mem x"
proof -
  have k: "unat (of_nat k :: u64) = k" using assms(2,3) by (intro unat_of_nat_u64) simp
  define d where "d = x - b"
  have "unat d < 2 ^ LENGTH(64)" by (rule unsigned_less)
  then have "n \<le> unat (d - of_nat k)"
    using assms unfolding d_def [symmetric] unat_sub_if' k by (auto split: if_splits)
  then have "n \<le> unat (x - (b + of_nat k))" by (simp add: d_def diff_diff_eq)
  then show ?thesis by (simp add: write_bytes_def)
qed

lemma write_u64_offset:
  "unat (x - b) < k \<or> k + 8 \<le> unat (x - b) \<Longrightarrow> k + 8 \<le> 2 ^ 64 \<Longrightarrow> write_u64 (b + of_nat k) v mem x = mem x"
  unfolding write_u64_def by (rule write_bytes_offset) simp_all

lemma write_u32_offset:
  "unat (x - b) < k \<or> k + 4 \<le> unat (x - b) \<Longrightarrow> k + 4 \<le> 2 ^ 64 \<Longrightarrow> write_u32 (b + of_nat k) v mem x = mem x"
  unfolding write_u32_def by (rule write_bytes_offset) simp_all

lemma read_u64_offset:
  assumes "j + 8 \<le> k \<or> k + 8 \<le> j" "k + 8 \<le> 2 ^ 64" "j + 8 \<le> 2 ^ 64"
  shows "read_u64 (write_u64 (b + of_nat k) v mem) (b + of_nat j) = read_u64 mem (b + of_nat j)"
proof (rule read_u64_cong)
  fix i :: nat assume "i < 8"
  moreover from this have "unat (b + of_nat j + of_nat i - b) = j + i"
    using assms(3) unat_of_nat_u64 [of "j + i"] by simp
  ultimately show "write_u64 (b + of_nat k) v mem (b + of_nat j + of_nat i) = mem (b + of_nat j + of_nat i)"
    using assms by (intro write_u64_offset) auto
qed

lemma read_u32_offset:
  assumes "j + 4 \<le> k \<or> k + 8 \<le> j" "k + 8 \<le> 2 ^ 64" "j + 4 \<le> 2 ^ 64"
  shows "read_u32 (write_u64 (b + of_nat k) v mem) (b + of_nat j) = read_u32 mem (b + of_nat j)"
proof (rule read_u32_cong)
  fix i :: nat assume "i < 4"
  moreover from this have "unat (b + of_nat j + of_nat i - b) = j + i"
    using assms(3) unat_of_nat_u64 [of "j + i"] by simp
  ultimately show "write_u64 (b + of_nat k) v mem (b + of_nat j + of_nat i) = mem (b + of_nat j + of_nat i)"
    using assms by (intro write_u64_offset) auto
qed

lemma read_u32_write_offset:
  assumes "j + 4 \<le> k \<or> k + 4 \<le> j" "k + 4 \<le> 2 ^ 64" "j + 4 \<le> 2 ^ 64"
  shows "read_u32 (write_u32 (b + of_nat k) v mem) (b + of_nat j) = read_u32 mem (b + of_nat j)"
proof (rule read_u32_cong)
  fix i :: nat assume "i < 4"
  moreover from this have "unat (b + of_nat j + of_nat i - b) = j + i"
    using assms(3) unat_of_nat_u64 [of "j + i"] by simp
  ultimately show "write_u32 (b + of_nat k) v mem (b + of_nat j + of_nat i) = mem (b + of_nat j + of_nat i)"
    using assms by (intro write_u32_offset) auto
qed

section \<open>Blocks of bytes\<close>

definition bytes_at :: "u64 \<Rightarrow> nat \<Rightarrow> u64 set" where
  "bytes_at a n = (\<lambda>i. a + of_nat i) ` {..<n}"

lemma bytes_at_mono: "k + n \<le> N \<Longrightarrow> bytes_at (a + of_nat k) n \<subseteq> bytes_at a N"
proof
  fix x assume "k + n \<le> N" "x \<in> bytes_at (a + of_nat k) n"
  then obtain i where "i < n" "x = a + of_nat (k + i)" by (auto simp: bytes_at_def ac_simps)
  then show "x \<in> bytes_at a N" using \<open>k + n \<le> N\<close> unfolding bytes_at_def by (intro image_eqI [of _ _ "k + i"]) auto
qed

lemma read_on_bytes:
  "\<forall>x\<in>A. m' x = m x \<Longrightarrow> bytes_at a 4 \<subseteq> A \<Longrightarrow> read_u32 m' a = read_u32 m a"
  "\<forall>x\<in>A. m' x = m x \<Longrightarrow> bytes_at a 8 \<subseteq> A \<Longrightarrow> read_u64 m' a = read_u64 m a"
  by (rule read_u32_cong read_u64_cong; force simp: bytes_at_def)+

lemma bytes_at_iff: "n \<le> 2 ^ 64 \<Longrightarrow> x \<in> bytes_at a n \<longleftrightarrow> unat (x - a) < n"
proof
  assume n: "n \<le> 2 ^ 64" and "x \<in> bytes_at a n"
  then obtain i where "i < n" "x = a + of_nat i" by (auto simp: bytes_at_def)
  then show "unat (x - a) < n" using n unat_of_nat_u64 [of i] by simp
next
  assume "unat (x - a) < n"
  then show "x \<in> bytes_at a n" unfolding bytes_at_def by (intro image_eqI [of _ _ "unat (x - a)"]) simp_all
qed

lemma bytes_at_disjoint:
  assumes "j + n \<le> k \<or> k + l \<le> j" "j + n \<le> 2 ^ 64" "k + l \<le> 2 ^ 64"
  shows "bytes_at (b + of_nat j) n \<inter> bytes_at (b + of_nat k) l = {}"
proof -
  have off: "\<exists>i<n. unat (x - b) = j + i" if x: "x \<in> bytes_at (b + of_nat j) n" "j + n \<le> 2 ^ 64" for x j n
  proof -
    obtain i where i: "i < n" "x = b + of_nat j + of_nat i" using x(1) by (auto simp: bytes_at_def)
    then have "x - b = of_nat (j + i)" by simp
    then show ?thesis using i(1) x(2) unat_of_nat_u64 [of "j + i"] by auto
  qed
  have False if "x \<in> bytes_at (b + of_nat j) n" "x \<in> bytes_at (b + of_nat k) l" for x
    using off [OF that(1) assms(2)] off [OF that(2) assms(3)] assms(1) by auto
  then show ?thesis by blast
qed

text \<open>Blocks by their place in the address space.\<close>

lemma bytes_at_apart:
  assumes "unat a + n \<le> unat b \<or> unat b + m \<le> unat a" "unat a + n \<le> 2 ^ 64" "unat b + m \<le> 2 ^ 64"
  shows "bytes_at a n \<inter> bytes_at b m = {}"
proof -
  have place: "unat a \<le> unat x \<and> unat x < unat a + n" if x: "x \<in> bytes_at a n" "unat a + n \<le> 2 ^ 64" for x a n
  proof -
    obtain i where i: "i < n" "x = a + of_nat i" using x(1) by (auto simp: bytes_at_def)
    have "i < 2 ^ 64" using i(1) x(2) by linarith
    then have u: "unat (of_nat i :: u64) = i" by (rule unat_of_nat_u64)
    have "unat x = unat a + i" unfolding i(2) using i(1) x(2) u by (subst unat_add_nowrap_u64) simp_all
    then show ?thesis using i(1) by simp
  qed
  have False if "x \<in> bytes_at a n" "x \<in> bytes_at b m" for x
    using place [OF that(1) assms(2)] place [OF that(2) assms(3)] assms(1) by auto
  then show ?thesis by blast
qed

lemma write_bytes_outside: "x \<notin> bytes_at a n \<Longrightarrow> write_bytes n a v mem x = mem x"
proof -
  assume x: "x \<notin> bytes_at a n"
  have "x = a + of_nat (unat (x - a))" by simp
  then have "\<not> unat (x - a) < n" using x unfolding bytes_at_def by blast
  then show ?thesis by (simp add: write_bytes_def)
qed

text \<open>A read of some bytes does not see a write of others.\<close>

lemma write_agrees:
  "bytes_at a 8 \<inter> A = {} \<Longrightarrow> \<forall>x\<in>A. write_u64 a v mem x = mem x"
  "bytes_at a 4 \<inter> A = {} \<Longrightarrow> \<forall>x\<in>A. write_u32 a w mem x = mem x"
  by (auto simp: write_u64_def write_u32_def intro!: write_bytes_outside)

text \<open>Words copied, one after the other, into slots of a block that starts with a
  header of 8 bytes.\<close>

definition copy_words :: "u64 \<Rightarrow> (nat \<Rightarrow> nat) \<Rightarrow> (nat \<Rightarrow> u64) \<Rightarrow> nat list \<Rightarrow> memory \<Rightarrow> memory" where
  "copy_words b d src js mem = fold (\<lambda>j m. write_u64 (b + of_nat (8 + 8 * d j)) (read_u64 m (src j)) m) js mem"

lemma copy_words_Cons:
  "copy_words b d src (j # js) mem =
   copy_words b d src js (write_u64 (b + of_nat (8 + 8 * d j)) (read_u64 mem (src j)) mem)"
  by (simp add: copy_words_def)

lemma copy_words_outside:
  assumes "\<forall>j\<in>set js. 16 + 8 * d j \<le> N" "N \<le> 2 ^ 64" "N \<le> unat (x - b)"
  shows "copy_words b d src js mem x = mem x"
  using assms(1)
proof (induction js arbitrary: mem)
  case (Cons j js)
  have "write_u64 (b + of_nat (8 + 8 * d j)) (read_u64 mem (src j)) mem x = mem x"
    using Cons.prems assms(2,3) by (intro write_u64_offset) auto
  then show ?case using Cons unfolding copy_words_Cons by simp
qed (simp add: copy_words_def)

lemma copy_words_header:
  assumes "\<forall>j\<in>set js. 16 + 8 * d j \<le> N" "N \<le> 2 ^ 64" "k + 4 \<le> 8"
  shows "read_u32 (copy_words b d src js mem) (b + of_nat k) = read_u32 mem (b + of_nat k)"
  using assms(1)
proof (induction js arbitrary: mem)
  case (Cons j js)
  have "read_u32 (write_u64 (b + of_nat (8 + 8 * d j)) (read_u64 mem (src j)) mem) (b + of_nat k) = read_u32 mem (b + of_nat k)"
    using Cons.prems assms(2,3) by (intro read_u32_offset) auto
  then show ?case using Cons unfolding copy_words_Cons by simp
qed (simp add: copy_words_def)

lemma copy_words_other:
  assumes "\<forall>j\<in>set js. 16 + 8 * d j \<le> N" "N \<le> 2 ^ 64" "16 + 8 * i \<le> N" "i \<notin> d ` set js"
  shows "read_u64 (copy_words b d src js mem) (b + of_nat (8 + 8 * i)) = read_u64 mem (b + of_nat (8 + 8 * i))"
  using assms(1,4)
proof (induction js arbitrary: mem)
  case (Cons j js)
  have "read_u64 (write_u64 (b + of_nat (8 + 8 * d j)) (read_u64 mem (src j)) mem) (b + of_nat (8 + 8 * i)) =
      read_u64 mem (b + of_nat (8 + 8 * i))"
    using Cons.prems assms(2,3) by (intro read_u64_offset) auto
  then show ?case using Cons unfolding copy_words_Cons by simp
qed (simp add: copy_words_def)

lemma copy_words_copied:
  assumes "\<forall>j\<in>set js. 16 + 8 * d j \<le> N" "N \<le> 2 ^ 64" "distinct (map d js)" "j \<in> set js"
    and "\<forall>j\<in>set js. \<forall>x\<in>bytes_at (src j) 8. N \<le> unat (x - b)"
  shows "read_u64 (copy_words b d src js mem) (b + of_nat (8 + 8 * d j)) = read_u64 mem (src j)"
  using assms(1,3-5)
proof (induction js arbitrary: mem)
  case (Cons i js)
  let ?m = "write_u64 (b + of_nat (8 + 8 * d i)) (read_u64 mem (src i)) mem"
  have N: "\<forall>j\<in>set js. 16 + 8 * d j \<le> N" "16 + 8 * d i \<le> N" using Cons.prems(1) by simp_all
  show ?case
  proof (cases "j \<in> set js")
    case True
    have "\<forall>x\<in>bytes_at (src j) 8. ?m x = mem x"
    proof
      fix x assume "x \<in> bytes_at (src j) 8"
      then have "N \<le> unat (x - b)" using Cons.prems(4) True by simp
      then show "?m x = mem x" using N(2) assms(2) by (intro write_u64_offset) simp_all
    qed
    then have "read_u64 ?m (src j) = read_u64 mem (src j)" by (rule read_on_bytes(2)) simp
    then show ?thesis using Cons.IH [OF N(1), of ?m] Cons.prems True unfolding copy_words_Cons by simp
  next
    case False
    then have "i = j" "d i \<notin> d ` set js" using Cons.prems(2,3) by auto
    then show ?thesis
      unfolding copy_words_Cons using copy_words_other [OF N(1) assms(2), of "d j" b src ?m] N(2) read_write_u64 by metis
  qed
qed simp

end
