(* ===== verification/ReturnValue.thy ===== *)
theory ReturnValue
  imports RawObject Memory
begin

text \<open>
  Returning objects through the autoreleasing convention
  (\<^verbatim>\<open>objc-object.h\<close>: \<open>callerAcceptsOptimizedReturn\<close> to
  \<open>acceptOptimizedReturn\<close>, and the callees and callers of
  \<^verbatim>\<open>NSObject.mm\<close>).  Callee and caller agree through a thread-local flag to leave
  out an autorelease and a retain.  The theorems show that the agreement does
  not change what the object is owed.
\<close>

section \<open>Recognising the caller\<close>

text \<open>\<open>retain_sym\<close> and \<open>claim_sym\<close> are the addresses of the two optimized callers.\<close>

definition callerAcceptsOptimizedReturn_x86_64 :: "memory \<Rightarrow> u64 \<Rightarrow> u64 \<Rightarrow> u64 \<Rightarrow> bool" where
  "callerAcceptsOptimizedReturn_x86_64 mem retain_sym claim_sym ra0 =
     (let ra1 = ra0 in
      if read_u32 mem ra1 \<noteq> 0xe8c78948 then False
      else let ra1 = ra1 + (scast (read_u32 mem (ra1 + 4)) + 8) in
        if read_u16 mem ra1 \<noteq> 0x25ff then False
        else let ra1 = ra1 + (6 + scast (read_u32 mem (ra1 + 2)));
                 sym = read_u64 mem ra1
             in if sym \<noteq> retain_sym \<and> sym \<noteq> claim_sym then False else True)"

definition callerAcceptsOptimizedReturn_arm :: "memory \<Rightarrow> u64 \<Rightarrow> bool" where
  "callerAcceptsOptimizedReturn_arm mem ra =
     (if ra AND 1 \<noteq> 0 then read_u16 mem (ra - 1) = 0x463f else read_u32 mem ra = 0xe1a07007)"

definition callerAcceptsOptimizedReturn_arm64 :: "memory \<Rightarrow> u64 \<Rightarrow> bool" where
  "callerAcceptsOptimizedReturn_arm64 mem ra = (read_u32 mem ra = 0xaa1d03fd)"

definition callerAcceptsOptimizedReturn_i386 :: "memory \<Rightarrow> u64 \<Rightarrow> bool" where
  "callerAcceptsOptimizedReturn_i386 mem ra = (read_u16 mem ra = 0xed89)"

section \<open>The handshake\<close>

datatype ReturnDisposition = ReturnAtPlus0 | ReturnAtPlus1

text \<open>The thread-local slot and the object.\<close>

record 's rv_state =
  return_disposition :: ReturnDisposition
  object :: 's

definition getReturnDisposition :: "'s rv_state \<Rightarrow> ReturnDisposition" where
  "getReturnDisposition st = return_disposition st"

definition setReturnDisposition :: "ReturnDisposition \<Rightarrow> 's rv_state \<Rightarrow> 's rv_state" where
  "setReturnDisposition d st = st\<lparr>return_disposition := d\<rparr>"

text \<open>\<open>accepts\<close> is what \<open>callerAcceptsOptimizedReturn\<close> says of the return address.\<close>

definition prepareOptimizedReturn :: "bool \<Rightarrow> ReturnDisposition \<Rightarrow> 's rv_state \<Rightarrow> fault + (bool \<times> 's rv_state)" where
  "prepareOptimizedReturn accepts disposition st =
     (if getReturnDisposition st \<noteq> ReturnAtPlus0 then Inl AssertFailed
      else if accepts then
        Inr (True, if disposition = ReturnAtPlus1 then setReturnDisposition disposition st else st)
      else Inr (False, st))"

definition acceptOptimizedReturn :: "'s rv_state \<Rightarrow> ReturnDisposition \<times> 's rv_state" where
  "acceptOptimizedReturn st = (getReturnDisposition st, setReturnDisposition ReturnAtPlus0 st)"

text \<open>The operations on the object: \<open>objc_retain\<close>, \<open>objc_release\<close>, and adding it to the
  autorelease pool.\<close>

record 's obj_ops =
  op_tagged :: bool
  op_customRR :: bool
  op_msg_autorelease :: "'s \<Rightarrow> fault + 's"
  op_retain :: "'s \<Rightarrow> fault + 's"
  op_release :: "'s \<Rightarrow> fault + 's"
  op_pool_add :: "'s \<Rightarrow> 's"

definition lift_op :: "('s \<Rightarrow> fault + 's) \<Rightarrow> 's rv_state \<Rightarrow> fault + 's rv_state" where
  "lift_op f st = bindE (f (object st)) (\<lambda>s. Inr (st\<lparr>object := s\<rparr>))"

definition rootAutorelease :: "'s obj_ops \<Rightarrow> bool \<Rightarrow> 's rv_state \<Rightarrow> fault + 's rv_state" where
  "rootAutorelease ops accepts st =
     (if op_tagged ops then Inr st
      else bindE (prepareOptimizedReturn accepts ReturnAtPlus1 st) (\<lambda>(ok, st).
        if ok then Inr st else Inr (st\<lparr>object := op_pool_add ops (object st)\<rparr>)))"

definition obj_autorelease :: "'s obj_ops \<Rightarrow> bool \<Rightarrow> 's rv_state \<Rightarrow> fault + 's rv_state" where
  "obj_autorelease ops accepts st =
     (if op_tagged ops then Inl AssertFailed
      else if \<not> op_customRR ops then rootAutorelease ops accepts st
      else lift_op (op_msg_autorelease ops) st)"

definition raw_autorelease :: "'s obj_ops \<Rightarrow> bool \<Rightarrow> 's rv_state \<Rightarrow> fault + 's rv_state" where
  "raw_autorelease ops accepts st =
     (if op_tagged ops then Inr st
      else if \<not> op_customRR ops then rootAutorelease ops accepts st
      else lift_op (op_msg_autorelease ops) st)"

definition objc_autorelease :: "'s obj_ops \<Rightarrow> bool \<Rightarrow> 's rv_state \<Rightarrow> fault + 's rv_state" where
  "objc_autorelease ops accepts st = (if op_tagged ops then Inr st else obj_autorelease ops accepts st)"

definition objc_retainAutorelease :: "'s obj_ops \<Rightarrow> bool \<Rightarrow> 's rv_state \<Rightarrow> fault + 's rv_state" where
  "objc_retainAutorelease ops accepts st = bindE (lift_op (op_retain ops) st) (objc_autorelease ops accepts)"

text \<open>\<open>accepts'\<close> is what is said of the return address at the second attempt, in
  \<open>rootAutorelease\<close>.\<close>

definition objc_autoreleaseReturnValue :: "'s obj_ops \<Rightarrow> bool \<Rightarrow> bool \<Rightarrow> 's rv_state \<Rightarrow> fault + 's rv_state" where
  "objc_autoreleaseReturnValue ops accepts accepts' st =
     bindE (prepareOptimizedReturn accepts ReturnAtPlus1 st) (\<lambda>(ok, st).
       if ok then Inr st else objc_autorelease ops accepts' st)"

definition objc_retainAutoreleaseReturnValue :: "'s obj_ops \<Rightarrow> bool \<Rightarrow> bool \<Rightarrow> 's rv_state \<Rightarrow> fault + 's rv_state" where
  "objc_retainAutoreleaseReturnValue ops accepts accepts' st =
     bindE (prepareOptimizedReturn accepts ReturnAtPlus0 st) (\<lambda>(ok, st).
       if ok then Inr st else objc_retainAutorelease ops accepts' st)"

definition objc_retainAutoreleasedReturnValue :: "'s obj_ops \<Rightarrow> 's rv_state \<Rightarrow> fault + 's rv_state" where
  "objc_retainAutoreleasedReturnValue ops st =
     (case acceptOptimizedReturn st of (d, st) \<Rightarrow>
        if d = ReturnAtPlus1 then Inr st else lift_op (op_retain ops) st)"

definition objc_unsafeClaimAutoreleasedReturnValue :: "'s obj_ops \<Rightarrow> 's rv_state \<Rightarrow> fault + 's rv_state" where
  "objc_unsafeClaimAutoreleasedReturnValue ops st =
     (case acceptOptimizedReturn st of (d, st) \<Rightarrow>
        if d = ReturnAtPlus0 then Inr st else lift_op (op_release ops) st)"

section \<open>What the object is owed\<close>

datatype rv_callee = AutoreleaseReturnValue | RetainAutoreleaseReturnValue
datatype rv_caller = RetainAutoreleasedReturnValue | UnsafeClaimAutoreleasedReturnValue

fun run_callee :: "'s obj_ops \<Rightarrow> bool \<Rightarrow> bool \<Rightarrow> rv_callee \<Rightarrow> 's rv_state \<Rightarrow> fault + 's rv_state" where
  "run_callee ops a a' AutoreleaseReturnValue = objc_autoreleaseReturnValue ops a a'"
| "run_callee ops a a' RetainAutoreleaseReturnValue = objc_retainAutoreleaseReturnValue ops a a'"

fun run_caller :: "'s obj_ops \<Rightarrow> rv_caller \<Rightarrow> 's rv_state \<Rightarrow> fault + 's rv_state" where
  "run_caller ops RetainAutoreleasedReturnValue = objc_retainAutoreleasedReturnValue ops"
| "run_caller ops UnsafeClaimAutoreleasedReturnValue = objc_unsafeClaimAutoreleasedReturnValue ops"

text \<open>The callee has the object at +1 or at +0, the caller wants it at +1 or +0.\<close>

definition rv_delta :: "rv_callee \<Rightarrow> rv_caller \<Rightarrow> int" where
  "rv_delta callee caller = (if caller = RetainAutoreleasedReturnValue then 1 else 0) -
     (if callee = AutoreleaseReturnValue then 1 else 0)"

text \<open>The references that are not already promised to the autorelease pool.\<close>

definition owed :: "('s \<Rightarrow> nat) \<Rightarrow> ('s \<Rightarrow> event list) \<Rightarrow> 's \<Rightarrow> int" where
  "owed count sent s = int (count s) - int (count_list (sent s) PoolAdd)"

definition rv_ops ::
  "('s \<Rightarrow> fault + 's) \<Rightarrow> ('s \<Rightarrow> fault + 's) \<Rightarrow> ('s \<Rightarrow> 's) \<Rightarrow> ('s \<Rightarrow> fault + 's) \<Rightarrow> 's obj_ops" where
  "rv_ops retain release pool_add msg = \<lparr>op_tagged = False, op_customRR = False, op_msg_autorelease = msg, op_retain = retain,
     op_release = release, op_pool_add = pool_add\<rparr>"

locale autoreleased = ref_counter inv room count sent retain release
  for inv :: "'s \<Rightarrow> bool" and room count sent retain release +
  fixes pool_add :: "'s \<Rightarrow> 's"
  assumes pool_add_law: "inv s \<Longrightarrow> inv (pool_add s)" "count (pool_add s) = count s"
    "sent (pool_add s) = sent s @ [PoolAdd]" "room (pool_add s) = room s"
begin

lemma owed_retain:
  assumes "inv s" "room s" "0 < count s"
  obtains s' where "retain s = Inr s'" "inv s'" "owed count sent s' = owed count sent s + 1" "0 < count s'"
  using retain_law [OF assms] that by (auto simp: owed_def)

lemma owed_release:
  assumes "inv s" "room s" "0 < count s"
  obtains s' where "release s = Inr s'" "inv s'" "owed count sent s' = owed count sent s - 1"
  using release_law [OF assms] assms(3) that by (auto simp: owed_def split: if_splits)

lemma owed_pool_add: "owed count sent (pool_add s) = owed count sent s - 1"
  by (simp add: owed_def pool_add_law)

lemma handshake:
  assumes "inv s" "room s" "0 < count s" "\<And>s'. retain s = Inr s' \<Longrightarrow> room s'"
  shows "\<exists>st1 st2. run_callee (rv_ops retain release pool_add msg) a a' callee \<lparr>return_disposition = ReturnAtPlus0, object = s\<rparr> = Inr st1 \<and>
    run_caller (rv_ops retain release pool_add msg) caller st1 = Inr st2 \<and> return_disposition st2 = ReturnAtPlus0 \<and> inv (object st2) \<and>
    owed count sent (object st2) = owed count sent s + rv_delta callee caller"
proof -
  obtain s1 where s1: "retain s = Inr s1" "inv s1" "owed count sent s1 = owed count sent s + 1" "0 < count s1"
    using assms(1-3) by (rule owed_retain)
  have r1: "room s1" using assms(4) s1(1) .
  obtain s2 where s2: "release s = Inr s2" "inv s2" "owed count sent s2 = owed count sent s - 1" using assms(1-3) by (rule owed_release)
  obtain s3 where s3: "release s1 = Inr s3" "inv s3" "owed count sent s3 = owed count sent s1 - 1" using s1(2) r1 s1(4) by (rule owed_release)
  have p: "inv (pool_add s)" "room (pool_add s)" "0 < count (pool_add s)" "inv (pool_add s1)" "room (pool_add s1)"
    "0 < count (pool_add s1)" using pool_add_law assms(1-3) s1 r1 by auto
  obtain s4 where s4: "retain (pool_add s) = Inr s4" "inv s4" "owed count sent s4 = owed count sent (pool_add s) + 1" using p(1-3) by (rule owed_retain)
  obtain s5 where s5: "retain (pool_add s1) = Inr s5" "inv s5" "owed count sent s5 = owed count sent (pool_add s1) + 1" using p(4-6) by (rule owed_retain)
  note defs = objc_autoreleaseReturnValue_def objc_retainAutoreleaseReturnValue_def objc_retainAutorelease_def
    objc_autorelease_def obj_autorelease_def rootAutorelease_def prepareOptimizedReturn_def acceptOptimizedReturn_def
    objc_retainAutoreleasedReturnValue_def objc_unsafeClaimAutoreleasedReturnValue_def lift_op_def rv_ops_def
    getReturnDisposition_def setReturnDisposition_def rv_delta_def
  show ?thesis
    using s1 s2 s3 s4 s5 p assms(1) owed_pool_add
    by (cases callee; cases caller; cases a; cases a') (simp_all add: defs)
qed

end

section \<open>Both representations\<close>

interpretation raw_rv: autoreleased "raw_inv cfg this" "obj_room cfg this" "raw_count cfg this" events
  "raw_do_retain cfg this"
  "raw_do_release cfg this" "emit PoolAdd" for cfg this
  by unfold_locales (auto simp: emit_def raw_inv_def obj_room_def raw_count_def)

lemma np_autoreleased:
  assumes "counted_object cfg"
  shows "autoreleased (np_inv cfg this) (obj_room cfg this) (retain_count cfg this) events (np_retain cfg this)
    (np_release cfg this) (emit PoolAdd)"
  unfolding autoreleased_def autoreleased_axioms_def using np_ref_counter [OF assms, of this]
  by (auto simp: emit_def np_inv_def obj_wf_def obj_room_def retain_count_def)

interpretation x86_rv: autoreleased "np_inv (cfg\<lparr>layout := x86_64_layout\<rparr>) this" "obj_room (cfg\<lparr>layout := x86_64_layout\<rparr>) this"
  "retain_count (cfg\<lparr>layout := x86_64_layout\<rparr>) this" events "np_retain (cfg\<lparr>layout := x86_64_layout\<rparr>) this"
  "np_release (cfg\<lparr>layout := x86_64_layout\<rparr>) this" "emit PoolAdd" for cfg this
  by (rule np_autoreleased [OF x86_64_object.counted_object_axioms])

end
