(* ===== verification/StripedMap.thy ===== *)
theory StripedMap
  imports Prelude
begin

text \<open>
  Lock striping (\<^verbatim>\<open>objc-private.h\<close>: \<open>StripedMap\<close>) and the locking of two
  mutexes in address order (\<^verbatim>\<open>objc-os.h\<close>: \<open>lockTwo\<close>, \<open>unlockTwo\<close>).  A function
  that takes or gives back locks is the sequence of lock operations it makes,
  so that their order can be seen; threads that run such sequences are a step
  relation on the owners of the locks and what each thread has left to do.
  The last sections show that threads which take their locks in the order of
  the addresses never abort and never wait for each other in a cycle.
\<close>

section \<open>Stripes\<close>

datatype stripe_target = TargetIPhone | TargetOther

fun StripeCount :: "stripe_target \<Rightarrow> nat" where
  "StripeCount TargetIPhone = 8"
| "StripeCount TargetOther = 64"

definition CacheLineSize :: nat where
  "CacheLineSize = 64"

definition indexForPointer :: "stripe_target \<Rightarrow> u64 \<Rightarrow> nat" where
  "indexForPointer tgt p = unat ((drop_bit 4 p XOR drop_bit 9 p) mod of_nat (StripeCount tgt))"

type_synonym 'a striped = "'a list"

definition striped_get :: "stripe_target \<Rightarrow> 'a striped \<Rightarrow> u64 \<Rightarrow> 'a" where
  "striped_get tgt array p = array ! indexForPointer tgt p"

definition striped_set :: "stripe_target \<Rightarrow> u64 \<Rightarrow> 'a \<Rightarrow> 'a striped \<Rightarrow> 'a striped" where
  "striped_set tgt p v array = array[indexForPointer tgt p := v]"

section \<open>Lock operations\<close>

datatype lock_op = Lock u64 | Unlock u64 | ForceReset u64

text \<open>Where a map of locks lies: the address of its first lock and the size of a
  padded element.\<close>

definition stripe_address :: "u64 \<Rightarrow> nat \<Rightarrow> nat \<Rightarrow> u64" where
  "stripe_address base sz i = base + of_nat (i * sz)"

definition lockAll :: "stripe_target \<Rightarrow> u64 \<Rightarrow> nat \<Rightarrow> lock_op list" where
  "lockAll tgt base sz = map (\<lambda>i. Lock (stripe_address base sz i)) [0..<StripeCount tgt]"

definition unlockAll :: "stripe_target \<Rightarrow> u64 \<Rightarrow> nat \<Rightarrow> lock_op list" where
  "unlockAll tgt base sz = map (\<lambda>i. Unlock (stripe_address base sz i)) [0..<StripeCount tgt]"

definition forceResetAll :: "stripe_target \<Rightarrow> u64 \<Rightarrow> nat \<Rightarrow> lock_op list" where
  "forceResetAll tgt base sz = map (\<lambda>i. ForceReset (stripe_address base sz i)) [0..<StripeCount tgt]"

text \<open>The pairs of locks that \<open>lockdebug_lock_precedes_lock\<close> is told of.\<close>

definition defineLockOrder :: "stripe_target \<Rightarrow> u64 \<Rightarrow> nat \<Rightarrow> (u64 \<times> u64) list" where
  "defineLockOrder tgt base sz =
     map (\<lambda>i. (stripe_address base sz (i - 1), stripe_address base sz i)) [1..<StripeCount tgt]"

definition precedeLock :: "stripe_target \<Rightarrow> u64 \<Rightarrow> nat \<Rightarrow> u64 \<Rightarrow> u64 \<times> u64" where
  "precedeLock tgt base sz newlock = (stripe_address base sz (StripeCount tgt - 1), newlock)"

definition succeedLock :: "u64 \<Rightarrow> nat \<Rightarrow> u64 \<Rightarrow> u64 \<times> u64" where
  "succeedLock base sz oldlock = (oldlock, stripe_address base sz 0)"

definition getLock :: "stripe_target \<Rightarrow> u64 \<Rightarrow> nat \<Rightarrow> int \<Rightarrow> u64" where
  "getLock tgt base sz i = (if i < int (StripeCount tgt) then base + of_int (i * int sz) else nil)"

definition lockTwo :: "u64 \<Rightarrow> u64 \<Rightarrow> lock_op list" where
  "lockTwo lock1 lock2 =
     (if lock1 < lock2 then [Lock lock1, Lock lock2]
      else Lock lock2 # (if lock2 \<noteq> lock1 then [Lock lock1] else []))"

definition unlockTwo :: "u64 \<Rightarrow> u64 \<Rightarrow> lock_op list" where
  "unlockTwo lock1 lock2 = Unlock lock1 # (if lock2 \<noteq> lock1 then [Unlock lock2] else [])"

section \<open>Threads\<close>

text \<open>The owner of each lock.  An unfair lock aborts the process when its owner
  takes it again and when another thread than its owner gives it back.\<close>

type_synonym owners = "u64 \<Rightarrow> nat option"

datatype lock_result = Goes owners | Waits | Aborts fault

fun lock_apply :: "nat \<Rightarrow> lock_op \<Rightarrow> owners \<Rightarrow> lock_result" where
  "lock_apply t (Lock a) own = (case own a of
     None \<Rightarrow> Goes (own(a := Some t))
   | Some u \<Rightarrow> if u = t then Aborts UnfairLockRecursion else Waits)"
| "lock_apply t (Unlock a) own = (if own a = Some t then Goes (own(a := None)) else Aborts UnfairLockNotOwner)"
| "lock_apply t (ForceReset a) own = Goes (own(a := None))"

text \<open>One thread alone.\<close>

fun lock_run :: "nat \<Rightarrow> lock_op list \<Rightarrow> owners \<Rightarrow> lock_result" where
  "lock_run t [] own = Goes own"
| "lock_run t (op # ops) own = (case lock_apply t op own of Goes own' \<Rightarrow> lock_run t ops own' | r \<Rightarrow> r)"

text \<open>Any number of threads in any order.\<close>

inductive lock_step :: "owners \<times> lock_op list list \<Rightarrow> owners \<times> lock_op list list \<Rightarrow> bool" where
  step: "i < length ps \<Longrightarrow> ps ! i = op # ops \<Longrightarrow> lock_apply i op own = Goes own' \<Longrightarrow>
    lock_step (own, ps) (own', ps[i := ops])"

inductive_cases lock_stepE: "lock_step (own, ps) s"

definition lock_aborts :: "owners \<times> lock_op list list \<Rightarrow> bool" where
  "lock_aborts = (\<lambda>(own, ps). \<exists>i < length ps. \<exists>op ops e. ps ! i = op # ops \<and> lock_apply i op own = Aborts e)"

text \<open>What threads do with these functions.\<close>

datatype lock_job = TwoLocks u64 u64 | AllLocks stripe_target u64 nat

fun job_ops :: "lock_job \<Rightarrow> lock_op list" where
  "job_ops (TwoLocks a b) = lockTwo a b @ unlockTwo a b"
| "job_ops (AllLocks tgt base sz) = lockAll tgt base sz @ unlockAll tgt base sz"

text \<open>The array lies in the address space.\<close>

definition stripes_fit :: "stripe_target \<Rightarrow> u64 \<Rightarrow> nat \<Rightarrow> bool" where
  "stripes_fit tgt base sz \<longleftrightarrow> 0 < sz \<and> unat base + StripeCount tgt * sz < 2 ^ 64"

fun job_ok :: "lock_job \<Rightarrow> bool" where
  "job_ok (TwoLocks a b) \<longleftrightarrow> True"
| "job_ok (AllLocks tgt base sz) \<longleftrightarrow> stripes_fit tgt base sz"

section \<open>The index\<close>

lemma StripeCount_pos [simp]: "0 < StripeCount tgt"
  by (cases tgt) auto

lemma indexForPointer_less: "indexForPointer tgt p < StripeCount tgt"
proof -
  have "unat (of_nat (StripeCount tgt) :: u64) = StripeCount tgt" by (cases tgt) auto
  then show ?thesis by (simp add: indexForPointer_def unat_mod)
qed

definition stripe_bits :: "stripe_target \<Rightarrow> nat" where
  "stripe_bits tgt = (case tgt of TargetIPhone \<Rightarrow> 3 | TargetOther \<Rightarrow> 6)"

lemma stripe_bits: "StripeCount tgt = 2 ^ stripe_bits tgt" "0 < stripe_bits tgt" "stripe_bits tgt \<le> 6"
  by (cases tgt; simp add: stripe_bits_def)+

lemma indexForPointer_bits:
  "indexForPointer tgt p = unat (take_bit (stripe_bits tgt) (drop_bit 4 p XOR drop_bit 9 p))"
  by (simp add: indexForPointer_def stripe_bits(1) take_bit_eq_mod)

lemma slot_bit:
  assumes "take_bit (4 + stripe_bits tgt) base = 0" "i < StripeCount tgt" "n < 64"
  shows "bit (base + 16 * of_nat i :: u64) n \<longleftrightarrow>
    (if n < 4 then False else if n < 4 + stripe_bits tgt then bit i (n - 4) else bit base n)"
proof -
  have w: "16 * of_nat i = (push_bit 4 (of_nat i) :: u64)" by (simp add: push_bit_eq_mult)
  have i: "bit i m \<Longrightarrow> m < stripe_bits tgt" for m
    using assms(2) unfolding stripe_bits(1) by (metis bit_take_bit_iff take_bit_nat_eq_self_iff)
  have b: "bit base m \<Longrightarrow> 4 + stripe_bits tgt \<le> m" for m
    using assms(1) by (metis bit_0_eq bit_take_bit_iff bot_apply bot_bool_def not_le)
  have pb: "bit (push_bit 4 (of_nat i) :: u64) m \<longleftrightarrow> 4 \<le> m \<and> m < 64 \<and> bit i (m - 4)" for m
    by (auto simp: bit_push_bit_iff bit_of_nat_iff)
  have "\<not> bit base m \<or> \<not> bit (push_bit 4 (of_nat i) :: u64) m" for m
    using i [of "m - 4"] b [of m] pb [of m] by linarith
  then have "base + 16 * of_nat i = base OR push_bit 4 (of_nat i)" unfolding w by (rule disjunctive_add)
  then show ?thesis using i [of "n - 4"] b [of n] pb [of n] assms(3) by (auto simp: bit_or_iff)
qed

text \<open>The neighbouring objects of an aligned block, at 16 bytes each, go to
  different stripes: the two shifts mix no two of them.\<close>

lemma indexForPointer_inj:
  assumes "take_bit (4 + stripe_bits tgt) base = 0"
  shows "inj_on (\<lambda>i. indexForPointer tgt (base + 16 * of_nat i)) {..<StripeCount tgt}"
proof (rule inj_onI)
  fix i j assume ij: "i \<in> {..<StripeCount tgt}" "j \<in> {..<StripeCount tgt}"
    and eq: "indexForPointer tgt (base + 16 * of_nat i) = indexForPointer tgt (base + 16 * of_nat j)"
  let ?p = "base + 16 * of_nat i" and ?q = "base + 16 * of_nat j"
  have s: "bit ?p n \<longleftrightarrow> (if n < 4 then False else if n < 4 + stripe_bits tgt then bit i (n - 4) else bit base n)"
    "bit ?q n \<longleftrightarrow> (if n < 4 then False else if n < 4 + stripe_bits tgt then bit j (n - 4) else bit base n)"
    if "n < 64" for n
    using slot_bit [OF assms _ that] ij by auto
  have x: "(bit ?p (n + 4) \<noteq> bit ?p (n + 9)) = (bit ?q (n + 4) \<noteq> bit ?q (n + 9))" if "n < stripe_bits tgt" for n
  proof -
    have "take_bit (stripe_bits tgt) (drop_bit 4 ?p XOR drop_bit 9 ?p) = take_bit (stripe_bits tgt) (drop_bit 4 ?q XOR drop_bit 9 ?q)"
      using eq unfolding indexForPointer_bits by (rule unsigned_word_eqI)
    from arg_cong [OF this, of "\<lambda>w. bit w n"] show ?thesis
      using that by (simp add: bit_take_bit_iff bit_xor_iff bit_drop_bit_eq ac_simps)
  qed
  have high: "bit i n = bit j n" if "0 < n" "n < stripe_bits tgt" for n
    using x [OF that(2)] s [of "n + 4"] s [of "n + 9"] that stripe_bits(3) [of tgt] by auto
  have nine: "9 - 4 = (5 :: nat)" by simp
  have "bit ?p 9 = bit ?q 9" using s [of 9] high [of 5] unfolding nine by (simp split: if_splits)
  then have "bit ?p 4 = bit ?q 4" using x [of 0] stripe_bits(2) [of tgt] by auto
  then have low: "bit i 0 = bit j 0" using s [of 4] stripe_bits(2) [of tgt] by simp
  have "take_bit (stripe_bits tgt) i = take_bit (stripe_bits tgt) j"
    by (rule bit_eqI) (use high low in \<open>metis bit_take_bit_iff gr0I\<close>)
  then show "i = j" using ij by (simp add: stripe_bits(1) take_bit_nat_eq_self)
qed

lemma indexForPointer_bij:
  assumes "take_bit (4 + stripe_bits tgt) base = 0"
  shows "bij_betw (\<lambda>i. indexForPointer tgt (base + 16 * of_nat i)) {..<StripeCount tgt} {..<StripeCount tgt}"
  unfolding bij_betw_def using indexForPointer_inj [OF assms]
  by (auto simp: endo_inj_surj image_subset_iff indexForPointer_less)

lemma aligned_block:
  assumes "16 * StripeCount tgt dvd unat base"
  shows "take_bit (4 + stripe_bits tgt) base = 0"
proof -
  have "unat (take_bit (4 + stripe_bits tgt) base) = unat base mod (16 * StripeCount tgt)"
    unfolding unsigned_take_bit_eq by (simp add: take_bit_eq_mod stripe_bits(1) power_add)
  then show ?thesis using assms by (simp add: unat_eq_zero)
qed

lemma striped_get_set:
  assumes "length array = StripeCount tgt"
  shows "striped_get tgt (striped_set tgt p v array) q =
    (if indexForPointer tgt p = indexForPointer tgt q then v else striped_get tgt array q)"
  using indexForPointer_less [of tgt] assms by (simp add: striped_get_def striped_set_def nth_list_update)

section \<open>The order of the locks\<close>

lemma lockTwo_sorted:
  "\<exists>xs. lockTwo a b = map Lock xs \<and> lockTwo b a = map Lock xs \<and> set xs = {a, b} \<and> sorted_wrt (<) xs"
  by (rule exI [of _ "if a = b then [a] else [min a b, max a b]"]) (auto simp: lockTwo_def min_def max_def)

lemma stripe_address_less:
  assumes "stripes_fit tgt base sz" "i < j" "j < StripeCount tgt"
  shows "stripe_address base sz i < stripe_address base sz j"
proof -
  have "unat (stripe_address base sz k) = unat base + k * sz" if "k < StripeCount tgt" for k
  proof -
    have "k * sz \<le> StripeCount tgt * sz" using that by simp
    then have "unat base + k * sz < 2 ^ 64" using assms(1) unfolding stripes_fit_def by linarith
    then have "unat (of_nat (unat base + k * sz) :: u64) = unat base + k * sz"
      unfolding unat_of_nat by (intro mod_less) simp
    then show ?thesis by (simp add: stripe_address_def)
  qed
  moreover have "i * sz < j * sz" using assms(1,2) by (simp add: stripes_fit_def)
  ultimately show ?thesis using assms(2,3) by (simp add: word_less_nat_alt)
qed

lemma lockAll_sorted:
  assumes "stripes_fit tgt base sz"
  shows "sorted_wrt (<) (map (stripe_address base sz) [0..<StripeCount tgt])"
  using stripe_address_less [OF assms] by (auto simp: sorted_wrt_iff_nth_less)

lemma defineLockOrder_zip:
  "defineLockOrder tgt base sz =
    zip (butlast (map (stripe_address base sz) [0..<StripeCount tgt])) (List.tl (map (stripe_address base sz) [0..<StripeCount tgt]))"
  by (rule nth_equalityI) (auto simp: defineLockOrder_def nth_butlast nth_tl)

section \<open>No deadlock\<close>

text \<open>The discipline of a thread that owns \<open>H\<close>: it takes only locks above those it
  owns, gives back only what it owns, and owns nothing at its end.\<close>

fun disciplined :: "u64 set \<Rightarrow> lock_op list \<Rightarrow> bool" where
  "disciplined H [] \<longleftrightarrow> H = {}"
| "disciplined H (Lock a # ops) \<longleftrightarrow> (\<forall>h\<in>H. h < a) \<and> disciplined (insert a H) ops"
| "disciplined H (Unlock a # ops) \<longleftrightarrow> a \<in> H \<and> disciplined (H - {a}) ops"
| "disciplined H (ForceReset a # ops) \<longleftrightarrow> False"

lemma disciplined_locks:
  "sorted_wrt (<) xs \<Longrightarrow> \<forall>h\<in>H. \<forall>x\<in>set xs. h < x \<Longrightarrow>
    disciplined H (map Lock xs @ ops) \<longleftrightarrow> disciplined (H \<union> set xs) ops"
  by (induction xs arbitrary: H) auto

lemma disciplined_unlocks: "distinct xs \<Longrightarrow> disciplined (set xs) (map Unlock xs)"
proof (induction xs)
  case (Cons x xs)
  then have "set (x # xs) - {x} = set xs" by auto
  with Cons show ?case by simp
qed simp

lemma disciplined_job: "job_ok j \<Longrightarrow> disciplined {} (job_ops j)"
proof (induction j)
  case (TwoLocks a b)
  obtain xs where "lockTwo a b = map Lock xs" "set xs = {a, b}" "sorted_wrt (<) xs" using lockTwo_sorted by blast
  then show ?case by (auto simp: disciplined_locks unlockTwo_def)
next
  case (AllLocks tgt base sz)
  let ?xs = "map (stripe_address base sz) [0..<StripeCount tgt]"
  have xs: "sorted_wrt (<) ?xs" using AllLocks by (simp add: lockAll_sorted)
  then have "distinct ?xs" by (simp add: strict_sorted_iff)
  moreover have "job_ops (AllLocks tgt base sz) = map Lock ?xs @ map Unlock ?xs"
    by (simp add: lockAll_def unlockAll_def)
  ultimately show ?case using xs by (simp only: disciplined_locks disciplined_unlocks ball_empty Un_empty_left)
qed

definition owned :: "owners \<Rightarrow> nat \<Rightarrow> u64 set" where
  "owned own i = {a. own a = Some i}"

definition lock_inv :: "owners \<times> lock_op list list \<Rightarrow> bool" where
  "lock_inv = (\<lambda>(own, ps). (\<forall>i < length ps. disciplined (owned own i) (ps ! i)) \<and>
     (\<forall>a i. own a = Some i \<longrightarrow> i < length ps))"

lemma lock_inv_start: "list_all job_ok js \<Longrightarrow> lock_inv (\<lambda>_. None, map job_ops js)"
  by (auto simp: lock_inv_def owned_def list_all_length disciplined_job)

lemma lock_inv_step:
  assumes "lock_step s s'" "lock_inv s"
  shows "lock_inv s'"
  using assms
proof (induction rule: lock_step.induct)
  case (step i ps op ops own own')
  have d: "disciplined (owned own i) (op # ops)" using step by (auto simp: lock_inv_def)
  obtain a where a: "op = Lock a \<and> own a = None \<and> own' = own(a := Some i) \<or>
      op = Unlock a \<and> own a = Some i \<and> own' = own(a := None)"
    using step(3) d by (cases op) (auto split: option.splits if_splits)
  have "owned (own(a := Some i)) i = insert a (owned own i)" "owned (own(a := None)) i = owned own i - {a}"
    by (auto simp: owned_def)
  then have "disciplined (owned own' i) ops" using d a by auto
  moreover have "owned own' j = owned own j" if "j \<noteq> i" for j using a that by (auto simp: owned_def split: if_splits)
  ultimately show ?case using step a by (auto simp: lock_inv_def nth_list_update split: if_splits)
qed

lemma lock_inv_no_abort: "lock_inv s \<Longrightarrow> \<not> lock_aborts s"
proof
  assume inv: "lock_inv s" and "lock_aborts s"
  then obtain own ps i op ops e where s: "s = (own, ps)" "i < length ps" "ps ! i = op # ops" "lock_apply i op own = Aborts e"
    by (cases s) (auto simp: lock_aborts_def)
  then have "disciplined (owned own i) (op # ops)" using inv by (auto simp: lock_inv_def)
  then show False using s(4) by (cases op) (auto simp: owned_def split: option.splits if_splits)
qed

text \<open>A thread that cannot go on waits for a lock of another thread.  Were all
  unfinished threads to wait, the owner of the highest lock waited for would
  wait for a higher one.\<close>

lemma lock_progress:
  assumes "lock_inv (own, ps)" "\<not> list_all (\<lambda>p. p = []) ps"
  shows "\<exists>s'. lock_step (own, ps) s'"
proof (rule ccontr)
  assume stuck: "\<nexists>s'. lock_step (own, ps) s'"
  have waits: "\<exists>a. ps ! i = Lock a # List.tl (ps ! i) \<and> (\<exists>j. own a = Some j \<and> j < length ps)"
    if i: "i < length ps" "ps ! i \<noteq> []" for i
  proof -
    obtain op ops where op: "ps ! i = op # ops" using i(2) by (cases "ps ! i") auto
    then have "\<not> lock_aborts (own, ps)" "\<And>own'. lock_apply i op own \<noteq> Goes own'"
      using lock_inv_no_abort [OF assms(1)] stuck lock_step.step [OF i(1) op] by blast+
    then have "lock_apply i op own = Waits" using i(1) op by (cases "lock_apply i op own") (auto simp: lock_aborts_def)
    then show ?thesis using assms(1) op by (cases op) (auto simp: lock_inv_def split: option.splits if_splits)
  qed
  define W where "W = {a. \<exists>i < length ps. \<exists>ops. ps ! i = Lock a # ops}"
  have "W \<subseteq> (\<lambda>i. case ps ! i of Lock a # ops \<Rightarrow> a | _ \<Rightarrow> nil) ` {..<length ps}"
    unfolding W_def by (force split: list.splits lock_op.splits)
  then have fin: "finite W" by (rule finite_subset) simp
  obtain i where "i < length ps" "ps ! i \<noteq> []" using assms(2) by (auto simp: list_all_length)
  then have "W \<noteq> {}" using waits unfolding W_def by blast
  then have top: "Max W \<in> W" "\<And>a. a \<in> W \<Longrightarrow> a \<le> Max W" using fin by auto
  then obtain k ops where k: "k < length ps" "ps ! k = Lock (Max W) # ops" unfolding W_def by blast
  then obtain j where j: "own (Max W) = Some j" "j < length ps" using waits [of k] by auto
  have d: "disciplined (owned own j) (ps ! j)" "Max W \<in> owned own j" using assms(1) j by (auto simp: lock_inv_def owned_def)
  then have "ps ! j \<noteq> []" by auto
  then obtain b where b: "ps ! j = Lock b # List.tl (ps ! j)" using waits j(2) by blast
  then have "Max W < b" using d by (metis disciplined.simps(2))
  moreover have "b \<in> W" using b j(2) unfolding W_def by blast
  ultimately show False using top(2) by (meson leD)
qed

definition lock_work :: "owners \<times> lock_op list list \<Rightarrow> nat" where
  "lock_work s = sum_list (map length (snd s))"

lemma lock_work_0: "lock_work (own, ps) = 0 \<longleftrightarrow> list_all (\<lambda>p. p = []) ps"
  by (auto simp: lock_work_def list_all_iff sum_list_eq_0_iff)

lemma lock_step_work: "lock_step s s' \<Longrightarrow> lock_work s = Suc (lock_work s')"
proof (induction rule: lock_step.induct)
  case (step i ps op ops own own')
  have "length (op # ops) \<le> sum_list (map length ps)"
    using step(1,2) elem_le_sum_list [of i "map length ps"] by simp
  then show ?case using step(1,2) by (simp add: lock_work_def map_update sum_list_update)
qed

lemma lock_inv_run: "lock_step\<^sup>*\<^sup>* s s' \<Longrightarrow> lock_inv s \<Longrightarrow> lock_inv s'"
  by (induction rule: rtranclp_induct) (auto intro: lock_inv_step)

lemma lock_inv_done:
  assumes "lock_inv (own, ps)" "list_all (\<lambda>p. p = []) ps"
  shows "own = (\<lambda>_. None)"
proof
  fix a
  have "owned own i = {}" if "i < length ps" for i using assms that by (auto simp: lock_inv_def list_all_length)
  then show "own a = None" using assms(1) by (cases "own a") (auto simp: lock_inv_def owned_def)
qed

text \<open>However long the threads have run, they can all finish, with every lock given
  back.\<close>

lemma lock_run_finishes:
  assumes "lock_inv s"
  shows "\<exists>ps. (lock_step ^^ lock_work s) s (\<lambda>_. None, ps) \<and> list_all (\<lambda>p. p = []) ps"
  using assms
proof (induction "lock_work s" arbitrary: s)
  case 0
  obtain own ps where s: "s = (own, ps)" by (cases s)
  then have "list_all (\<lambda>p. p = []) ps" using 0(1) lock_work_0 by metis
  moreover have "own = (\<lambda>_. None)" using 0(2) lock_inv_done calculation s by blast
  ultimately show ?case using 0(1) [symmetric] s by auto
next
  case (Suc n)
  obtain own ps where s: "s = (own, ps)" by (cases s)
  then have "\<not> list_all (\<lambda>p. p = []) ps" using Suc(2) lock_work_0 by (metis Zero_neq_Suc)
  then obtain s' where s': "lock_step s s'" using lock_progress Suc(3) s by blast
  have n: "n = lock_work s'" using lock_step_work [OF s'] Suc(2) by simp
  obtain ps' where "(lock_step ^^ n) s' (\<lambda>_. None, ps')" "list_all (\<lambda>p. p = []) ps'"
    using Suc(1) [OF n lock_inv_step [OF s' Suc(3)]] n by auto
  then show ?case using s' Suc(2) relpowp_Suc_I2 by metis
qed

section \<open>One thread alone\<close>

lemma lockTwo_run:
  "lock_run t (lockTwo a b) own =
    (if own a = None \<and> own b = None then Goes (own(a := Some t, b := Some t))
     else case own (min a b) of
       None \<Rightarrow> if own (max a b) = Some t then Aborts UnfairLockRecursion else Waits
     | Some u \<Rightarrow> if u = t then Aborts UnfairLockRecursion else Waits)"
  by (auto simp: lockTwo_def min_def max_def fun_upd_twist split: option.splits)

lemma lockTwo_unlockTwo_run:
  "own a = None \<Longrightarrow> own b = None \<Longrightarrow> lock_run t (lockTwo a b @ unlockTwo a b) own = Goes own"
  by (auto simp: lockTwo_def unlockTwo_def fun_upd_idem fun_eq_iff)

end
