(* ===== verification/ClassData.thy ===== *)
theory ClassData
  imports Bitfields
begin

text \<open>
  The flags and sizes of a class (\<^verbatim>\<open>objc-runtime-new.h\<close>): the flag word of
  \<open>class_rw_t\<close> and its compare-and-swap loop, \<open>class_data_bits_t\<close> (the data
  pointer and the FAST bits in one word), the flag half-word of \<open>cache_t\<close> with
  the fast instance size, and the operations of \<open>objc_class\<close> on them, for the
  64-bit targets.
\<close>

section \<open>Flags\<close>

definition RO_META :: u32 where "RO_META = push_bit 0 1"
definition RO_IS_ARC :: u32 where "RO_IS_ARC = push_bit 7 1"
definition RO_HAS_WEAK_WITHOUT_ARC :: u32 where "RO_HAS_WEAK_WITHOUT_ARC = push_bit 9 1"
definition RW_REALIZED :: u32 where "RW_REALIZED = push_bit 31 1"
definition RW_FUTURE :: u32 where "RW_FUTURE = push_bit 30 1"
definition RW_INITIALIZED :: u32 where "RW_INITIALIZED = push_bit 29 1"
definition RW_INITIALIZING :: u32 where "RW_INITIALIZING = push_bit 28 1"
definition RW_COPIED_RO :: u32 where "RW_COPIED_RO = push_bit 27 1"
definition RW_FORBIDS_ASSOCIATED_OBJECTS :: u32 where "RW_FORBIDS_ASSOCIATED_OBJECTS = push_bit 20 1"
definition RW_REALIZING :: u32 where "RW_REALIZING = push_bit 19 1"
definition RW_META :: u32 where "RW_META = RO_META"

definition FAST_IS_SWIFT_LEGACY :: u64 where "FAST_IS_SWIFT_LEGACY = push_bit 0 1"
definition FAST_IS_SWIFT_STABLE :: u64 where "FAST_IS_SWIFT_STABLE = push_bit 1 1"
definition FAST_HAS_DEFAULT_RR :: u64 where "FAST_HAS_DEFAULT_RR = push_bit 2 1"
definition FAST_DATA_MASK :: u64 where "FAST_DATA_MASK = 0x00007ffffffffff8"

text \<open>The bits of \<open>cache_t::_flags\<close>; three of them have other places on arm64.\<close>

record cache_bits =
  FAST_CACHE_META :: u16
  FAST_CACHE_HAS_CXX_CTOR :: u16
  FAST_CACHE_HAS_CXX_DTOR :: u16

definition arm64_cache_bits :: cache_bits where
  "arm64_cache_bits = \<lparr>FAST_CACHE_META = push_bit 2 1, FAST_CACHE_HAS_CXX_CTOR = push_bit 1 1,
     FAST_CACHE_HAS_CXX_DTOR = push_bit 0 1\<rparr>"

definition x86_64_cache_bits :: cache_bits where
  "x86_64_cache_bits = \<lparr>FAST_CACHE_META = push_bit 0 1, FAST_CACHE_HAS_CXX_CTOR = push_bit 1 1,
     FAST_CACHE_HAS_CXX_DTOR = push_bit 2 1\<rparr>"

definition FAST_CACHE_ALLOC_MASK :: u16 where "FAST_CACHE_ALLOC_MASK = 0x1ff8"
definition FAST_CACHE_ALLOC_MASK16 :: u16 where "FAST_CACHE_ALLOC_MASK16 = 0x1ff0"
definition FAST_CACHE_ALLOC_DELTA16 :: u16 where "FAST_CACHE_ALLOC_DELTA16 = 8"
definition FAST_CACHE_REQUIRES_RAW_ISA :: u16 where "FAST_CACHE_REQUIRES_RAW_ISA = push_bit 13 1"
definition FAST_CACHE_HAS_DEFAULT_AWZ :: u16 where "FAST_CACHE_HAS_DEFAULT_AWZ = push_bit 14 1"
definition FAST_CACHE_HAS_DEFAULT_CORE :: u16 where "FAST_CACHE_HAS_DEFAULT_CORE = push_bit 15 1"

section \<open>Alignment\<close>

definition word_align32 :: "u32 \<Rightarrow> u32" where
  "word_align32 x = ucast ((ucast x + 7 :: u64) AND NOT 7)"

definition word_align64 :: "u64 \<Rightarrow> u64" where
  "word_align64 x = (x + 7) AND NOT 7"

definition align16 :: "u64 \<Rightarrow> u64" where
  "align16 x = (x + 15) AND NOT 15"

section \<open>The flag half-word of \<open>cache_t\<close>\<close>

definition cache_getBit :: "u16 \<Rightarrow> u16 \<Rightarrow> bool" where
  "cache_getBit flags fl \<longleftrightarrow> flags AND fl \<noteq> 0"

definition cache_setBit :: "u16 \<Rightarrow> u16 \<Rightarrow> u16" where
  "cache_setBit st flags = flags OR st"

definition cache_clearBit :: "u16 \<Rightarrow> u16 \<Rightarrow> u16" where
  "cache_clearBit clear flags = flags AND NOT clear"

text \<open>\<open>known\<close> says whether the compiler knows \<open>extra\<close> at the call.\<close>

definition hasFastInstanceSize :: "bool \<Rightarrow> u64 \<Rightarrow> u16 \<Rightarrow> bool" where
  "hasFastInstanceSize known extra flags =
     (if known \<and> extra = 0 then flags AND FAST_CACHE_ALLOC_MASK16 \<noteq> 0 else flags AND FAST_CACHE_ALLOC_MASK \<noteq> 0)"

definition fastInstanceSize :: "bool \<Rightarrow> u64 \<Rightarrow> u16 \<Rightarrow> fault + u64" where
  "fastInstanceSize known extra flags =
     (if \<not> hasFastInstanceSize known extra flags then Inl AssertFailed
      else if known \<and> extra = 0 then Inr (ucast (flags AND FAST_CACHE_ALLOC_MASK16))
      else let sz = ucast (flags AND FAST_CACHE_ALLOC_MASK)
           in Inr (align16 (sz + extra - ucast FAST_CACHE_ALLOC_DELTA16)))"

definition setFastInstanceSize :: "u64 \<Rightarrow> u16 \<Rightarrow> u16" where
  "setFastInstanceSize newSize flags =
     (let newBits = flags AND NOT FAST_CACHE_ALLOC_MASK;
          sizeBits = ucast (word_align64 newSize + ucast FAST_CACHE_ALLOC_DELTA16) :: u16;
          sizeBits = sizeBits AND FAST_CACHE_ALLOC_MASK;
          newBits = (if newSize \<le> ucast sizeBits then newBits OR sizeBits else newBits)
      in newBits)"

section \<open>The flag word of \<open>class_rw_t\<close>\<close>

definition setFlags :: "u32 \<Rightarrow> u32 \<Rightarrow> u32" where
  "setFlags st flags = flags OR st"

definition clearFlags :: "u32 \<Rightarrow> u32 \<Rightarrow> u32" where
  "clearFlags clear flags = flags AND NOT clear"

text \<open>The loop against other threads: before each compare-and-swap the next
  function of \<open>env\<close> is applied to the word.  The loop returns what is left of
  \<open>env\<close>, which happens after its store, and the word it leaves.\<close>

definition OSAtomicCompareAndSwap32Barrier :: "u32 \<Rightarrow> u32 \<Rightarrow> u32 \<Rightarrow> bool \<times> u32" where
  "OSAtomicCompareAndSwap32Barrier oldValue newValue w = (if w = oldValue then (True, newValue) else (False, w))"

fun changeFlags_loop :: "u32 \<Rightarrow> u32 \<Rightarrow> (u32 \<Rightarrow> u32) list \<Rightarrow> u32 \<Rightarrow> (u32 \<Rightarrow> u32) list \<times> u32" where
  "changeFlags_loop st clear [] flags =
     (let oldf = flags; newf = (oldf OR st) AND NOT clear
      in ([], snd (OSAtomicCompareAndSwap32Barrier oldf newf flags)))"
| "changeFlags_loop st clear (f # env) flags =
     (let oldf = flags; newf = (oldf OR st) AND NOT clear
      in case OSAtomicCompareAndSwap32Barrier oldf newf (f flags) of (stored, flags) \<Rightarrow>
        if \<not> stored then changeFlags_loop st clear env flags else (env, flags))"

definition changeFlags :: "u32 \<Rightarrow> u32 \<Rightarrow> (u32 \<Rightarrow> u32) list \<Rightarrow> u32 \<Rightarrow> fault + ((u32 \<Rightarrow> u32) list \<times> u32)" where
  "changeFlags st clear env flags =
     (if st AND clear \<noteq> 0 then Inl AssertFailed else Inr (changeFlags_loop st clear env flags))"

section \<open>\<open>class_data_bits_t\<close>\<close>

definition bits_getBit :: "u64 \<Rightarrow> u64 \<Rightarrow> bool" where
  "bits_getBit bits bt \<longleftrightarrow> bits AND bt \<noteq> 0"

text \<open>The store may fail because of another thread or without reason
  (\<open>None\<close>).\<close>

fun setAndClearBits_loop ::
  "u64 \<Rightarrow> u64 \<Rightarrow> (u64 \<Rightarrow> u64) option list \<Rightarrow> u64 \<Rightarrow> (u64 \<Rightarrow> u64) option list \<times> u64" where
  "setAndClearBits_loop st clear [] bits = ([], (bits OR st) AND NOT clear)"
| "setAndClearBits_loop st clear (None # env) bits = setAndClearBits_loop st clear env bits"
| "setAndClearBits_loop st clear (Some f # env) bits =
     (let oldBits = bits; newBits = (oldBits OR st) AND NOT clear
      in if f bits = oldBits then (env, newBits) else setAndClearBits_loop st clear env (f bits))"

definition setAndClearBits ::
  "u64 \<Rightarrow> u64 \<Rightarrow> (u64 \<Rightarrow> u64) option list \<Rightarrow> u64 \<Rightarrow> fault + ((u64 \<Rightarrow> u64) option list \<times> u64)" where
  "setAndClearBits st clear env bits =
     (if st AND clear \<noteq> 0 then Inl AssertFailed else Inr (setAndClearBits_loop st clear env bits))"

definition setBits :: "u64 \<Rightarrow> u64 \<Rightarrow> u64" where
  "setBits st bits = bits OR st"

definition clearBits :: "u64 \<Rightarrow> u64 \<Rightarrow> u64" where
  "clearBits clear bits = bits AND NOT clear"

definition bits_data :: "u64 \<Rightarrow> u64" where
  "bits_data bits = bits AND FAST_DATA_MASK"

text \<open>\<open>newFlags\<close> are the flags of the \<open>class_rw_t\<close> at \<open>newData\<close>.\<close>

definition bits_setData :: "u64 \<Rightarrow> u32 \<Rightarrow> u64 \<Rightarrow> fault + u64" where
  "bits_setData newData newFlags bits =
     (if bits_data bits \<noteq> 0 \<and> newFlags AND (RW_REALIZING OR RW_FUTURE) = 0 then Inl AssertFailed
      else Inr ((bits AND NOT FAST_DATA_MASK) OR newData))"

definition bits_isSwiftStable :: "u64 \<Rightarrow> bool" where
  "bits_isSwiftStable bits = bits_getBit bits FAST_IS_SWIFT_STABLE"

definition bits_isSwiftLegacy :: "u64 \<Rightarrow> bool" where
  "bits_isSwiftLegacy bits = bits_getBit bits FAST_IS_SWIFT_LEGACY"

definition bits_isAnySwift :: "u64 \<Rightarrow> bool" where
  "bits_isAnySwift bits \<longleftrightarrow> bits_isSwiftStable bits \<or> bits_isSwiftLegacy bits"

definition bits_setIsSwiftStable ::
  "(u64 \<Rightarrow> u64) option list \<Rightarrow> u64 \<Rightarrow> fault + ((u64 \<Rightarrow> u64) option list \<times> u64)" where
  "bits_setIsSwiftStable env bits = setAndClearBits FAST_IS_SWIFT_STABLE FAST_IS_SWIFT_LEGACY env bits"

definition bits_setIsSwiftLegacy ::
  "(u64 \<Rightarrow> u64) option list \<Rightarrow> u64 \<Rightarrow> fault + ((u64 \<Rightarrow> u64) option list \<times> u64)" where
  "bits_setIsSwiftLegacy env bits = setAndClearBits FAST_IS_SWIFT_LEGACY FAST_IS_SWIFT_STABLE env bits"

section \<open>\<open>objc_class\<close>\<close>

text \<open>The part of a class that its flag and size operations use.  The pointer in
  \<open>bits\<close> leads to \<open>rw_flags\<close> and, through the \<open>class_rw_t\<close>, to the \<open>class_ro_t\<close>
  fields; before realization it leads to the \<open>class_ro_t\<close> itself, whose flags
  are at the same place.\<close>

record objc_class =
  isaBits :: u64
  superclass :: ptr
  cache_flags :: u16
  bits :: u64
  rw_flags :: u32
  ro_flags :: u32
  ro_instanceStart :: u32
  ro_instanceSize :: u32
  swiftClassFlags :: u32

definition isStubClass :: "objc_class \<Rightarrow> bool" where
  "isStubClass c \<longleftrightarrow> 1 \<le> isaBits c \<and> isaBits c < 16"

definition isRealized :: "objc_class \<Rightarrow> bool" where
  "isRealized c \<longleftrightarrow> \<not> isStubClass c \<and> rw_flags c AND RW_REALIZED \<noteq> 0"

definition class_isFuture :: "objc_class \<Rightarrow> bool" where
  "class_isFuture c = (if isStubClass c then False else rw_flags c AND RW_FUTURE \<noteq> 0)"

definition setInfo :: "u32 \<Rightarrow> objc_class \<Rightarrow> fault + objc_class" where
  "setInfo st c = (if \<not> (class_isFuture c \<or> isRealized c) then Inl AssertFailed
     else Inr (c\<lparr>rw_flags := setFlags st (rw_flags c)\<rparr>))"

definition clearInfo :: "u32 \<Rightarrow> objc_class \<Rightarrow> fault + objc_class" where
  "clearInfo clear c = (if \<not> (class_isFuture c \<or> isRealized c) then Inl AssertFailed
     else Inr (c\<lparr>rw_flags := clearFlags clear (rw_flags c)\<rparr>))"

definition changeInfo ::
  "u32 \<Rightarrow> u32 \<Rightarrow> (u32 \<Rightarrow> u32) list \<Rightarrow> objc_class \<Rightarrow> fault + ((u32 \<Rightarrow> u32) list \<times> objc_class)" where
  "changeInfo st clear env c =
     (if \<not> (class_isFuture c \<or> isRealized c) then Inl AssertFailed
      else if st AND clear \<noteq> 0 then Inl AssertFailed
      else bindE (changeFlags st clear env (rw_flags c)) (\<lambda>(env, fl). Inr (env, c\<lparr>rw_flags := fl\<rparr>)))"

definition class_hasCustomRR :: "objc_class \<Rightarrow> bool" where
  "class_hasCustomRR c \<longleftrightarrow> \<not> bits_getBit (bits c) FAST_HAS_DEFAULT_RR"

definition setHasDefaultRR :: "objc_class \<Rightarrow> objc_class" where
  "setHasDefaultRR c = c\<lparr>bits := setBits FAST_HAS_DEFAULT_RR (bits c)\<rparr>"

definition setHasCustomRR :: "objc_class \<Rightarrow> objc_class" where
  "setHasCustomRR c = c\<lparr>bits := clearBits FAST_HAS_DEFAULT_RR (bits c)\<rparr>"

definition hasCustomAWZ :: "objc_class \<Rightarrow> bool" where
  "hasCustomAWZ c \<longleftrightarrow> \<not> cache_getBit (cache_flags c) FAST_CACHE_HAS_DEFAULT_AWZ"

definition setHasDefaultAWZ :: "objc_class \<Rightarrow> objc_class" where
  "setHasDefaultAWZ c = c\<lparr>cache_flags := cache_setBit FAST_CACHE_HAS_DEFAULT_AWZ (cache_flags c)\<rparr>"

definition setHasCustomAWZ :: "objc_class \<Rightarrow> objc_class" where
  "setHasCustomAWZ c = c\<lparr>cache_flags := cache_clearBit FAST_CACHE_HAS_DEFAULT_AWZ (cache_flags c)\<rparr>"

definition hasCustomCore :: "objc_class \<Rightarrow> bool" where
  "hasCustomCore c \<longleftrightarrow> \<not> cache_getBit (cache_flags c) FAST_CACHE_HAS_DEFAULT_CORE"

definition setHasDefaultCore :: "objc_class \<Rightarrow> objc_class" where
  "setHasDefaultCore c = c\<lparr>cache_flags := cache_setBit FAST_CACHE_HAS_DEFAULT_CORE (cache_flags c)\<rparr>"

definition setHasCustomCore :: "objc_class \<Rightarrow> objc_class" where
  "setHasCustomCore c = c\<lparr>cache_flags := cache_clearBit FAST_CACHE_HAS_DEFAULT_CORE (cache_flags c)\<rparr>"

definition class_hasCxxCtor :: "cache_bits \<Rightarrow> objc_class \<Rightarrow> fault + bool" where
  "class_hasCxxCtor K c = (if \<not> isRealized c then Inl AssertFailed
     else Inr (cache_getBit (cache_flags c) (FAST_CACHE_HAS_CXX_CTOR K)))"

definition setHasCxxCtor :: "cache_bits \<Rightarrow> objc_class \<Rightarrow> objc_class" where
  "setHasCxxCtor K c = c\<lparr>cache_flags := cache_setBit (FAST_CACHE_HAS_CXX_CTOR K) (cache_flags c)\<rparr>"

definition class_hasCxxDtor :: "cache_bits \<Rightarrow> objc_class \<Rightarrow> fault + bool" where
  "class_hasCxxDtor K c = (if \<not> isRealized c then Inl AssertFailed
     else Inr (cache_getBit (cache_flags c) (FAST_CACHE_HAS_CXX_DTOR K)))"

definition setHasCxxDtor :: "cache_bits \<Rightarrow> objc_class \<Rightarrow> objc_class" where
  "setHasCxxDtor K c = c\<lparr>cache_flags := cache_setBit (FAST_CACHE_HAS_CXX_DTOR K) (cache_flags c)\<rparr>"

definition class_instancesRequireRawIsa :: "objc_class \<Rightarrow> bool" where
  "class_instancesRequireRawIsa c = cache_getBit (cache_flags c) FAST_CACHE_REQUIRES_RAW_ISA"

definition setInstancesRequireRawIsa :: "objc_class \<Rightarrow> objc_class" where
  "setInstancesRequireRawIsa c = c\<lparr>cache_flags := cache_setBit FAST_CACHE_REQUIRES_RAW_ISA (cache_flags c)\<rparr>"

definition class_canAllocNonpointer :: "objc_class \<Rightarrow> fault + bool" where
  "class_canAllocNonpointer c =
     (if class_isFuture c then Inl AssertFailed else Inr (\<not> class_instancesRequireRawIsa c))"

definition usesSwiftRefcounting :: "objc_class \<Rightarrow> bool" where
  "usesSwiftRefcounting c = (if \<not> bits_isSwiftStable (bits c) then False else swiftClassFlags c AND 2 \<noteq> 0)"

definition class_canCallSwiftRR :: "objc_class \<Rightarrow> bool" where
  "class_canCallSwiftRR c \<longleftrightarrow> \<not> hasCustomCore c \<and> usesSwiftRefcounting c"

definition isUnfixedBackwardDeployingStableSwift :: "objc_class \<Rightarrow> bool" where
  "isUnfixedBackwardDeployingStableSwift c =
     (if \<not> bits_isSwiftLegacy (bits c) then False
      else let isActuallySwiftLegacy = swiftClassFlags c AND 1 \<noteq> 0 in \<not> isActuallySwiftLegacy)"

definition fixupBackwardDeployingStableSwift ::
  "(u64 \<Rightarrow> u64) option list \<Rightarrow> objc_class \<Rightarrow> fault + ((u64 \<Rightarrow> u64) option list \<times> objc_class)" where
  "fixupBackwardDeployingStableSwift env c =
     (if isUnfixedBackwardDeployingStableSwift c
      then bindE (bits_setIsSwiftStable env (bits c)) (\<lambda>(env, b). Inr (env, c\<lparr>bits := b\<rparr>)) else Inr (env, c))"

definition hasAutomaticIvars :: "objc_class \<Rightarrow> bool" where
  "hasAutomaticIvars c \<longleftrightarrow> ro_flags c AND (RO_IS_ARC OR RO_HAS_WEAK_WITHOUT_ARC) \<noteq> 0"

definition isARC :: "objc_class \<Rightarrow> bool" where
  "isARC c \<longleftrightarrow> ro_flags c AND RO_IS_ARC \<noteq> 0"

definition forbidsAssociatedObjects :: "objc_class \<Rightarrow> bool" where
  "forbidsAssociatedObjects c \<longleftrightarrow> rw_flags c AND RW_FORBIDS_ASSOCIATED_OBJECTS \<noteq> 0"

definition class_isMetaClass :: "cache_bits \<Rightarrow> objc_class \<Rightarrow> fault + bool" where
  "class_isMetaClass K c = (if \<not> isRealized c then Inl AssertFailed
     else Inr (cache_getBit (cache_flags c) (FAST_CACHE_META K)))"

definition isMetaClassMaybeUnrealized :: "objc_class \<Rightarrow> bool" where
  "isMetaClassMaybeUnrealized c = (if isStubClass c then False else rw_flags c AND RW_META \<noteq> 0)"

definition isRootClass :: "objc_class \<Rightarrow> bool" where
  "isRootClass c \<longleftrightarrow> superclass c = nil"

text \<open>\<open>isInitializing\<close>, \<open>setInitializing\<close> and \<open>isInitialized\<close> look at the metaclass
  \<open>meta\<close> of the class (the class itself if it is one).\<close>

definition getMeta :: "objc_class \<Rightarrow> objc_class \<Rightarrow> objc_class" where
  "getMeta meta c = (if isMetaClassMaybeUnrealized c then c else meta)"

definition isInitializing :: "objc_class \<Rightarrow> objc_class \<Rightarrow> bool" where
  "isInitializing meta c \<longleftrightarrow> rw_flags (getMeta meta c) AND RW_INITIALIZING \<noteq> 0"

definition setInitializing :: "cache_bits \<Rightarrow> objc_class \<Rightarrow> objc_class \<Rightarrow> fault + objc_class" where
  "setInitializing K meta c =
     bindE (class_isMetaClass K c) (\<lambda>b. if b then Inl AssertFailed else setInfo RW_INITIALIZING meta)"

definition isInitialized :: "objc_class \<Rightarrow> objc_class \<Rightarrow> bool" where
  "isInitialized meta c \<longleftrightarrow> rw_flags (getMeta meta c) AND RW_INITIALIZED \<noteq> 0"

definition unalignedInstanceStart :: "objc_class \<Rightarrow> fault + u32" where
  "unalignedInstanceStart c = (if \<not> isRealized c then Inl AssertFailed else Inr (ro_instanceStart c))"

definition alignedInstanceStart :: "objc_class \<Rightarrow> fault + u32" where
  "alignedInstanceStart c = bindE (unalignedInstanceStart c) (\<lambda>x. Inr (word_align32 x))"

definition unalignedInstanceSize :: "objc_class \<Rightarrow> fault + u32" where
  "unalignedInstanceSize c = (if \<not> isRealized c then Inl AssertFailed else Inr (ro_instanceSize c))"

definition alignedInstanceSize :: "objc_class \<Rightarrow> fault + u32" where
  "alignedInstanceSize c = bindE (unalignedInstanceSize c) (\<lambda>x. Inr (word_align32 x))"

definition instanceSize :: "bool \<Rightarrow> u64 \<Rightarrow> objc_class \<Rightarrow> fault + u64" where
  "instanceSize known extraBytes c =
     (if hasFastInstanceSize known extraBytes (cache_flags c) then fastInstanceSize known extraBytes (cache_flags c)
      else bindE (alignedInstanceSize c) (\<lambda>a.
        let sz = ucast a + extraBytes in Inr (if sz < 16 then 16 else sz)))"

definition setInstanceSize :: "u32 \<Rightarrow> objc_class \<Rightarrow> fault + objc_class" where
  "setInstanceSize newSize c =
     (if \<not> isRealized c then Inl AssertFailed
      else if rw_flags c AND RW_REALIZING = 0 then Inl AssertFailed
      else bindE (if newSize \<noteq> ro_instanceSize c
                  then if rw_flags c AND RW_COPIED_RO = 0 then Inl AssertFailed else Inr (c\<lparr>ro_instanceSize := newSize\<rparr>)
                  else Inr c) (\<lambda>c.
             Inr (c\<lparr>cache_flags := setFastInstanceSize (ucast newSize) (cache_flags c)\<rparr>)))"

section \<open>Sizes\<close>

lemma and_not_mask_unat:
  fixes w :: "'a::len word"
  shows "unat (w AND NOT (mask n)) = unat w div 2 ^ n * 2 ^ n"
proof -
  have "(w AND NOT (mask n)) + take_bit n w = (w AND NOT (mask n)) OR take_bit n w"
    by (rule disjunctive_add) (auto simp: bit_and_iff bit_not_iff bit_mask_iff bit_take_bit_iff)
  also have "\<dots> = w" by (rule bit_word_eqI) (auto simp: bit_or_iff bit_and_iff bit_not_iff bit_mask_iff bit_take_bit_iff)
  finally have "w AND NOT (mask n) = w - take_bit n w" by (simp add: eq_diff_eq)
  moreover have "unat (take_bit n w) \<le> unat w" by (simp add: unat_take_bit_mod)
  ultimately have "unat (w AND NOT (mask n)) = unat w - unat w mod 2 ^ n"
    by (simp add: unat_sub word_le_nat_alt unat_take_bit_mod)
  then show ?thesis by (simp add: minus_mod_eq_div_mult)
qed

definition align_up :: "nat \<Rightarrow> nat \<Rightarrow> nat" where
  "align_up k n = (n + (k - 1)) div k * k"

lemma align_up_spec:
  assumes "0 < k"
  shows "n \<le> align_up k n" "align_up k n < n + k" "k dvd align_up k n"
proof -
  have "(n + (k - 1)) div k * k = n + (k - 1) - (n + (k - 1)) mod k" by (simp add: minus_mod_eq_div_mult)
  moreover have "(n + (k - 1)) mod k < k" using assms by simp
  ultimately show "n \<le> align_up k n" "align_up k n < n + k" using assms unfolding align_up_def by linarith+
  show "k dvd align_up k n" unfolding align_up_def by simp
qed
lemma low_masks: "(7::u64) = mask 3" "(15::u64) = mask 4" by (simp_all add: mask_eq_exp_minus_1)

lemma word_align64_unat: "unat x + 7 < 2 ^ 64 \<Longrightarrow> unat (word_align64 x) = align_up 8 (unat x)"
  unfolding word_align64_def align_up_def low_masks(1) and_not_mask_unat by (simp add: unat_word_ariths mask_eq_exp_minus_1)
lemma align16_unat: "unat x + 15 < 2 ^ 64 \<Longrightarrow> unat (align16 x) = align_up 16 (unat x)"
  unfolding align16_def align_up_def low_masks(2) and_not_mask_unat by (simp add: unat_word_ariths mask_eq_exp_minus_1)
lemma alloc_mask: "unat (w AND FAST_CACHE_ALLOC_MASK) = unat w mod 2 ^ 13 div 8 * 8"
proof -
  have "w AND FAST_CACHE_ALLOC_MASK = take_bit 13 w AND NOT (mask 3)"
    by (simp add: FAST_CACHE_ALLOC_MASK_def take_bit_eq_mask mask_eq_exp_minus_1 and.assoc)
  then show ?thesis using and_not_mask_unat [of "take_bit 13 w" 3] by (simp add: unat_take_bit_mod)
qed
lemma alloc_mask16: "unat (w AND FAST_CACHE_ALLOC_MASK16) = unat w mod 2 ^ 13 div 16 * 16"
proof -
  have "w AND FAST_CACHE_ALLOC_MASK16 = take_bit 13 w AND NOT (mask 4)"
    by (simp add: FAST_CACHE_ALLOC_MASK16_def take_bit_eq_mask mask_eq_exp_minus_1 and.assoc)
  then show ?thesis using and_not_mask_unat [of "take_bit 13 w" 4] by (simp add: unat_take_bit_mod)
qed

lemma setFastInstanceSize_keeps:
  "setFastInstanceSize n fl AND NOT FAST_CACHE_ALLOC_MASK = fl AND NOT FAST_CACHE_ALLOC_MASK"
  by (rule bit_word_eqI) (auto simp: setFastInstanceSize_def Let_def bit_or_iff bit_and_iff bit_not_iff)

lemma setFastInstanceSize_size:
  "setFastInstanceSize n fl AND FAST_CACHE_ALLOC_MASK =
     (let sizeBits = ucast (word_align64 n + ucast FAST_CACHE_ALLOC_DELTA16) AND FAST_CACHE_ALLOC_MASK
      in if n \<le> ucast sizeBits then sizeBits else 0)"
  by (rule bit_word_eqI) (auto simp: setFastInstanceSize_def Let_def bit_or_iff bit_and_iff bit_not_iff)

lemma fast_size_small:
  assumes "unat n \<le> 0x1ff0"
  shows "unat (setFastInstanceSize n fl AND FAST_CACHE_ALLOC_MASK) = align_up 8 (unat n) + 8"
proof -
  let ?a = "align_up 8 (unat n)"
  have a: "unat n \<le> ?a" "?a < unat n + 8" "8 dvd ?a" by (simp_all add: align_up_spec)
  then obtain m where m: "?a = 8 * m" by (elim dvdE)
  then have "8 * m < 8184" using a(2) assms by linarith
  then have lt: "m \<le> 0x3fe" by simp
  let ?s = "ucast (word_align64 n + ucast FAST_CACHE_ALLOC_DELTA16) AND FAST_CACHE_ALLOC_MASK"
  have "unat (word_align64 n) = 8 * m" using word_align64_unat [of n] assms m by simp
  then have "unat (word_align64 n + ucast FAST_CACHE_ALLOC_DELTA16 :: u64) = 8 * m + 8"
    using lt by (simp add: unat_word_ariths FAST_CACHE_ALLOC_DELTA16_def)
  then have "unat (ucast (word_align64 n + ucast FAST_CACHE_ALLOC_DELTA16 :: u64) :: u16) = 8 * (m + 1)"
    using lt by (simp add: unsigned_ucast_eq unat_take_bit_mod take_bit_eq_mod)
  then have s: "unat ?s = 8 * m + 8" using lt unfolding alloc_mask by simp
  then have "n \<le> ucast ?s" using a(1) m by (simp add: word_le_nat_alt unat_widen16)
  then show ?thesis using s m unfolding setFastInstanceSize_size by (simp add: Let_def)
qed


lemma fast_size_big:
  assumes "0x1ff0 < unat n" "unat n + 7 < 2 ^ 64"
  shows "setFastInstanceSize n fl AND FAST_CACHE_ALLOC_MASK = 0"
proof -
  let ?s = "ucast (word_align64 n + ucast FAST_CACHE_ALLOC_DELTA16) AND FAST_CACHE_ALLOC_MASK :: u16"
  have "\<not> n \<le> ucast ?s"
  proof (cases "0x1ff8 < unat n")
    case True
    moreover have "unat ?s \<le> 0x1ff8"
      using mod_less_divisor [of "2 ^ 13" "unat (ucast (word_align64 n + ucast FAST_CACHE_ALLOC_DELTA16) :: u16)"]
      unfolding alloc_mask by simp
    ultimately show ?thesis by (simp add: word_le_nat_alt unat_widen16)
  next
    case False
    then have "(unat n + 7) div 8 = 1023" using assms(1) by (intro div_nat_eqI) simp_all
    then have "align_up 8 (unat n) = 0x1ff8" unfolding align_up_def by simp
    then have "word_align64 n = 0x1ff8" using word_align64_unat [OF assms(2)] by (simp add: word_unat_eq_iff)
    then have "?s = 0" by (simp add: FAST_CACHE_ALLOC_DELTA16_def FAST_CACHE_ALLOC_MASK_def)
    then show ?thesis using assms(1) by (simp add: word_le_nat_alt)
  qed
  then show ?thesis unfolding setFastInstanceSize_size by (simp add: Let_def)
qed


text \<open>What an allocation of \<open>extra\<close> bytes more than the \<open>n\<close> bytes of a realized
  class gets.\<close>

definition alloc_size :: "nat \<Rightarrow> nat \<Rightarrow> nat" where
  "alloc_size n extra =
     (if n \<le> 0x1ff0 then align_up 16 (align_up 8 n + extra) else max 16 (align_up 8 n + extra))"

lemma alloc_size_bounds:
  assumes "0 < n"
  shows "n + extra \<le> alloc_size n extra" "alloc_size n extra < n + extra + 23" "16 \<le> alloc_size n extra"
    "8 dvd extra \<Longrightarrow> 8 dvd alloc_size n extra"
proof -
  let ?a = "align_up 8 n" and ?b = "align_up 16 (align_up 8 n + extra)"
  have a: "n \<le> ?a" "?a < n + 8" "8 dvd ?a" by (simp_all add: align_up_spec)
  have b: "?a + extra \<le> ?b" "?b < ?a + extra + 16" "16 dvd ?b" by (simp_all add: align_up_spec)
  have pos: "8 \<le> ?a" "16 \<le> ?b" using a b assms by (auto dest!: dvd_imp_le)
  show "n + extra \<le> alloc_size n extra" "alloc_size n extra < n + extra + 23" "16 \<le> alloc_size n extra"
    using a b pos unfolding alloc_size_def by auto
  show "8 dvd extra \<Longrightarrow> 8 dvd alloc_size n extra"
    using a(3) b(3) dvd_trans [of 8 16 ?b] unfolding alloc_size_def max_def by auto
qed


lemma div_8_16: "(x::nat) div 8 * 8 = 8 * m + 8 \<Longrightarrow> x div 16 * 16 = (8 * m + 15) div 16 * 16"
  using div_mult2_eq [of x 8 2] div_mult2_eq [of "8 * m + 15" 8 2] by simp

lemma fast_size_mask16:
  assumes "unat (fl AND FAST_CACHE_ALLOC_MASK) = 8 * m + 8"
  shows "unat (fl AND FAST_CACHE_ALLOC_MASK16) = align_up 16 (8 * m)"
  using div_8_16 [OF assms [unfolded alloc_mask]] unfolding alloc_mask16 align_up_def by simp

lemma fast_instance_size:
  assumes "unat (fl AND FAST_CACHE_ALLOC_MASK) = 8 * m + 8" "0 < m" "8 * m + unat extra + 23 < 2 ^ 64"
  shows "hasFastInstanceSize known extra fl"
    and "\<exists>s. fastInstanceSize known extra fl = Inr s \<and> unat s = align_up 16 (8 * m + unat extra)"
proof -
  have m16: "unat (fl AND FAST_CACHE_ALLOC_MASK16) = align_up 16 (8 * m)" using assms(1) by (rule fast_size_mask16)
  moreover have "0 < align_up 16 (8 * m)" using assms(2) align_up_spec(1) [of 16 "8 * m"] by linarith
  ultimately have nz: "fl AND FAST_CACHE_ALLOC_MASK16 \<noteq> 0" "fl AND FAST_CACHE_ALLOC_MASK \<noteq> 0"
    using assms(1) by auto
  then show has: "hasFastInstanceSize known extra fl" unfolding hasFastInstanceSize_def by simp
  show "\<exists>s. fastInstanceSize known extra fl = Inr s \<and> unat s = align_up 16 (8 * m + unat extra)"
  proof (cases "known \<and> extra = 0")
    case True
    then show ?thesis using has m16 by (simp add: fastInstanceSize_def unat_widen16)
  next
    case False
    let ?t = "ucast (fl AND FAST_CACHE_ALLOC_MASK) + extra - ucast FAST_CACHE_ALLOC_DELTA16 :: u64"
    have "unat (ucast (fl AND FAST_CACHE_ALLOC_MASK) + extra :: u64) = 8 * m + 8 + unat extra"
      using assms(1,3) by (subst unat_add_nowrap_u64) (simp_all add: unat_widen16)
    then have "unat ?t = 8 * m + unat extra"
      by (subst unat_sub_u64) (simp_all add: FAST_CACHE_ALLOC_DELTA16_def)
    then have "unat (align16 ?t) = align_up 16 (8 * m + unat extra)" using align16_unat [of ?t] assms(3) by simp
    then show ?thesis using has False by (auto simp: fastInstanceSize_def Let_def)
  qed
qed

lemma word_align32_unat:
  assumes "unat n + 7 < 2 ^ 32"
  shows "unat (word_align32 n) = align_up 8 (unat n)"
proof -
  have "unat (word_align64 (ucast n)) = align_up 8 (unat n)"
    using assms word_align64_unat [of "ucast n"] by (simp add: unat_widen32)
  moreover have "align_up 8 (unat n) < 2 ^ 32"
    using assms unfolding align_up_def by (simp add: less_mult_imp_div_less div_times_less_eq_dividend order.strict_trans1)
  ultimately show ?thesis unfolding word_align32_def word_align64_def
    by (simp add: unsigned_ucast_eq take_bit_nat_eq_self_iff)
qed

lemma slow_instance_size:
  assumes "\<not> hasFastInstanceSize known extra (cache_flags c)" "isRealized c"
    "unat (ro_instanceSize c) + 7 < 2 ^ 32" "unat extra < 2 ^ 63"
  shows "\<exists>s. instanceSize known extra c = Inr s \<and>
    unat s = max 16 (align_up 8 (unat (ro_instanceSize c)) + unat extra)"
proof -
  let ?a = "word_align32 (ro_instanceSize c)"
  have a: "unat ?a = align_up 8 (unat (ro_instanceSize c))" using assms(3) by (rule word_align32_unat)
  have "unat ?a < 2 ^ 32" using unsigned_less [of ?a] by simp
  then have s: "unat (ucast ?a + extra) = unat ?a + unat extra"
    using assms(4) by (subst unat_add_nowrap_u64) (simp_all add: unat_widen32)
  show ?thesis
    using assms(1,2) s a by (auto simp: instanceSize_def alignedInstanceSize_def unalignedInstanceSize_def Let_def
        word_less_nat_alt max_def)
qed


text \<open>A class whose size was installed by \<open>setInstanceSize\<close>: the allocator gets the
  same number of bytes whatever the compiler knows of \<open>extra\<close>.\<close>

lemma setInstanceSize_spec:
  assumes "setInstanceSize n c = Inr c'"
  shows "isRealized c'" "ro_instanceSize c' = n" "rw_flags c' = rw_flags c" "bits c' = bits c"
    "cache_flags c' = setFastInstanceSize (ucast n) (cache_flags c)"
  using assms by (auto simp: setInstanceSize_def bindE_eq_Inr isRealized_def isStubClass_def split: if_splits)

lemma instanceSize_installed:
  assumes "setInstanceSize n c = Inr c'" "0 < n" "unat n + 7 < 2 ^ 32" "unat extra < 2 ^ 63"
  shows "\<exists>s. instanceSize known extra c' = Inr s \<and> unat s = alloc_size (unat n) (unat extra)"
proof -
  note c' = setInstanceSize_spec [OF assms(1)]
  have n: "unat (ucast n :: u64) = unat n" by (rule unat_widen32)
  have pos: "0 < unat n" using assms(2) by (simp add: unat_gt_0)
  show ?thesis
  proof (cases "unat n \<le> 0x1ff0")
    case True
    obtain m where m: "align_up 8 (unat n) = 8 * m" using align_up_spec(3) [of 8] by (auto elim!: dvdE)
    have ge: "unat n \<le> 8 * m" "8 * m < unat n + 8" using align_up_spec(1,2) [of 8 "unat n"] m by simp_all
    have sz: "unat (cache_flags c' AND FAST_CACHE_ALLOC_MASK) = 8 * m + 8"
      using fast_size_small [of "ucast n" "cache_flags c"] True n m c'(5) by simp
    have m0: "0 < m" using ge pos by linarith
    have bnd: "8 * m + unat extra + 23 < 2 ^ 64" using ge True assms(4) by simp
    obtain s where "fastInstanceSize known extra (cache_flags c') = Inr s" "unat s = align_up 16 (8 * m + unat extra)"
      using fast_instance_size(2) [OF sz m0 bnd] by blast
    then show ?thesis using fast_instance_size(1) [OF sz m0 bnd] True m by (simp add: instanceSize_def alloc_size_def)
  next
    case False
    have zero: "cache_flags c' AND FAST_CACHE_ALLOC_MASK = 0"
      using fast_size_big [of "ucast n" "cache_flags c"] False n assms(3) c'(5) by simp
    then have "cache_flags c' AND FAST_CACHE_ALLOC_MASK16 = 0"
      using alloc_mask [of "cache_flags c'"] alloc_mask16 [of "cache_flags c'"]
      by (simp add: word_unat_eq_iff div_eq_0_iff)
    then have "\<not> hasFastInstanceSize known extra (cache_flags c')" using zero by (simp add: hasFastInstanceSize_def)
    then show ?thesis using slow_instance_size [of known extra c'] c'(1,2) assms(3,4) False
      by (simp add: alloc_size_def)
  qed
qed

text \<open>A class without storage: the size field is not empty, so that the path for an
  \<open>extra\<close> that the compiler does not know answers no bytes at all.\<close>

lemma instanceSize_empty:
  assumes "setInstanceSize 0 c = Inr c'"
  shows "instanceSize False 0 c' = Inr 0" "instanceSize True 0 c' = Inr 16"
proof -
  note c' = setInstanceSize_spec [OF assms]
  have sz: "unat (cache_flags c' AND FAST_CACHE_ALLOC_MASK) = 8 * 0 + 8"
    using fast_size_small [of 0 "cache_flags c"] c'(5) by (simp add: align_up_def)
  then have eq: "cache_flags c' AND FAST_CACHE_ALLOC_MASK = 8" by (simp add: word_unat_eq_iff)
  have "cache_flags c' AND FAST_CACHE_ALLOC_MASK16 = 0"
    using fast_size_mask16 [OF sz] by (simp add: align_up_def word_unat_eq_iff)
  then show "instanceSize True 0 c' = Inr 16" "instanceSize False 0 c' = Inr 0"
    using c'(1,2) eq by (simp_all add: instanceSize_def hasFastInstanceSize_def fastInstanceSize_def
        alignedInstanceSize_def unalignedInstanceSize_def word_align32_def align16_def FAST_CACHE_ALLOC_DELTA16_def)
qed


section \<open>Changes in one step\<close>

text \<open>Both loops end after at most one round more than there are interferences, and
  their store acts on the value that the word has at that moment: every change
  made by another thread before it is kept.\<close>

definition interfere :: "('a \<Rightarrow> 'a) list \<Rightarrow> 'a \<Rightarrow> 'a" where
  "interfere env w = fold (\<lambda>f. f) env w"

lemma interfere_simps [simp]: "interfere [] w = w" "interfere (f # env) w = interfere env (f w)"
  by (simp_all add: interfere_def)

definition change_bits :: "'a::len word \<Rightarrow> 'a word \<Rightarrow> 'a word \<Rightarrow> 'a word" where
  "change_bits st clear w = (w OR st) AND NOT clear"

text \<open>The loop's store comes right after a part \<open>pre\<close> of what the other threads do:
  the one interference it was sure to race with is in it, each but the last
  of its steps changed the word, and the rest comes after the store.\<close>

lemma changeFlags_loop_linear:
  "\<exists>pre post. env = pre @ post \<and> changeFlags_loop st clear env flags = (post, change_bits st clear (interfere pre flags)) \<and>
    (env \<noteq> [] \<longrightarrow> pre \<noteq> []) \<and>
    (\<forall>i. Suc i < length pre \<longrightarrow> interfere (take (Suc i) pre) flags \<noteq> interfere (take i pre) flags)"
proof (induction env arbitrary: flags)
  case Nil
  then show ?case by (simp add: change_bits_def OSAtomicCompareAndSwap32Barrier_def)
next
  case (Cons f env)
  show ?case
  proof (cases "f flags = flags")
    case True
    then show ?thesis by (intro exI [of _ "[f]"] exI [of _ env]) (simp add: change_bits_def OSAtomicCompareAndSwap32Barrier_def)
  next
    case False
    obtain pre post where p: "env = pre @ post"
      "changeFlags_loop st clear env (f flags) = (post, change_bits st clear (interfere pre (f flags)))"
      "\<forall>i. Suc i < length pre \<longrightarrow> interfere (take (Suc i) pre) (f flags) \<noteq> interfere (take i pre) (f flags)"
      using Cons [of "f flags"] by blast
    have "interfere (take (Suc i) (f # pre)) flags \<noteq> interfere (take i (f # pre)) flags" if "Suc i < length (f # pre)" for i
      using that False p(3) by (cases i) auto
    then show ?thesis using False p(1,2)
      by (intro exI [of _ "f # pre"] exI [of _ post]) (simp add: OSAtomicCompareAndSwap32Barrier_def)
  qed
qed

lemma setAndClearBits_loop_linear:
  "\<exists>pre post. env = pre @ post \<and> setAndClearBits_loop st clear env w =
    (post, change_bits st clear (interfere (map (case_option id id) pre) w)) \<and> (env \<noteq> [] \<longrightarrow> pre \<noteq> [])"
proof (induction env arbitrary: w)
  case Nil
  then show ?case by (simp add: change_bits_def)
next
  case (Cons x env)
  show ?case
  proof (cases "\<exists>f. x = Some f \<and> f w = w")
    case True
    then show ?thesis by (intro exI [of _ "[x]"] exI [of _ env]) (auto simp: change_bits_def)
  next
    case False
    obtain pre post where "env = pre @ post" "setAndClearBits_loop st clear env (case_option id id x w) =
        (post, change_bits st clear (interfere (map (case_option id id) pre) (case_option id id x w)))"
      using Cons [of "case_option id id x w"] by blast
    then show ?thesis using False by (intro exI [of _ "x # pre"] exI [of _ post]) (cases x, auto)
  qed
qed

lemma bit_change_bits:
  "bit (change_bits st clear (w :: 'a::len word)) i \<longleftrightarrow> \<not> bit clear i \<and> (bit st i \<or> bit w i)"
  by (auto simp: change_bits_def bit_and_iff bit_or_iff bit_not_iff dest: bit_imp_le_length)

section \<open>The data pointer and the Swift bits\<close>

lemma and_mask_disjoint: "a AND m = a \<Longrightarrow> ((w AND NOT m) OR a) AND m = (a :: 'a::len word)"
  by (rule bit_word_eqI) (metis bit_and_iff bit_or_iff bit_not_iff)

lemma bits_setData_data:
  assumes "bits_setData p fl w = Inr w'" "p AND FAST_DATA_MASK = p"
  shows "bits_data w' = p" "w' AND NOT FAST_DATA_MASK = w AND NOT FAST_DATA_MASK"
proof -
  have w': "w' = (w AND NOT FAST_DATA_MASK) OR p" using assms(1) by (auto simp: bits_setData_def split: if_splits)
  then show "bits_data w' = p" using and_mask_disjoint [OF assms(2)] by (simp add: bits_data_def)
  show "w' AND NOT FAST_DATA_MASK = w AND NOT FAST_DATA_MASK"
    unfolding w' by (rule bit_word_eqI) (use assms(2) in \<open>auto simp: bit_and_iff bit_or_iff bit_not_iff word_eq_iff_bit\<close>)
qed

lemma swift_bits: "bits_isSwiftStable w \<longleftrightarrow> bit w 1" "bits_isSwiftLegacy w \<longleftrightarrow> bit w 0"
  unfolding bits_isSwiftStable_def bits_isSwiftLegacy_def bits_getBit_def FAST_IS_SWIFT_STABLE_def FAST_IS_SWIFT_LEGACY_def
  by (simp_all only: bit_iff_and_push_bit_not_eq_0)

lemma setAndClearBits_linear:
  assumes "st AND clear = 0"
  obtains pre post w' where "env = pre @ post" "setAndClearBits st clear env w = Inr (post, w')"
    "w' = change_bits st clear (interfere (map (case_option id id) pre) w)" "env \<noteq> [] \<longrightarrow> pre \<noteq> []"
  using setAndClearBits_loop_linear [of env st clear w] assms by (auto simp: setAndClearBits_def)

lemma swift_flags_disjoint:
  "FAST_IS_SWIFT_STABLE AND FAST_IS_SWIFT_LEGACY = 0" "FAST_IS_SWIFT_LEGACY AND FAST_IS_SWIFT_STABLE = 0"
  by (simp_all add: FAST_IS_SWIFT_STABLE_def FAST_IS_SWIFT_LEGACY_def)

lemma bit_swift_flags: "bit FAST_IS_SWIFT_STABLE i \<longleftrightarrow> i = 1" "bit FAST_IS_SWIFT_LEGACY i \<longleftrightarrow> i = 0"
  unfolding FAST_IS_SWIFT_STABLE_def FAST_IS_SWIFT_LEGACY_def bit_push_bit_iff bit_1_iff by auto

lemma setIsSwiftStable_spec:
  "\<exists>pre post w'. env = pre @ post \<and> bits_setIsSwiftStable env w = Inr (post, w') \<and> (env \<noteq> [] \<longrightarrow> pre \<noteq> []) \<and>
    bits_isSwiftStable w' \<and> \<not> bits_isSwiftLegacy w' \<and>
    (\<forall>i \<ge> 2. bit w' i = bit (interfere (map (case_option id id) pre) w) i)"
proof -
  obtain pre post w' where "env = pre @ post" "bits_setIsSwiftStable env w = Inr (post, w')" "env \<noteq> [] \<longrightarrow> pre \<noteq> []"
    "w' = change_bits FAST_IS_SWIFT_STABLE FAST_IS_SWIFT_LEGACY (interfere (map (case_option id id) pre) w)"
    unfolding bits_setIsSwiftStable_def by (rule setAndClearBits_linear [OF swift_flags_disjoint(1)])
  then show ?thesis
    by (intro exI [of _ pre] exI [of _ post] exI [of _ w']) (auto simp: swift_bits bit_change_bits bit_swift_flags)
qed

lemma setIsSwiftLegacy_spec:
  "\<exists>pre post w'. env = pre @ post \<and> bits_setIsSwiftLegacy env w = Inr (post, w') \<and> (env \<noteq> [] \<longrightarrow> pre \<noteq> []) \<and>
    bits_isSwiftLegacy w' \<and> \<not> bits_isSwiftStable w' \<and>
    (\<forall>i \<ge> 2. bit w' i = bit (interfere (map (case_option id id) pre) w) i)"
proof -
  obtain pre post w' where "env = pre @ post" "bits_setIsSwiftLegacy env w = Inr (post, w')" "env \<noteq> [] \<longrightarrow> pre \<noteq> []"
    "w' = change_bits FAST_IS_SWIFT_LEGACY FAST_IS_SWIFT_STABLE (interfere (map (case_option id id) pre) w)"
    unfolding bits_setIsSwiftLegacy_def by (rule setAndClearBits_linear [OF swift_flags_disjoint(2)])
  then show ?thesis
    by (intro exI [of _ pre] exI [of _ post] exI [of _ w']) (auto simp: swift_bits bit_change_bits bit_swift_flags)
qed

lemma fixup_fixes:
  assumes "fixupBackwardDeployingStableSwift env c = Inr (env', c')" "isUnfixedBackwardDeployingStableSwift c"
  shows "bits_isSwiftStable (bits c')" "\<not> isUnfixedBackwardDeployingStableSwift c'"
proof -
  obtain post w' where w': "bits_setIsSwiftStable env (bits c) = Inr (post, w')" "bits_isSwiftStable w'" "\<not> bits_isSwiftLegacy w'"
    using setIsSwiftStable_spec [of env "bits c"] by blast
  then have "c' = c\<lparr>bits := w'\<rparr>" using assms by (simp add: fixupBackwardDeployingStableSwift_def)
  then show "bits_isSwiftStable (bits c')" "\<not> isUnfixedBackwardDeployingStableSwift c'"
    using w'(2,3) by (simp_all add: isUnfixedBackwardDeployingStableSwift_def)
qed

section \<open>The bits of the cache half-word do not overlap\<close>

definition cache_flag_ops :: "cache_bits \<Rightarrow> (objc_class \<Rightarrow> objc_class) list" where
  "cache_flag_ops K = [setHasDefaultAWZ, setHasCustomAWZ, setHasDefaultCore, setHasCustomCore, setHasCxxCtor K,
     setHasCxxDtor K, setInstancesRequireRawIsa]"

definition cache_flag_set :: "cache_bits \<Rightarrow> u16 set" where
  "cache_flag_set K = {FAST_CACHE_HAS_DEFAULT_AWZ, FAST_CACHE_HAS_DEFAULT_CORE, FAST_CACHE_HAS_CXX_CTOR K,
     FAST_CACHE_HAS_CXX_DTOR K, FAST_CACHE_REQUIRES_RAW_ISA}"

lemmas cache_flag_op_defs = setHasDefaultAWZ_def setHasCustomAWZ_def setHasDefaultCore_def setHasCustomCore_def
  setHasCxxCtor_def setHasCxxDtor_def setInstancesRequireRawIsa_def cache_setBit_def cache_clearBit_def

lemmas cache_flag_defs = FAST_CACHE_REQUIRES_RAW_ISA_def FAST_CACHE_HAS_DEFAULT_AWZ_def FAST_CACHE_HAS_DEFAULT_CORE_def
  arm64_cache_bits_def x86_64_cache_bits_def FAST_CACHE_ALLOC_MASK_def FAST_CACHE_ALLOC_MASK16_def

lemma or_other_bits: "st AND m = 0 \<Longrightarrow> (w OR st) AND m = w AND (m :: 'a::len word)"
  by (simp add: bit.conj_disj_distrib2)

lemma and_not_other_bits: "clear AND m = 0 \<Longrightarrow> (w AND NOT clear) AND m = w AND (m :: 'a::len word)"
  by (rule bit_word_eqI) (auto simp: bit_and_iff bit_not_iff word_eq_iff_bit)

lemma cache_flag_op_effect:
  "\<forall>f \<in> set (cache_flag_ops K). \<exists>fl \<in> cache_flag_set K.
     f c = c\<lparr>cache_flags := cache_flags c OR fl\<rparr> \<or> f c = c\<lparr>cache_flags := cache_flags c AND NOT fl\<rparr>"
  unfolding cache_flag_ops_def cache_flag_set_def by (simp add: cache_flag_op_defs)

lemma cache_flag_set_disjoint:
  assumes "K = arm64_cache_bits \<or> K = x86_64_cache_bits" "fl \<in> cache_flag_set K"
  shows "fl AND FAST_CACHE_ALLOC_MASK = 0" "fl AND FAST_CACHE_ALLOC_MASK16 = 0" "fl AND FAST_CACHE_META K = 0"
  using assms unfolding cache_flag_set_def by (elim insertE disjE; simp add: cache_flag_defs)+

lemma same_bits:
  assumes "w' = w OR fl \<or> w' = w AND NOT fl" "fl AND m = 0"
  shows "w' AND m = w AND (m :: 'a::len word)"
  using assms(1) or_other_bits [OF assms(2)] and_not_other_bits [OF assms(2)] by (elim disjE) simp_all

lemma cache_flag_op_keeps:
  assumes "K = arm64_cache_bits \<or> K = x86_64_cache_bits" "f \<in> set (cache_flag_ops K)"
  shows "instanceSize known extra (f c) = instanceSize known extra c" "class_isMetaClass K (f c) = class_isMetaClass K c"
proof -
  obtain fl where fl: "fl \<in> cache_flag_set K"
    "f c = c\<lparr>cache_flags := cache_flags c OR fl\<rparr> \<or> f c = c\<lparr>cache_flags := cache_flags c AND NOT fl\<rparr>"
    using cache_flag_op_effect [of K c] assms(2) by blast
  obtain w where f: "f c = c\<lparr>cache_flags := w\<rparr>" "w = cache_flags c OR fl \<or> w = cache_flags c AND NOT fl"
    using fl(2) by blast
  note same_bits [OF f(2)]
  note m = this [OF cache_flag_set_disjoint(1) [OF assms(1) fl(1)]] this [OF cache_flag_set_disjoint(2) [OF assms(1) fl(1)]]
    this [OF cache_flag_set_disjoint(3) [OF assms(1) fl(1)]]
  have r: "isRealized (f c) = isRealized c" unfolding f by (simp add: isRealized_def isStubClass_def)
  show "instanceSize known extra (f c) = instanceSize known extra c"
    "class_isMetaClass K (f c) = class_isMetaClass K c"
    using m r by (simp_all add: f(1) instanceSize_def hasFastInstanceSize_def fastInstanceSize_def alignedInstanceSize_def
        unalignedInstanceSize_def class_isMetaClass_def cache_getBit_def)
qed

section \<open>A concrete class\<close>

definition sample_class :: objc_class where
  "sample_class = \<lparr>isaBits = 4096, superclass = 0, cache_flags = 0, bits = 8192,
     rw_flags = RW_REALIZED OR RW_REALIZING OR RW_COPIED_RO, ro_flags = 0, ro_instanceStart = 8, ro_instanceSize = 8,
     swiftClassFlags = 0\<rparr>"

lemma sample_class_sized: "\<exists>c'. setInstanceSize n sample_class = Inr c'"
  by (simp add: setInstanceSize_def sample_class_def isRealized_def isStubClass_def RW_REALIZED_def RW_REALIZING_def RW_COPIED_RO_def)

end
