(* ===== verification/EntsizeList.thy ===== *)
theory EntsizeList
  imports Memory
begin

text \<open>
  Arrays of non-fragile structs in memory (\<^verbatim>\<open>objc-runtime-new.h\<close>: \<open>RelativePointer\<close>,
  \<open>entsize_list_tt\<close> and its iterator).  A list is an address: two 32-bit words,
  the element size with flags in it and the count, and then the elements.  The
  lemmas say at which addresses iteration finds the elements, and that it ends.
\<close>

section \<open>Relative pointers\<close>

definition RelativePointer_get :: "memory \<Rightarrow> u64 \<Rightarrow> u64" where
  "RelativePointer_get mem a =
     (let offset = read_u32 mem a in
      if offset = 0 then nil
      else let base = a; signExtendedOffset = scast offset; pointer = base + signExtendedOffset in pointer)"

section \<open>Lists\<close>

text \<open>The parameters of the template: the mask of the flags in the size word, and
  the pointer modifier, which looks at the list's flags.\<close>

record list_kind =
  FlagMask :: u32
  modify :: "u32 \<Rightarrow> u64 \<Rightarrow> u64"

definition PointerModifierNop_modify :: "u32 \<Rightarrow> u64 \<Rightarrow> u64" where
  "PointerModifierNop_modify flags ptr = ptr"

definition entsizeAndFlags :: "memory \<Rightarrow> u64 \<Rightarrow> u32" where
  "entsizeAndFlags mem list = read_u32 mem list"

definition list_count :: "memory \<Rightarrow> u64 \<Rightarrow> u32" where
  "list_count mem list = read_u32 mem (list + 4)"

definition entsize :: "list_kind \<Rightarrow> memory \<Rightarrow> u64 \<Rightarrow> u32" where
  "entsize K mem list = entsizeAndFlags mem list AND NOT (FlagMask K)"

definition list_flags :: "list_kind \<Rightarrow> memory \<Rightarrow> u64 \<Rightarrow> u32" where
  "list_flags K mem list = entsizeAndFlags mem list AND FlagMask K"

definition getOrEnd :: "list_kind \<Rightarrow> memory \<Rightarrow> u64 \<Rightarrow> u32 \<Rightarrow> fault + u64" where
  "getOrEnd K mem list i =
     (if \<not> i \<le> list_count mem list then Inl AssertFailed
      else Inr (modify K (list_flags K mem list) (list + 8 + ucast (i * entsize K mem list))))"

definition list_get :: "list_kind \<Rightarrow> memory \<Rightarrow> u64 \<Rightarrow> u32 \<Rightarrow> fault + u64" where
  "list_get K mem list i =
     (if \<not> i < list_count mem list then Inl AssertFailed else getOrEnd K mem list i)"

definition byteSize_for :: "u32 \<Rightarrow> u32 \<Rightarrow> u64" where
  "byteSize_for entsz count = 8 + ucast (count * entsz)"

definition byteSize :: "list_kind \<Rightarrow> memory \<Rightarrow> u64 \<Rightarrow> u64" where
  "byteSize K mem list = byteSize_for (entsize K mem list) (list_count mem list)"

section \<open>Iterators\<close>

record list_iterator =
  it_entsize :: u32
  it_index :: u32
  it_element :: u64

definition list_iterator_at :: "list_kind \<Rightarrow> memory \<Rightarrow> u64 \<Rightarrow> u32 \<Rightarrow> fault + list_iterator" where
  "list_iterator_at K mem list start =
     bindE (getOrEnd K mem list start) (\<lambda>e.
       Inr \<lparr>it_entsize = entsize K mem list, it_index = start, it_element = e\<rparr>)"

definition list_begin :: "list_kind \<Rightarrow> memory \<Rightarrow> u64 \<Rightarrow> fault + list_iterator" where
  "list_begin K mem list = list_iterator_at K mem list 0"

definition list_end :: "list_kind \<Rightarrow> memory \<Rightarrow> u64 \<Rightarrow> fault + list_iterator" where
  "list_end K mem list = list_iterator_at K mem list (list_count mem list)"

text \<open>\<open>delta\<close> is a \<open>ptrdiff_t\<close>, here in two's complement.\<close>

definition iter_add_assign :: "u64 \<Rightarrow> list_iterator \<Rightarrow> list_iterator" where
  "iter_add_assign delta it =
     it\<lparr>it_element := it_element it + delta * ucast (it_entsize it), it_index := it_index it + ucast delta\<rparr>"

definition iter_sub_assign :: "u64 \<Rightarrow> list_iterator \<Rightarrow> list_iterator" where
  "iter_sub_assign delta it =
     it\<lparr>it_element := it_element it - delta * ucast (it_entsize it), it_index := it_index it - ucast delta\<rparr>"

definition iter_plus :: "list_iterator \<Rightarrow> u64 \<Rightarrow> list_iterator" where
  "iter_plus it delta = iter_add_assign delta it"

definition iter_minus :: "list_iterator \<Rightarrow> u64 \<Rightarrow> list_iterator" where
  "iter_minus it delta = iter_sub_assign delta it"

definition iter_inc :: "list_iterator \<Rightarrow> list_iterator" where
  "iter_inc it = iter_add_assign 1 it"

definition iter_dec :: "list_iterator \<Rightarrow> list_iterator" where
  "iter_dec it = iter_sub_assign 1 it"

text \<open>The postfix operators give the iterator before the step and the one after.\<close>

definition iter_post_inc :: "list_iterator \<Rightarrow> list_iterator \<times> list_iterator" where
  "iter_post_inc it = (let result = it in (result, iter_add_assign 1 it))"

definition iter_post_dec :: "list_iterator \<Rightarrow> list_iterator \<times> list_iterator" where
  "iter_post_dec it = (let result = it in (result, iter_sub_assign 1 it))"

definition iter_diff :: "list_iterator \<Rightarrow> list_iterator \<Rightarrow> u64" where
  "iter_diff it rhs = ucast (it_index it) - ucast (it_index rhs)"

definition iter_deref :: "list_iterator \<Rightarrow> u64" where
  "iter_deref it = it_element it"

definition iter_eq :: "list_iterator \<Rightarrow> list_iterator \<Rightarrow> bool" where
  "iter_eq it rhs \<longleftrightarrow> it_element it = it_element rhs"

definition iter_neq :: "list_iterator \<Rightarrow> list_iterator \<Rightarrow> bool" where
  "iter_neq it rhs \<longleftrightarrow> it_element it \<noteq> it_element rhs"

definition iter_less :: "list_iterator \<Rightarrow> list_iterator \<Rightarrow> bool" where
  "iter_less it rhs \<longleftrightarrow> it_element it < it_element rhs"

definition iter_greater :: "list_iterator \<Rightarrow> list_iterator \<Rightarrow> bool" where
  "iter_greater it rhs \<longleftrightarrow> it_element it > it_element rhs"

text \<open>What a loop from \<open>begin()\<close> to \<open>end()\<close> visits; \<open>None\<close> if it does not end.\<close>

partial_function (option) iter_loop :: "list_iterator \<Rightarrow> list_iterator \<Rightarrow> u64 list option" where
  "iter_loop it e =
     (if iter_neq it e then Option.bind (iter_loop (iter_inc it) e) (\<lambda>rest. Some (iter_deref it # rest)) else Some [])"

definition list_elements :: "list_kind \<Rightarrow> memory \<Rightarrow> u64 \<Rightarrow> fault + u64 list option" where
  "list_elements K mem list =
     bindE (list_begin K mem list) (\<lambda>it. bindE (list_end K mem list) (\<lambda>e. Inr (iter_loop it e)))"

section \<open>Where the elements are\<close>

text \<open>A list that its header describes: aligned, with elements of some size, all of
  it inside the address space, and not larger than the 32-bit product of count
  and size can say.\<close>

definition list_ok :: "list_kind \<Rightarrow> memory \<Rightarrow> u64 \<Rightarrow> bool" where
  "list_ok K mem list \<longleftrightarrow> 4 dvd unat list \<and> 0 < entsize K mem list \<and> 4 dvd unat (entsize K mem list) \<and>
     unat (list_count mem list) * unat (entsize K mem list) < 2 ^ 32 \<and>
     unat list + 8 + unat (list_count mem list) * unat (entsize K mem list) < 2 ^ 64"

definition element_at :: "list_kind \<Rightarrow> memory \<Rightarrow> u64 \<Rightarrow> nat \<Rightarrow> u64" where
  "element_at K mem list i =
     modify K (list_flags K mem list) (list + 8 + of_nat (i * unat (entsize K mem list)))"

definition iter_at :: "list_kind \<Rightarrow> memory \<Rightarrow> u64 \<Rightarrow> nat \<Rightarrow> list_iterator" where
  "iter_at K mem list i = \<lparr>it_entsize = entsize K mem list, it_index = of_nat i, it_element = element_at K mem list i\<rparr>"

text \<open>What a pointer modifier may do: add to an aligned pointer a tag in the low bit
  that depends on the list only.\<close>

locale entsize_lists =
  fixes K :: list_kind and low :: "u32 \<Rightarrow> u64"
  assumes modify_low: "4 dvd unat p \<Longrightarrow> modify K fl p = p + low fl"
    and low_le: "unat (low fl) \<le> 1"
begin

lemma place:
  assumes "list_ok K mem list" "i \<le> unat (list_count mem list)"
  shows "unat (list + 8 + of_nat (i * unat (entsize K mem list))) = unat list + 8 + i * unat (entsize K mem list)"
    and "4 dvd unat list + 8 + i * unat (entsize K mem list)"
    and "unat list + 8 + i * unat (entsize K mem list) + 4 \<le> 2 ^ 64"
    and "i * unat (entsize K mem list) < 2 ^ 32"
proof -
  let ?e = "unat (entsize K mem list)"
  have "i * ?e \<le> unat (list_count mem list) * ?e" using assms(2) by simp
  then have le: "unat list + 8 + i * ?e < 2 ^ 64" "i * ?e < 2 ^ 32"
    using assms(1) unfolding list_ok_def by linarith+
  then show "i * ?e < 2 ^ 32" by blast
  show d: "4 dvd unat list + 8 + i * ?e" using assms(1) unfolding list_ok_def by auto
  have "unat (of_nat (i * ?e) :: u64) = i * ?e" using le(2) by (intro unat_of_nat_u64) simp
  moreover have "unat (list + 8) = unat list + 8" using le(1) by (subst unat_add_nowrap_u64) simp_all
  ultimately show "unat (list + 8 + of_nat (i * ?e)) = unat list + 8 + i * ?e"
    using le(1) by (subst unat_add_nowrap_u64) simp_all
  obtain q where q: "unat list + 8 + i * ?e = 4 * q" using d by (elim dvdE)
  then have "q < 2 ^ 62" using le(1) by simp
  then show "unat list + 8 + i * ?e + 4 \<le> 2 ^ 64" unfolding q by simp
qed

lemma unat_element_at:
  assumes "list_ok K mem list" "i \<le> unat (list_count mem list)"
  shows "unat (element_at K mem list i) =
    unat list + 8 + i * unat (entsize K mem list) + unat (low (list_flags K mem list))"
proof -
  note p = place [OF assms]
  have "element_at K mem list i = list + 8 + of_nat (i * unat (entsize K mem list)) + low (list_flags K mem list)"
    unfolding element_at_def using p(1,2) by (intro modify_low) (simp only:)
  then show ?thesis using p(1,3) low_le [of "list_flags K mem list"] by (simp only: unat_add_nowrap_u64)
qed

lemma element_at_step:
  assumes "list_ok K mem list" "i + k \<le> unat (list_count mem list)"
  shows "element_at K mem list (i + k) = element_at K mem list i + of_nat (k * unat (entsize K mem list))"
proof -
  have "unat (of_nat (k * unat (entsize K mem list)) :: u64) = k * unat (entsize K mem list)"
    using place(4) [OF assms(1), of k] assms(2) by (intro unat_of_nat_u64) simp
  moreover have "unat (element_at K mem list i) + k * unat (entsize K mem list) < 2 ^ 64"
    using unat_element_at [OF assms(1), of i] place(3) [OF assms] low_le [of "list_flags K mem list"] assms(2)
    by (simp add: algebra_simps)
  ultimately show ?thesis
    using unat_element_at [OF assms(1), of i] unat_element_at [OF assms] assms(2)
    by (simp add: word_unat_eq_iff unat_add_nowrap_u64 algebra_simps)
qed

lemma element_at_less:
  assumes "list_ok K mem list" "i \<le> unat (list_count mem list)" "j \<le> unat (list_count mem list)"
  shows "element_at K mem list i < element_at K mem list j \<longleftrightarrow> i < j"
    and "element_at K mem list i = element_at K mem list j \<longleftrightarrow> i = j"
proof -
  have "0 < unat (entsize K mem list)" using assms(1) by (auto simp: list_ok_def unat_gt_0)
  then show "element_at K mem list i < element_at K mem list j \<longleftrightarrow> i < j"
    "element_at K mem list i = element_at K mem list j \<longleftrightarrow> i = j"
    using unat_element_at [OF assms(1)] assms(2,3) by (auto simp: word_less_nat_alt word_unat_eq_iff)
qed

lemma getOrEnd_at:
  assumes "list_ok K mem list" "i \<le> unat (list_count mem list)"
  shows "getOrEnd K mem list (of_nat i) = Inr (element_at K mem list i)"
proof -
  have "unat (list_count mem list) < 2 ^ LENGTH(32)" by (rule unsigned_less)
  then have i: "unat (of_nat i :: u32) = i" using assms(2) by (intro unat_of_nat_u32) simp
  then have le: "of_nat i \<le> list_count mem list" using assms(2) by (simp add: word_le_nat_alt)
  have "unat (of_nat i * entsize K mem list) = i * unat (entsize K mem list)"
    using place(4) [OF assms] i by (simp add: unat_word_ariths)
  then have "(ucast (of_nat i * entsize K mem list) :: u64) = of_nat (i * unat (entsize K mem list))"
    using place(4) [OF assms] by (subst word_unat_eq_iff) (simp add: unat_widen32 unat_of_nat_u64 del: of_nat_mult)
  then show ?thesis using le by (simp add: getOrEnd_def element_at_def)
qed

lemma iter_steps:
  assumes "list_ok K mem list" "i + k \<le> unat (list_count mem list)"
  shows "iter_plus (iter_at K mem list i) (of_nat k) = iter_at K mem list (i + k)"
    and "iter_minus (iter_at K mem list (i + k)) (of_nat k) = iter_at K mem list i"
proof -
  have d: "of_nat k * ucast (entsize K mem list) = (of_nat (k * unat (entsize K mem list)) :: u64)"
    by (simp add: word_unat_eq_iff unat_widen32 unat_word_ariths unat_of_nat)
  have x: "(ucast (of_nat k :: u64) :: u32) = of_nat k"
    by (rule bit_word_eqI) (simp add: bit_ucast_iff bit_of_nat_iff)
  show "iter_plus (iter_at K mem list i) (of_nat k) = iter_at K mem list (i + k)"
    unfolding iter_plus_def iter_add_assign_def iter_at_def list_iterator.simps x d element_at_step [OF assms] by simp
  show "iter_minus (iter_at K mem list (i + k)) (of_nat k) = iter_at K mem list i"
    unfolding iter_minus_def iter_sub_assign_def iter_at_def list_iterator.simps x d element_at_step [OF assms] by simp
qed

lemma iter_inc_at:
  assumes "list_ok K mem list" "i < unat (list_count mem list)"
  shows "iter_inc (iter_at K mem list i) = iter_at K mem list (Suc i)"
  using iter_steps(1) [OF assms(1), of i 1] assms(2) by (simp add: iter_plus_def iter_inc_def)

lemma iter_dec_at:
  assumes "list_ok K mem list" "Suc i \<le> unat (list_count mem list)"
  shows "iter_dec (iter_at K mem list (Suc i)) = iter_at K mem list i"
  using iter_steps(2) [OF assms(1), of i 1] assms(2) by (simp add: iter_minus_def iter_dec_def)

lemma iter_loop_at:
  assumes "list_ok K mem list" "i \<le> n" "n \<le> unat (list_count mem list)"
  shows "iter_loop (iter_at K mem list i) (iter_at K mem list n) = Some (map (element_at K mem list) [i..<n])"
  using assms(2)
proof (induction "n - i" arbitrary: i)
  case 0
  then show ?case by (subst iter_loop.simps) (simp add: iter_neq_def)
next
  case (Suc d)
  then have i: "i < n" by simp
  then have "iter_neq (iter_at K mem list i) (iter_at K mem list n)"
    using element_at_less(2) [OF assms(1), of i n] assms(3) by (simp add: iter_neq_def iter_at_def)
  moreover have "iter_loop (iter_at K mem list (Suc i)) (iter_at K mem list n) = Some (map (element_at K mem list) [Suc i..<n])"
    using Suc i by (intro Suc.hyps(1)) auto
  ultimately show ?case
    using iter_inc_at [OF assms(1), of i] i assms(3) upt_conv_Cons [OF i]
    by (subst iter_loop.simps) (simp add: iter_deref_def, simp add: iter_at_def)
qed

lemma list_begin_end:
  assumes "list_ok K mem list"
  shows "list_begin K mem list = Inr (iter_at K mem list 0)"
    "list_end K mem list = Inr (iter_at K mem list (unat (list_count mem list)))"
  using getOrEnd_at [OF assms, of 0] getOrEnd_at [OF assms, of "unat (list_count mem list)"]
  by (simp_all add: list_begin_def list_end_def list_iterator_at_def iter_at_def)

lemma list_elements_eq:
  assumes "list_ok K mem list"
  shows "list_elements K mem list = Inr (Some (map (element_at K mem list) [0..<unat (list_count mem list)]))"
  using list_begin_end [OF assms] iter_loop_at [OF assms, of 0] by (simp add: list_elements_def)

lemma list_get_at:
  assumes "list_ok K mem list" "i < unat (list_count mem list)"
  shows "list_get K mem list (of_nat i) = Inr (element_at K mem list i)"
proof -
  have "unat (list_count mem list) < 2 ^ LENGTH(32)" by (rule unsigned_less)
  then have "unat (of_nat i :: u32) = i" using assms(2) by (intro unat_of_nat_u32) simp
  then show ?thesis using getOrEnd_at [OF assms(1), of i] assms(2) by (simp add: list_get_def word_less_nat_alt)
qed

end

end
