(* ===== verification/MethodList.thy ===== *)
theory MethodList
  imports EntsizeList DenseMap_Refine
begin

text \<open>
  Methods and method lists (\<^verbatim>\<open>objc-runtime-new.h\<close>: \<open>method_t\<close>, \<open>method_list_t\<close>,
  \<open>ivar_t\<close>, \<open>ivar_list_t\<close>; \<^verbatim>\<open>objc-runtime-new.mm\<close>: the remapped implementations of
  small methods and the fixed-up marks).  A method is a pointer whose low bit
  tells a small method, three relative offsets, from a big one, three pointers.
  Small methods are read-only: a new implementation goes into a \<open>DenseMap\<close>.
\<close>

section \<open>Methods\<close>

text \<open>Where the shared cache lies is told by dyld, and the signing of function
  pointers is done by the processor.\<close>

record method_env =
  CONFIG_SHARED_CACHE_RELATIVE_DIRECT_SELECTORS :: bool
  inSharedCache :: "u64 \<Rightarrow> bool"
  sign_function :: "u64 \<Rightarrow> u64"

record method_state =
  mem :: memory
  smallMethodIMPMap :: "(u64, u64) dense_map lazy_init"

definition smallMethodListFlag :: u32 where
  "smallMethodListFlag = 0x80000000"

definition bigSize :: u32 where "bigSize = 24"
definition smallSize :: u32 where "smallSize = 12"

definition method_isSmall :: "u64 \<Rightarrow> bool" where
  "method_isSmall m \<longleftrightarrow> m AND 1 = 1"

definition small_inSharedCache :: "method_env \<Rightarrow> u64 \<Rightarrow> bool" where
  "small_inSharedCache E s \<longleftrightarrow> CONFIG_SHARED_CACHE_RELATIVE_DIRECT_SELECTORS E \<and> inSharedCache E s"

definition method_small :: "u64 \<Rightarrow> fault + u64" where
  "method_small m = (if \<not> method_isSmall m then Inl AssertFailed else Inr (m AND NOT 1))"

definition method_big :: "u64 \<Rightarrow> fault + u64" where
  "method_big m = (if method_isSmall m then Inl AssertFailed else Inr m)"

definition pointer_modifier_modify :: "u32 \<Rightarrow> u64 \<Rightarrow> u64" where
  "pointer_modifier_modify flags ptr = (if flags AND smallMethodListFlag \<noteq> 0 then ptr OR 1 else ptr)"

text \<open>The fields: \<open>name\<close>, \<open>types\<close> and \<open>imp\<close> are 8 bytes each in a big method and 4
  bytes each in a small one.\<close>

definition method_name :: "method_env \<Rightarrow> u64 \<Rightarrow> method_state \<Rightarrow> fault + u64" where
  "method_name E m st =
     (if method_isSmall m then bindE (method_small m) (\<lambda>s.
        Inr (if small_inSharedCache E s then RelativePointer_get (mem st) s
             else read_u64 (mem st) (RelativePointer_get (mem st) s)))
      else bindE (method_big m) (\<lambda>b. Inr (read_u64 (mem st) b)))"

definition method_types :: "u64 \<Rightarrow> method_state \<Rightarrow> fault + u64" where
  "method_types m st =
     (if method_isSmall m then bindE (method_small m) (\<lambda>s. Inr (RelativePointer_get (mem st) (s + 4)))
      else bindE (method_big m) (\<lambda>b. Inr (read_u64 (mem st) (b + 8))))"

text \<open>The map of replaced implementations; a new one is empty.  What fresh buckets
  hold is never read, and is zero here.\<close>

definition imp_map_params :: "(u64, u64) dm_params" where
  "imp_map_params = map_params ptr_info 0 (0, 0) True"

definition empty_imp_map :: "(u64, u64) dense_map" where
  "empty_imp_map = \<lparr>Buckets = [], NumEntries = 0, NumTombstones = 0, NumBuckets = 0\<rparr>"

definition method_t_remappedImp_nolock :: "u64 \<Rightarrow> method_state \<Rightarrow> fault + u64" where
  "method_t_remappedImp_nolock m st =
     (case snd (LazyInit_get False empty_imp_map (smallMethodIMPMap st)) of
        None \<Rightarrow> Inr nil
      | Some imps \<Rightarrow> bindE (dm_find imp_map_params m imps) (\<lambda>iter.
          Inr (if iter = dm_end imps then nil else snd (Buckets imps ! iter))))"

definition remappedImp :: "u64 \<Rightarrow> method_state \<Rightarrow> fault + u64" where
  "remappedImp m st = (if \<not> method_isSmall m then Inl AssertFailed else method_t_remappedImp_nolock m st)"

definition remapImp :: "u64 \<Rightarrow> u64 \<Rightarrow> method_state \<Rightarrow> fault + method_state" where
  "remapImp m imp st =
     (if \<not> method_isSmall m then Inl AssertFailed
      else case LazyInit_get True empty_imp_map (smallMethodIMPMap st) of
        (l, None) \<Rightarrow> Inl NullDereference
      | (l, Some imps) \<Rightarrow> bindE (FindAndConstruct imp_map_params m imps) (\<lambda>(imps', i).
          Inr (st\<lparr>smallMethodIMPMap := l\<lparr>li_storage := set_second i imp imps'\<rparr>\<rparr>)))"

definition method_imp :: "method_env \<Rightarrow> u64 \<Rightarrow> method_state \<Rightarrow> fault + u64" where
  "method_imp E m st =
     (if method_isSmall m then bindE (remappedImp m st) (\<lambda>imp.
        if imp = nil then bindE (method_small m) (\<lambda>s. Inr (sign_function E (RelativePointer_get (mem st) (s + 8))))
        else Inr imp)
      else bindE (method_big m) (\<lambda>b. Inr (read_u64 (mem st) (b + 16))))"

definition getSmallNameAsSEL :: "method_env \<Rightarrow> u64 \<Rightarrow> method_state \<Rightarrow> fault + u64" where
  "getSmallNameAsSEL E m st = bindE (method_small m) (\<lambda>s.
     if \<not> small_inSharedCache E s then Inl AssertFailed else Inr (RelativePointer_get (mem st) s))"

definition getSmallNameAsSELRef :: "method_env \<Rightarrow> u64 \<Rightarrow> method_state \<Rightarrow> fault + u64" where
  "getSmallNameAsSELRef E m st = bindE (method_small m) (\<lambda>s.
     if small_inSharedCache E s then Inl AssertFailed else Inr (read_u64 (mem st) (RelativePointer_get (mem st) s)))"

definition setName :: "method_env \<Rightarrow> u64 \<Rightarrow> u64 \<Rightarrow> method_state \<Rightarrow> fault + method_state" where
  "setName E m name st =
     (if method_isSmall m then bindE (method_small m) (\<lambda>s.
        if small_inSharedCache E s then Inl AssertFailed
        else Inr (st\<lparr>mem := write_u64 (RelativePointer_get (mem st) s) name (mem st)\<rparr>))
      else bindE (method_big m) (\<lambda>b. Inr (st\<lparr>mem := write_u64 b name (mem st)\<rparr>)))"

definition setImp :: "u64 \<Rightarrow> u64 \<Rightarrow> method_state \<Rightarrow> fault + method_state" where
  "setImp m imp st =
     (if method_isSmall m then remapImp m imp st
      else bindE (method_big m) (\<lambda>b. Inr (st\<lparr>mem := write_u64 (b + 16) imp (mem st)\<rparr>)))"

text \<open>\<open>operator=\<close>: the target must be big.\<close>

definition method_assign :: "method_env \<Rightarrow> u64 \<Rightarrow> u64 \<Rightarrow> method_state \<Rightarrow> fault + method_state" where
  "method_assign E this other st =
     (if method_isSmall this then Inl AssertFailed
      else bindE (method_name E other st) (\<lambda>name.
        let st = st\<lparr>mem := write_u64 this name (mem st)\<rparr> in
        bindE (method_types other st) (\<lambda>types.
        let st = st\<lparr>mem := write_u64 (this + 8) types (mem st)\<rparr> in
        bindE (method_imp E other st) (\<lambda>imp.
        Inr (st\<lparr>mem := write_u64 (this + 16) imp (mem st)\<rparr>)))))"

section \<open>Method lists\<close>

definition method_lists :: list_kind where
  "method_lists = \<lparr>FlagMask = 0xffff0003, modify = pointer_modifier_modify\<rparr>"

definition fixed_up_method_list :: u32 where "fixed_up_method_list = 3"
definition uniqued_method_list :: u32 where "uniqued_method_list = 1"

definition isUniqued :: "u64 \<Rightarrow> method_state \<Rightarrow> bool" where
  "isUniqued mlist st \<longleftrightarrow> list_flags method_lists (mem st) mlist AND uniqued_method_list \<noteq> 0"

definition isFixedUp :: "u64 \<Rightarrow> method_state \<Rightarrow> bool" where
  "isFixedUp mlist st \<longleftrightarrow> list_flags method_lists (mem st) mlist AND 3 = fixed_up_method_list"

definition setFixedUp :: "u64 \<Rightarrow> method_state \<Rightarrow> fault + method_state" where
  "setFixedUp mlist st =
     (if isFixedUp mlist st then Inl AssertFailed
      else Inr (st\<lparr>mem := write_u32 mlist (entsize method_lists (mem st) mlist OR fixed_up_method_list) (mem st)\<rparr>))"

definition indexOfMethod :: "u64 \<Rightarrow> u64 \<Rightarrow> method_state \<Rightarrow> fault + u32" where
  "indexOfMethod mlist meth st =
     (let i = ucast ((meth - mlist) div ucast (entsize method_lists (mem st) mlist))
      in if \<not> i < list_count (mem st) mlist then Inl AssertFailed else Inr i)"

definition isSmallList :: "u64 \<Rightarrow> method_state \<Rightarrow> bool" where
  "isSmallList mlist st \<longleftrightarrow> list_flags method_lists (mem st) mlist AND smallMethodListFlag \<noteq> 0"

definition isExpectedSize :: "u64 \<Rightarrow> method_state \<Rightarrow> bool" where
  "isExpectedSize mlist st =
     (if isSmallList mlist st then entsize method_lists (mem st) mlist = smallSize
      else entsize method_lists (mem st) mlist = bigSize)"

text \<open>\<open>std::copy\<close> over the iterators; \<open>None\<close> if it does not end.\<close>

partial_function (option) copy_loop ::
  "method_env \<Rightarrow> list_iterator \<Rightarrow> list_iterator \<Rightarrow> list_iterator \<Rightarrow> method_state \<Rightarrow> (fault + method_state) option" where
  "copy_loop E it e out st =
     (if iter_neq it e then
        case method_assign E (iter_deref out) (iter_deref it) st of
          Inl f \<Rightarrow> Some (Inl f)
        | Inr st' \<Rightarrow> copy_loop E (iter_inc it) e (iter_inc out) st'
      else Some (Inr st))"

text \<open>\<open>dup\<close> is what \<open>calloc\<close> returns.\<close>

definition method_list_duplicate :: "method_env \<Rightarrow> u64 \<Rightarrow> u64 \<Rightarrow> method_state \<Rightarrow> fault + method_state option" where
  "method_list_duplicate E mlist dup st =
     (let count = list_count (mem st) mlist;
          st1 = (if isSmallList mlist st
                 then st\<lparr>mem := write_u32 dup bigSize (zero_bytes dup (byteSize_for bigSize count) (mem st))\<rparr>
                 else st\<lparr>mem := write_u32 dup (entsizeAndFlags (mem st) mlist)
                                (zero_bytes dup (byteSize method_lists (mem st) mlist) (mem st))\<rparr>);
          st2 = st1\<lparr>mem := write_u32 (dup + 4) count (mem st1)\<rparr>
      in bindE (list_begin method_lists (mem st2) mlist) (\<lambda>it.
         bindE (list_end method_lists (mem st2) mlist) (\<lambda>e.
         bindE (list_begin method_lists (mem st2) dup) (\<lambda>out.
         case copy_loop E it e out st2 of
           None \<Rightarrow> Inr None | Some (Inl f) \<Rightarrow> Inl f | Some (Inr st') \<Rightarrow> Inr (Some st')))))"

section \<open>Instance variables\<close>

definition ivar_lists :: list_kind where
  "ivar_lists = \<lparr>FlagMask = 0, modify = PointerModifierNop_modify\<rparr>"

definition property_lists :: list_kind where
  "property_lists = \<lparr>FlagMask = 0, modify = PointerModifierNop_modify\<rparr>"

definition ivar_alignment :: "u32 \<Rightarrow> u32" where
  "ivar_alignment alignment_raw = (if alignment_raw = - 1 then push_bit 3 1 else push_bit (unat alignment_raw) 1)"

definition containsIvar :: "memory \<Rightarrow> u64 \<Rightarrow> u64 \<Rightarrow> fault + bool" where
  "containsIvar m list ivar =
     bindE (list_begin ivar_lists m list) (\<lambda>b. bindE (list_end ivar_lists m list) (\<lambda>e.
       Inr (ivar \<ge> iter_deref b \<and> ivar < iter_deref e)))"

section \<open>The layouts\<close>

lemma even_word: "even (unat (p :: u64)) \<Longrightarrow> \<not> bit p 0"
proof -
  assume "even (unat p)"
  then have "\<not> bit (unat p) 0" by (simp add: bit_0)
  then show "\<not> bit p 0" by (simp only: bit_unsigned_iff) simp
qed

lemma or_one_even: "even (unat p) \<Longrightarrow> (p :: u64) OR 1 = p + 1"
  using or_push_bit_1 [of p 0] even_word [of p] by simp

interpretation methods: entsize_lists method_lists "\<lambda>fl. if fl AND smallMethodListFlag \<noteq> 0 then 1 else 0"
proof
  fix p :: u64 and fl assume "4 dvd unat p"
  then have "even (unat p)" by (rule dvd_trans [rotated]) simp
  then show "modify method_lists fl p = p + (if fl AND smallMethodListFlag \<noteq> 0 then 1 else 0)"
    by (simp add: method_lists_def pointer_modifier_modify_def or_one_even)
qed simp

interpretation ivars: entsize_lists ivar_lists "\<lambda>_. 0"
  by unfold_locales (simp_all add: ivar_lists_def PointerModifierNop_modify_def)

interpretation properties: entsize_lists property_lists "\<lambda>_. 0"
  by unfold_locales (simp_all add: property_lists_def PointerModifierNop_modify_def)

lemma unat_method:
  assumes "list_ok method_lists (mem st) mlist" "i \<le> unat (list_count (mem st) mlist)"
  shows "unat (element_at method_lists (mem st) mlist i) =
    unat mlist + 8 + i * unat (entsize method_lists (mem st) mlist) + (if isSmallList mlist st then 1 else 0)"
  using methods.unat_element_at [OF assms] by (simp add: isSmallList_def)

text \<open>The offset of a method starts at the header, so that the division needs an
  element that is longer than the header.\<close>

lemma indexOfMethod_get:
  assumes "list_ok method_lists (mem st) mlist" "isExpectedSize mlist st" "i < unat (list_count (mem st) mlist)"
  shows "indexOfMethod mlist (element_at method_lists (mem st) mlist i) st = Inr (of_nat i)"
proof -
  let ?e = "unat (entsize method_lists (mem st) mlist)" and ?m = "element_at method_lists (mem st) mlist i"
  let ?t = "if isSmallList mlist st then 1 else 0 :: nat"
  have e: "12 \<le> ?e" using assms(2) by (auto simp: isExpectedSize_def smallSize_def bigSize_def split: if_splits)
  have m: "unat ?m = unat mlist + (8 + i * ?e + ?t)" using unat_method [OF assms(1), of i] assms(3) by simp
  have "unat (?m - mlist) = 8 + i * ?e + ?t" using m by (subst unat_sub_u64) simp_all
  then have "unat ((?m - mlist) div ucast (entsize method_lists (mem st) mlist)) = (8 + ?t + i * ?e) div ?e"
    by (simp add: unat_div unat_widen32 algebra_simps)
  also have "\<dots> = i" using e by (simp add: div_nat_eqI)
  finally have "unat ((?m - mlist) div ucast (entsize method_lists (mem st) mlist)) = i" .
  moreover have c: "unat (list_count (mem st) mlist) < 2 ^ LENGTH(32)" by (rule unsigned_less)
  moreover have "unat (of_nat i :: u64) = i" using c assms(3) by (intro unat_of_nat_u64) simp
  ultimately have i: "(?m - mlist) div ucast (entsize method_lists (mem st) mlist) = of_nat i"
    by (simp add: word_unat_eq_iff)
  have x: "(ucast (of_nat i :: u64) :: u32) = of_nat i" by (rule bit_word_eqI) (simp add: bit_ucast_iff bit_of_nat_iff)
  have "unat (of_nat i :: u32) = i" using c assms(3) by (intro unat_of_nat_u32) simp
  then show ?thesis using assms(3) by (simp add: indexOfMethod_def i x word_less_nat_alt)
qed

section \<open>Replaced implementations\<close>

interpretation imps: plain_map_laws imp_map_params
  unfolding imp_map_params_def by (rule ptr_map.plain_map_laws_axioms)

lemma imp_map_simps [simp]:
  "KeyInfo imp_map_params = ptr_info" "isEqual ptr_info = (=)"
  "is_live_key imp_map_params m \<longleftrightarrow> m \<noteq> - 1 \<and> m \<noteq> - 2" "upd_eq ptr_info f k v = f(k := v)"
  by (auto simp: imp_map_params_def map_params_def ptr_info_def is_live_key_def is_empty_key_def is_tombstone_key_def
      upd_eq_def fun_eq_iff)

definition imps_inv :: "method_state \<Rightarrow> bool" where
  "imps_inv st \<longleftrightarrow> (li_didInit (smallMethodIMPMap st) \<longrightarrow> dm_inv imp_map_params (li_storage (smallMethodIMPMap st)))"

text \<open>With room for one more.\<close>

definition imps_ok :: "method_state \<Rightarrow> bool" where
  "imps_ok st \<longleftrightarrow> imps_inv st \<and>
     (li_didInit (smallMethodIMPMap st) \<longrightarrow> NumBuckets (li_storage (smallMethodIMPMap st)) \<le> 2 ^ 29)"

lemma imps_ok_inv: "imps_ok st \<Longrightarrow> imps_inv st"
  by (simp add: imps_ok_def)

definition imps_of :: "method_state \<Rightarrow> u64 \<Rightarrow> u64 option" where
  "imps_of st = (if li_didInit (smallMethodIMPMap st) then dm_map imp_map_params (li_storage (smallMethodIMPMap st))
     else Map.empty)"

lemma empty_imp_map_ok: "dm_inv imp_map_params empty_imp_map" "dm_map imp_map_params empty_imp_map = Map.empty"
  by (auto simp: empty_imp_map_def dm_inv_def dm_map_def dm_shape_def dm_counts_def dm_distinct_def dm_reachable_def
      live_at_def live_list_def tomb_list_def list_map_def fun_eq_iff)

lemma remappedImp_eq:
  assumes "method_isSmall m" "imps_inv st" "m \<noteq> - 1"
  shows "remappedImp m st = Inr (case imps_of st m of None \<Rightarrow> nil | Some imp \<Rightarrow> imp)"
proof (cases "li_didInit (smallMethodIMPMap st)")
  case True
  let ?map = "li_storage (smallMethodIMPMap st)"
  have live: "is_live_key imp_map_params m" using assms(1,3) by (auto simp: method_isSmall_def)
  have inv: "dm_inv imp_map_params ?map" using assms(2) True by (simp add: imps_inv_def)
  obtain i where "dm_find imp_map_params m ?map = Inr i"
    "case dm_map imp_map_params ?map m of None \<Rightarrow> i = dm_end ?map | Some v \<Rightarrow> i \<noteq> dm_end ?map \<and> val_at ?map i = v"
    using imps.dm_find_spec [OF inv live] by (auto split: option.splits)
  then show ?thesis using True assms(1)
    by (auto simp: remappedImp_def method_t_remappedImp_nolock_def LazyInit_get_def imps_of_def val_at_def split: option.splits)
next
  case False
  then show ?thesis using assms(1)
    by (simp add: remappedImp_def method_t_remappedImp_nolock_def LazyInit_get_def imps_of_def)
qed

lemma imp_map_store:
  assumes "dm_inv imp_map_params imps" "NumBuckets imps \<le> 2 ^ 29" "is_live_key imp_map_params m"
  shows "\<exists>imps' i. FindAndConstruct imp_map_params m imps = Inr (imps', i) \<and>
    dm_inv imp_map_params (set_second i imp imps') \<and>
    dm_map imp_map_params (set_second i imp imps') = (dm_map imp_map_params imps)(m \<mapsto> imp)"
proof (cases "dm_map imp_map_params imps m")
  case None
  from imps.FindAndConstruct_new [OF assms this] obtain imps' i
    where "FindAndConstruct imp_map_params m imps = Inr (imps', i)"
      "inserted imp_map_params imps m (ValueT imp_map_params) imps' i" by blast
  moreover from this(2) have "dm_inv imp_map_params imps'" "live_at imp_map_params imps' i" "key_at imps' i = m"
    "dm_map imp_map_params imps' = (dm_map imp_map_params imps)(m \<mapsto> ValueT imp_map_params)"
    by (auto simp: inserted_def imps.kept_is_map imps.never_purgeable)
  ultimately show ?thesis using imps.set_second_spec [of imps' i imp] by simp
next
  case (Some v)
  from imps.FindAndConstruct_old [OF assms(1,3) this] obtain i
    where "FindAndConstruct imp_map_params m imps = Inr (imps, i)" "live_at imp_map_params imps i" "m = key_at imps i"
    by auto
  then show ?thesis using imps.set_second_spec [OF assms(1), of i imp] by auto
qed

lemma remapImp_spec:
  assumes "method_isSmall m" "imps_ok st" "m \<noteq> - 1"
  obtains st' where "remapImp m imp st = Inr st'" "mem st' = mem st" "li_didInit (smallMethodIMPMap st')"
    "dm_inv imp_map_params (li_storage (smallMethodIMPMap st'))" "imps_of st' = (imps_of st)(m \<mapsto> imp)"
proof -
  let ?l = "smallMethodIMPMap st"
  let ?imps = "if li_didInit ?l then li_storage ?l else empty_imp_map"
  have "dm_inv imp_map_params ?imps \<and> NumBuckets ?imps \<le> 2 ^ 29"
    using assms(2) empty_imp_map_ok(1) by (auto simp: imps_ok_def imps_inv_def empty_imp_map_def)
  moreover have "is_live_key imp_map_params m" using assms(1,3) by (auto simp: method_isSmall_def)
  ultimately obtain imps' i where s: "FindAndConstruct imp_map_params m ?imps = Inr (imps', i)"
    "dm_inv imp_map_params (set_second i imp imps')"
    "dm_map imp_map_params (set_second i imp imps') = (dm_map imp_map_params ?imps)(m \<mapsto> imp)"
    using imp_map_store by blast
  have g: "LazyInit_get True empty_imp_map ?l = (?l\<lparr>li_didInit := True, li_storage := ?imps\<rparr>, Some ?imps)"
    by (cases ?l) (simp add: LazyInit_get_def)
  show thesis
  proof (rule that)
    show "remapImp m imp st =
      Inr (st\<lparr>smallMethodIMPMap := ?l\<lparr>li_didInit := True, li_storage := set_second i imp imps'\<rparr>\<rparr>)"
      using assms(1) s(1) unfolding remapImp_def g by simp
  qed (use s(2,3) empty_imp_map_ok(2) in \<open>simp_all add: imps_of_def\<close>)
qed

lemma method_imp_eq:
  assumes "imps_inv st" "m \<noteq> - 1"
  shows "method_imp E m st = Inr (if \<not> method_isSmall m then read_u64 (mem st) (m + 16)
     else case imps_of st m of None \<Rightarrow> sign_function E (RelativePointer_get (mem st) ((m AND NOT 1) + 8))
       | Some imp \<Rightarrow> if imp = nil then sign_function E (RelativePointer_get (mem st) ((m AND NOT 1) + 8)) else imp)"
  using assms by (auto simp: method_imp_def remappedImp_eq method_small_def method_big_def split: option.splits)

lemma RelativePointer_get_on:
  "\<forall>x\<in>A. m' x = m x \<Longrightarrow> bytes_at a 4 \<subseteq> A \<Longrightarrow> RelativePointer_get m' a = RelativePointer_get m a"
  using read_on_bytes(1) [of A m' m a] by (simp add: RelativePointer_get_def)

lemma setImp_imp:
  assumes "imps_ok st" "m \<noteq> - 1" "method_isSmall m \<Longrightarrow> imp \<noteq> nil"
  obtains st' where "setImp m imp st = Inr st'" "imps_inv st'" "method_imp E m st' = Inr imp"
    "method_isSmall m \<Longrightarrow> mem st' = mem st" "\<not> method_isSmall m \<Longrightarrow> smallMethodIMPMap st' = smallMethodIMPMap st"
    "\<And>n. method_isSmall m \<Longrightarrow> n \<noteq> m \<Longrightarrow> n \<noteq> - 1 \<Longrightarrow> method_imp E n st' = method_imp E n st"
proof (cases "method_isSmall m")
  case True
  obtain st' where st': "remapImp m imp st = Inr st'" "mem st' = mem st" "li_didInit (smallMethodIMPMap st')"
    "dm_inv imp_map_params (li_storage (smallMethodIMPMap st'))" "imps_of st' = (imps_of st)(m \<mapsto> imp)"
    using remapImp_spec [OF True assms(1,2)] by blast
  have inv: "imps_inv st'" "imps_inv st" using st'(4) assms(1) by (simp_all add: imps_inv_def imps_ok_def)
  show thesis
    by (rule that [of st']) (use True st' inv assms in \<open>simp_all add: setImp_def method_imp_eq split: option.split\<close>)
next
  case False
  let ?st = "st\<lparr>mem := write_u64 (m + 16) imp (mem st)\<rparr>"
  have inv: "imps_inv ?st" using assms(1) by (simp add: imps_inv_def imps_ok_def)
  show thesis
    by (rule that [of ?st]) (use False inv assms(2) in \<open>simp_all add: setImp_def method_big_def method_imp_eq\<close>)
qed

lemma setName_name:
  assumes "method_isSmall m \<Longrightarrow> \<not> small_inSharedCache E (m AND NOT 1)"
    and "method_isSmall m \<Longrightarrow> bytes_at (RelativePointer_get (mem st) (m AND NOT 1)) 8 \<inter> bytes_at (m AND NOT 1) 4 = {}"
  obtains st' where "setName E m name st = Inr st'" "method_name E m st' = Inr name"
    "smallMethodIMPMap st' = smallMethodIMPMap st"
proof (cases "method_isSmall m")
  case True
  let ?s = "m AND NOT 1"
  let ?st = "st\<lparr>mem := write_u64 (RelativePointer_get (mem st) ?s) name (mem st)\<rparr>"
  have "RelativePointer_get (mem ?st) ?s = RelativePointer_get (mem st) ?s"
    using RelativePointer_get_on [OF write_agrees(1) [OF assms(2) [OF True]] order_refl] by simp
  then show thesis using True assms(1)
    by (intro that [of ?st]) (simp_all add: setName_def method_name_def method_small_def)
next
  case False
  then show thesis
    by (intro that [of "st\<lparr>mem := write_u64 m name (mem st)\<rparr>"]) (simp_all add: setName_def method_name_def method_big_def)
qed

text \<open>What a method says: its name, its types and its implementation.\<close>

definition method_reads :: "method_env \<Rightarrow> u64 \<Rightarrow> method_state \<Rightarrow> (fault + u64) \<times> (fault + u64) \<times> (fault + u64)" where
  "method_reads E m st = (method_name E m st, method_types m st, method_imp E m st)"

text \<open>The bytes this depends on.\<close>

definition method_bytes :: "method_env \<Rightarrow> memory \<Rightarrow> u64 \<Rightarrow> u64 set" where
  "method_bytes E m p =
     (if method_isSmall p then
        bytes_at (p AND NOT 1) 12 \<union>
        (if small_inSharedCache E (p AND NOT 1) then {} else bytes_at (RelativePointer_get m (p AND NOT 1)) 8)
      else bytes_at p 24)"

lemma method_reads_frame:
  assumes agree: "\<forall>x\<in>method_bytes E (mem st) m. mem st' x = mem st x"
    and imps: "smallMethodIMPMap st' = smallMethodIMPMap st"
  shows "method_reads E m st' = method_reads E m st"
proof (cases "method_isSmall m")
  case True
  let ?s = "m AND NOT 1" and ?A = "method_bytes E (mem st) m"
  have sub: "bytes_at (?s + of_nat 0) 4 \<subseteq> ?A" "bytes_at (?s + of_nat 4) 4 \<subseteq> ?A" "bytes_at (?s + of_nat 8) 4 \<subseteq> ?A"
    using True bytes_at_mono [of 0 4 12 ?s] bytes_at_mono [of 4 4 12 ?s] bytes_at_mono [of 8 4 12 ?s]
    unfolding method_bytes_def by auto
  note g = sub [THEN RelativePointer_get_on [OF agree]]
  have "\<not> small_inSharedCache E ?s \<Longrightarrow> bytes_at (RelativePointer_get (mem st) ?s) 8 \<subseteq> ?A"
    using True by (auto simp: method_bytes_def)
  note n = read_on_bytes(2) [OF agree this]
  have "remappedImp m st' = remappedImp m st"
    by (simp add: remappedImp_def method_t_remappedImp_nolock_def imps)
  then show ?thesis using True g n
    by (simp add: method_reads_def method_name_def method_types_def method_imp_def method_small_def cong: if_cong)
next
  case False
  let ?A = "method_bytes E (mem st) m"
  have sub: "bytes_at (m + of_nat 0) 8 \<subseteq> ?A" "bytes_at (m + of_nat 8) 8 \<subseteq> ?A" "bytes_at (m + of_nat 16) 8 \<subseteq> ?A"
    using False bytes_at_mono [of 0 8 24 m] bytes_at_mono [of 8 8 24 m] bytes_at_mono [of 16 8 24 m]
    unfolding method_bytes_def by auto
  show ?thesis using False sub [THEN read_on_bytes(2) [OF agree]]
    by (simp add: method_reads_def method_name_def method_types_def method_imp_def method_big_def)
qed

lemma big_reads:
  assumes "\<not> method_isSmall b"
  shows "method_reads E b st = (Inr (read_u64 (mem st) b), Inr (read_u64 (mem st) (b + 8)), Inr (read_u64 (mem st) (b + 16)))"
  using assms by (simp add: method_reads_def method_name_def method_types_def method_imp_def method_big_def)

text \<open>What \<open>setImp\<close> writes in memory.\<close>

definition imp_slot :: "u64 \<Rightarrow> u64 set" where
  "imp_slot m = (if method_isSmall m then {} else bytes_at (m + 16) 8)"

lemma setImp_spec:
  assumes "imps_ok st" "m \<noteq> - 1" "method_isSmall m \<Longrightarrow> imp \<noteq> nil"
  shows "\<exists>st'. setImp m imp st = Inr st' \<and> imps_inv st' \<and>
    method_reads E m st' = (method_name E m st, method_types m st, Inr imp) \<and>
    (\<forall>x. x \<notin> imp_slot m \<longrightarrow> mem st' x = mem st x) \<and>
    (\<forall>n. n \<noteq> m \<and> n \<noteq> - 1 \<and> method_bytes E (mem st) n \<inter> imp_slot m = {} \<longrightarrow> method_reads E n st' = method_reads E n st)"
proof (cases "method_isSmall m")
  case True
  obtain st' where st': "setImp m imp st = Inr st'" "imps_inv st'" "method_imp E m st' = Inr imp" "mem st' = mem st"
    "\<And>n. n \<noteq> m \<Longrightarrow> n \<noteq> - 1 \<Longrightarrow> method_imp E n st' = method_imp E n st"
    using setImp_imp [OF assms, of E] True by metis
  have "method_name E n st' = method_name E n st" "method_types n st' = method_types n st" for n
    unfolding method_name_def method_types_def st'(4) by (rule refl)+
  then show ?thesis using st' by (intro exI [of _ st']) (simp add: method_reads_def)
next
  case False
  let ?st = "st\<lparr>mem := write_u64 (m + 16) imp (mem st)\<rparr>"
  have s: "setImp m imp st = Inr ?st" using False by (simp add: setImp_def method_big_def)
  have out: "mem ?st x = mem st x" if "x \<notin> imp_slot m" for x
    using that False by (simp add: imp_slot_def write_u64_def write_bytes_outside)
  have inv: "imps_inv ?st" using assms(1) by (simp add: imps_inv_def imps_ok_def)
  have "bytes_at (m + of_nat 16) 8 \<inter> bytes_at (m + of_nat 0) 8 = {}" "bytes_at (m + of_nat 16) 8 \<inter> bytes_at (m + of_nat 8) 8 = {}"
    by (rule bytes_at_disjoint; simp)+
  then have "read_u64 (mem ?st) m = read_u64 (mem st) m" "read_u64 (mem ?st) (m + 8) = read_u64 (mem st) (m + 8)"
    using read_on_bytes(2) [OF write_agrees(1) order_refl, where m = "mem st"] by simp_all
  then have "method_reads E m ?st = (method_name E m st, method_types m st, Inr imp)"
    using False by (simp add: big_reads method_name_def method_types_def method_big_def)
  moreover have "method_reads E n ?st = method_reads E n st" if "method_bytes E (mem st) n \<inter> imp_slot m = {}" for n
    by (rule method_reads_frame) (use that out in auto)
  ultimately show ?thesis using s out inv by blast
qed

lemma method_bytes_frame:
  assumes "\<forall>x\<in>method_bytes E m p. m' x = m x"
  shows "method_bytes E m' p = method_bytes E m p"
proof (cases "method_isSmall p")
  case True
  then have "bytes_at (p AND NOT 1) 4 \<subseteq> method_bytes E m p"
    using bytes_at_mono [of 0 4 12 "p AND NOT 1"] by (simp add: method_bytes_def le_supI1)
  from RelativePointer_get_on [OF assms this] show ?thesis by (simp add: method_bytes_def)
qed (simp add: method_bytes_def)

text \<open>An assignment writes into the target what the source says.\<close>

lemma method_assign_eq:
  assumes "\<not> method_isSmall (blk + of_nat k)" "k + 24 \<le> 2 ^ 64"
    and apart: "\<forall>x\<in>method_bytes E (mem st) other. unat (x - blk) < k \<or> k + 24 \<le> unat (x - blk)"
    and says: "method_reads E other st = (Inr n, Inr t, Inr p)"
  shows "method_assign E (blk + of_nat k) other st =
    Inr (st\<lparr>mem := write_u64 (blk + of_nat (k + 16)) p (write_u64 (blk + of_nat (k + 8)) t
      (write_u64 (blk + of_nat k) n (mem st)))\<rparr>)"
proof -
  let ?st1 = "st\<lparr>mem := write_u64 (blk + of_nat k) n (mem st)\<rparr>"
  let ?st2 = "st\<lparr>mem := write_u64 (blk + of_nat (k + 8)) t (write_u64 (blk + of_nat k) n (mem st))\<rparr>"
  have w: "\<forall>x\<in>method_bytes E (mem st) other. write_u64 (blk + of_nat j) v m x = m x"
    if "k \<le> j" "j + 8 \<le> k + 24" for j v m
    using apart assms(2) that by (intro ballI write_u64_offset) auto
  have 1: "\<forall>x\<in>method_bytes E (mem st) other. mem ?st1 x = mem st x" using w [of k] by simp
  have "\<forall>x\<in>method_bytes E (mem st) other. mem ?st2 x = mem ?st1 x" using w [of "k + 8"] by simp
  with 1 have "method_reads E other ?st1 = (Inr n, Inr t, Inr p)" "method_reads E other ?st2 = (Inr n, Inr t, Inr p)"
    using method_reads_frame [of E st other ?st1] method_reads_frame [of E st other ?st2] says by auto
  then show ?thesis using assms(1) says
    by (simp add: method_assign_def method_reads_def add.assoc [symmetric] add.commute)
qed

section \<open>Copying a list\<close>

definition write_method :: "u64 \<Rightarrow> nat \<Rightarrow> u64 \<Rightarrow> u64 \<Rightarrow> u64 \<Rightarrow> memory \<Rightarrow> memory" where
  "write_method b k n t p m =
     write_u64 (b + of_nat (k + 16)) p (write_u64 (b + of_nat (k + 8)) t (write_u64 (b + of_nat k) n m))"

lemma read_write_method:
  assumes "k + 24 \<le> 2 ^ 64"
  shows "read_u64 (write_method b k n t p m) (b + of_nat k) = n"
    "read_u64 (write_method b k n t p m) (b + of_nat (k + 8)) = t"
    "read_u64 (write_method b k n t p m) (b + of_nat (k + 16)) = p"
    "j + 8 \<le> k \<Longrightarrow> read_u64 (write_method b k n t p m) (b + of_nat j) = read_u64 m (b + of_nat j)"
    "j + 4 \<le> k \<Longrightarrow> read_u32 (write_method b k n t p m) (b + of_nat j) = read_u32 m (b + of_nat j)"
    "k + 24 \<le> unat (x - b) \<Longrightarrow> write_method b k n t p m x = m x"
proof -
  let ?w = "write_method b k n t p m"
  show "read_u64 ?w (b + of_nat k) = n"
    using assms unfolding write_method_def
    by (subst read_u64_offset, simp, simp, simp, subst read_u64_offset, simp, simp, simp) (rule read_write_u64)
  show "read_u64 ?w (b + of_nat (k + 8)) = t"
    using assms unfolding write_method_def by (subst read_u64_offset, simp, simp, simp) (rule read_write_u64)
  show "read_u64 ?w (b + of_nat (k + 16)) = p" unfolding write_method_def by (rule read_write_u64)
  show "j + 8 \<le> k \<Longrightarrow> read_u64 ?w (b + of_nat j) = read_u64 m (b + of_nat j)"
    using assms unfolding write_method_def by (subst read_u64_offset, simp, simp, simp)+ simp
  show "j + 4 \<le> k \<Longrightarrow> read_u32 ?w (b + of_nat j) = read_u32 m (b + of_nat j)"
    using assms unfolding write_method_def by (subst read_u32_offset, simp, simp, simp)+ simp
  show "k + 24 \<le> unat (x - b) \<Longrightarrow> ?w x = m x"
    using assms unfolding write_method_def by (subst write_u64_offset, simp, simp)+ simp
qed

lemma method_reads_total:
  assumes "imps_inv st" "m \<noteq> - 1"
  obtains n t p where "method_reads E m st = (Inr n, Inr t, Inr p)"
  using method_imp_eq [OF assms, of E]
  by (fastforce simp: method_reads_def method_name_def method_types_def method_small_def method_big_def split: if_splits)

lemma not_small_aligned: "4 dvd unat m \<Longrightarrow> \<not> method_isSmall m"
proof -
  assume "4 dvd unat m"
  then have "even (unat m)" by (rule dvd_trans [rotated]) simp
  then show ?thesis using even_word [of m] by (simp add: method_isSmall_def and_one_eq bit_0 mod_2_eq_odd)
qed

text \<open>The first \<open>k\<close> methods of a block of \<open>N\<close> bytes say what the sources said, and
  nothing outside the block has changed.\<close>

definition copied :: "method_env \<Rightarrow> u64 \<Rightarrow> nat \<Rightarrow> (nat \<Rightarrow> u64) \<Rightarrow> method_state \<Rightarrow> nat \<Rightarrow> method_state \<Rightarrow> bool" where
  "copied E blk N src st k st' \<longleftrightarrow>
     (\<forall>x. N \<le> unat (x - blk) \<longrightarrow> mem st' x = mem st x) \<and> smallMethodIMPMap st' = smallMethodIMPMap st \<and>
     (\<forall>j<k. method_reads E (blk + of_nat (8 + 24 * j)) st' = method_reads E (src j) st)"

lemma copied_step:
  assumes inv: "copied E blk N src st k st'" and N: "8 + 24 * Suc k \<le> N" "N \<le> 2 ^ 64"
    and even: "\<And>j. j \<le> k \<Longrightarrow> \<not> method_isSmall (blk + of_nat (8 + 24 * j))"
    and apart: "\<forall>x\<in>method_bytes E (mem st) (src k). N \<le> unat (x - blk)"
    and says: "method_reads E (src k) st = (Inr n, Inr t, Inr p)"
  obtains st'' where "method_assign E (blk + of_nat (8 + 24 * k)) (src k) st' = Inr st''"
    "copied E blk N src st (Suc k) st''"
    "\<And>j. j + 4 \<le> 8 \<Longrightarrow> read_u32 (mem st'') (blk + of_nat j) = read_u32 (mem st') (blk + of_nat j)"
proof -
  let ?o = "8 + 24 * k"
  let ?m = "write_method blk ?o n t p (mem st')"
  let ?st = "st'\<lparr>mem := ?m\<rparr>"
  have agree: "\<forall>x\<in>method_bytes E (mem st) (src k). mem st' x = mem st x" using inv apart by (simp add: copied_def)
  then have says': "method_reads E (src k) st' = (Inr n, Inr t, Inr p)"
    using method_reads_frame [of E st "src k" st'] inv says by (simp add: copied_def)
  have bytes: "method_bytes E (mem st') (src k) = method_bytes E (mem st) (src k)"
    by (rule method_bytes_frame [OF agree])
  have "\<forall>x\<in>method_bytes E (mem st') (src k). unat (x - blk) < ?o \<or> ?o + 24 \<le> unat (x - blk)"
    using apart N(1) unfolding bytes by (auto dest: order.trans)
  then have a: "method_assign E (blk + of_nat ?o) (src k) st' = Inr ?st"
    unfolding write_method_def using N by (intro method_assign_eq says' even) simp_all
  note w = read_write_method [where k = ?o and b = blk and n = n and t = t and p = p and m = "mem st'"]
  have old: "method_reads E (blk + of_nat (8 + 24 * j)) ?st = method_reads E (src j) st" if "j < k" for j
  proof -
    have e: "blk + of_nat (8 + 24 * j) + 8 = blk + of_nat (8 + 24 * j + 8)"
      "blk + of_nat (8 + 24 * j) + 16 = blk + of_nat (8 + 24 * j + 16)" by simp_all
    have "method_reads E (blk + of_nat (8 + 24 * j)) ?st = method_reads E (blk + of_nat (8 + 24 * j)) st'"
      using that N w(4) [of "8 + 24 * j"] w(4) [of "8 + 24 * j + 8"] w(4) [of "8 + 24 * j + 16"]
      unfolding big_reads [OF even [OF less_imp_le [OF that]]] e by simp
    then show ?thesis using inv that by (simp add: copied_def)
  qed
  have new: "method_reads E (blk + of_nat ?o) ?st = method_reads E (src k) st"
  proof -
    have e: "blk + of_nat ?o + 8 = blk + of_nat (?o + 8)" "blk + of_nat ?o + 16 = blk + of_nat (?o + 16)" by simp_all
    show ?thesis using N w(1-3) unfolding big_reads [OF even [OF order_refl]] e says by simp
  qed
  show thesis
  proof (rule that [OF a])
    show "copied E blk N src st (Suc k) ?st"
      using inv N old new w(6) by (auto simp: copied_def less_Suc_eq dest: order.trans)
    show "read_u32 (mem ?st) (blk + of_nat j) = read_u32 (mem st') (blk + of_nat j)" if "j + 4 \<le> 8" for j
      using that N w(5) [of j] by simp
  qed
qed

lemma copy_loop_copies:
  fixes st mlist
  defines "src \<equiv> element_at method_lists (mem st) mlist" and "c \<equiv> unat (list_count (mem st) mlist)"
  assumes ok: "list_ok method_lists (mem st) mlist" "list_ok method_lists m dup" "unat (list_count m dup) = c"
    and N: "N = 8 + 24 * c" "N \<le> 2 ^ 64"
    and big: "\<And>j. j \<le> c \<Longrightarrow> element_at method_lists m dup j = dup + of_nat (8 + 24 * j)"
      "\<And>j. j \<le> c \<Longrightarrow> \<not> method_isSmall (dup + of_nat (8 + 24 * j))"
    and apart: "\<forall>k<c. \<forall>x\<in>method_bytes E (mem st) (src k). N \<le> unat (x - dup)"
    and says: "\<And>k. k < c \<Longrightarrow> \<exists>n t p. method_reads E (src k) st = (Inr n, Inr t, Inr p)"
    and inv: "copied E dup N src st k st'" "k \<le> c"
  shows "\<exists>st''. copy_loop E (iter_at method_lists (mem st) mlist k) (iter_at method_lists (mem st) mlist c)
      (iter_at method_lists m dup k) st' = Some (Inr st'') \<and> copied E dup N src st c st'' \<and>
      (\<forall>j. j + 4 \<le> 8 \<longrightarrow> read_u32 (mem st'') (dup + of_nat j) = read_u32 (mem st') (dup + of_nat j))"
  using inv
proof (induction "c - k" arbitrary: k st')
  case 0
  then have "k = c" by simp
  then show ?case using 0 by (subst copy_loop.simps) (simp add: iter_neq_def)
next
  case (Suc d)
  then have k: "k < c" "Suc k \<le> c" "d = c - Suc k" by simp_all
  from says [OF k(1)] obtain n t p where r: "method_reads E (src k) st = (Inr n, Inr t, Inr p)" by blast
  have bounds: "8 + 24 * Suc k \<le> N" using k(1) N(1) by simp
  have e: "\<not> method_isSmall (dup + of_nat (8 + 24 * j))" if "j \<le> k" for j using big(2) [of j] that k(1) by simp
  have ap: "\<forall>x\<in>method_bytes E (mem st) (src k). N \<le> unat (x - dup)" using apart k(1) by blast
  obtain st'' where st'': "method_assign E (dup + of_nat (8 + 24 * k)) (src k) st' = Inr st''"
    "copied E dup N src st (Suc k) st''"
    "\<And>j. j + 4 \<le> 8 \<Longrightarrow> read_u32 (mem st'') (dup + of_nat j) = read_u32 (mem st') (dup + of_nat j)"
    by (rule copied_step [OF Suc.prems(1) bounds N(2) e ap r]) blast+
  have "iter_neq (iter_at method_lists (mem st) mlist k) (iter_at method_lists (mem st) mlist c)"
    using methods.element_at_less(2) [OF ok(1), of k c] k(1) by (simp add: iter_neq_def iter_at_def c_def)
  moreover have "iter_deref (iter_at method_lists (mem st) mlist k) = src k"
    "iter_deref (iter_at method_lists m dup k) = dup + of_nat (8 + 24 * k)"
    using big(1) [of k] k(1) by (simp_all add: iter_deref_def iter_at_def src_def)
  moreover have "iter_inc (iter_at method_lists (mem st) mlist k) = iter_at method_lists (mem st) mlist (Suc k)"
    "iter_inc (iter_at method_lists m dup k) = iter_at method_lists m dup (Suc k)"
    using methods.iter_inc_at [OF ok(1), of k] methods.iter_inc_at [OF ok(2), of k] k(1) ok(3) by (simp_all add: c_def)
  ultimately have "copy_loop E (iter_at method_lists (mem st) mlist k) (iter_at method_lists (mem st) mlist c)
      (iter_at method_lists m dup k) st' = copy_loop E (iter_at method_lists (mem st) mlist (Suc k))
      (iter_at method_lists (mem st) mlist c) (iter_at method_lists m dup (Suc k)) st''"
    using st''(1) by (subst copy_loop.simps) simp
  then show ?case using Suc.hyps(1) [OF k(3) st''(2) k(2)] st''(3) by simp
qed

text \<open>Room for a copy: \<open>calloc\<close>'s block is aligned, in the address space, and apart
  from the bytes of the original.\<close>

definition dup_room :: "method_env \<Rightarrow> u64 \<Rightarrow> u64 \<Rightarrow> method_state \<Rightarrow> bool" where
  "dup_room E mlist dup st \<longleftrightarrow>
     (let c = unat (list_count (mem st) mlist); N = 8 + 24 * c in
      4 dvd unat dup \<and> 24 * c < 2 ^ 32 \<and> unat dup + N < 2 ^ 64 \<and>
      (\<forall>x\<in>bytes_at mlist 8. N \<le> unat (x - dup)) \<and>
      (\<forall>k<c. \<forall>x\<in>method_bytes E (mem st) (element_at method_lists (mem st) mlist k). N \<le> unat (x - dup)))"

text \<open>A list of big methods, by its header.\<close>

definition big_list :: "memory \<Rightarrow> u64 \<Rightarrow> nat \<Rightarrow> bool" where
  "big_list m l c \<longleftrightarrow> 4 dvd unat l \<and> entsize method_lists m l = bigSize \<and>
     list_flags method_lists m l AND smallMethodListFlag = 0 \<and> unat (list_count m l) = c \<and>
     24 * c < 2 ^ 32 \<and> unat l + (8 + 24 * c) < 2 ^ 64"

lemma big_list_ok:
  assumes "big_list m l c"
  shows "list_ok method_lists m l"
    and "j \<le> c \<Longrightarrow> element_at method_lists m l j = l + of_nat (8 + 24 * j)"
    and "j \<le> c \<Longrightarrow> \<not> method_isSmall (l + of_nat (8 + 24 * j))"
proof -
  have e: "unat (entsize method_lists m l) = 24" using assms by (simp add: big_list_def bigSize_def)
  show "list_ok method_lists m l"
    using assms e unfolding list_ok_def big_list_def word_less_nat_alt by (simp add: mult.commute)
  show "element_at method_lists m l j = l + of_nat (8 + 24 * j)" if "j \<le> c"
    using assms e by (simp add: element_at_def method_lists_def pointer_modifier_modify_def big_list_def ac_simps)
  show "\<not> method_isSmall (l + of_nat (8 + 24 * j))" if "j \<le> c"
  proof (rule not_small_aligned)
    have b: "8 + 24 * j < 2 ^ 64" "unat l + (8 + 24 * j) < 2 ^ 64" using assms that by (auto simp: big_list_def)
    have u: "unat (of_nat (8 + 24 * j) :: u64) = 8 + 24 * j" by (rule unat_of_nat_u64 [OF b(1)])
    have "unat (l + of_nat (8 + 24 * j)) = unat l + (8 + 24 * j)"
      using b(2) by (subst unat_add_nowrap_u64) (simp_all only: u)
    moreover have "4 dvd unat l" using assms by (simp add: big_list_def)
    ultimately show "4 dvd unat (l + of_nat (8 + 24 * j))" by presburger
  qed
qed

text \<open>The header a copy starts from.\<close>

definition dup_header :: "u64 \<Rightarrow> u64 \<Rightarrow> method_state \<Rightarrow> memory" where
  "dup_header mlist dup st =
     write_u32 (dup + 4) (list_count (mem st) mlist)
       (if isSmallList mlist st
        then write_u32 dup bigSize (zero_bytes dup (byteSize_for bigSize (list_count (mem st) mlist)) (mem st))
        else write_u32 dup (entsizeAndFlags (mem st) mlist) (zero_bytes dup (byteSize method_lists (mem st) mlist) (mem st)))"

lemma dup_header_spec:
  assumes "dup_room E mlist dup st" "isExpectedSize mlist st"
  shows "big_list (dup_header mlist dup st) dup (unat (list_count (mem st) mlist))"
    and "8 + 24 * unat (list_count (mem st) mlist) \<le> unat (x - dup) \<Longrightarrow> dup_header mlist dup st x = mem st x"
proof -
  let ?c = "list_count (mem st) mlist"
  let ?h = "if isSmallList mlist st then bigSize else entsizeAndFlags (mem st) mlist"
  have h: "?h AND NOT 0xffff0003 = bigSize" "(?h AND 0xffff0003) AND smallMethodListFlag = 0"
    using assms(2) by (auto simp: isExpectedSize_def isSmallList_def entsize_def list_flags_def method_lists_def bigSize_def
      smallMethodListFlag_def)
  have c: "24 * unat ?c < 2 ^ 32" "unat dup + (8 + 24 * unat ?c) < 2 ^ 64" "4 dvd unat dup"
    using assms(1) by (simp_all add: dup_room_def Let_def)
  have e: "dup_header mlist dup st = write_u32 (dup + of_nat 4) ?c (write_u32 (dup + of_nat 0) ?h
      (zero_bytes dup (byteSize_for bigSize ?c) (mem st)))"
    using assms(2) by (simp add: dup_header_def byteSize_def isExpectedSize_def)
  have n: "unat (byteSize_for bigSize ?c) = 8 + 24 * unat ?c"
  proof -
    have "unat (?c * bigSize) = 24 * unat ?c" using c(1) by (simp add: unat_word_ariths bigSize_def)
    then show ?thesis using c(1) by (simp add: byteSize_for_def unat_add_nowrap_u64 unat_widen32)
  qed
  have "read_u32 (dup_header mlist dup st) (dup + of_nat 0) = ?h"
    unfolding e by (subst read_u32_write_offset) (simp_all only: read_write_u32, simp_all)
  moreover have "read_u32 (dup_header mlist dup st) (dup + of_nat 4) = ?c" unfolding e by (rule read_write_u32)
  ultimately have "read_u32 (dup_header mlist dup st) dup = ?h" "read_u32 (dup_header mlist dup st) (dup + 4) = ?c" by simp_all
  then show "big_list (dup_header mlist dup st) dup (unat ?c)"
    using h c by (simp add: big_list_def entsize_def list_flags_def list_count_def entsizeAndFlags_def method_lists_def)
  show "dup_header mlist dup st x = mem st x" if "8 + 24 * unat ?c \<le> unat (x - dup)"
    unfolding e using that n
    by (subst write_u32_offset, simp, simp, subst write_u32_offset, simp, simp) (simp add: zero_bytes_def word_less_nat_alt)
qed

lemma list_header_cong:
  assumes "read_u32 m' l = read_u32 m l" "read_u32 m' (l + 4) = read_u32 m (l + 4)"
  shows "entsize K m' l = entsize K m l" "list_flags K m' l = list_flags K m l" "list_count m' l = list_count m l"
    "list_ok K m' l = list_ok K m l" "element_at K m' l = element_at K m l" "iter_at K m' l = iter_at K m l"
  using assms by (simp_all add: entsize_def list_flags_def list_count_def entsizeAndFlags_def list_ok_def element_at_def iter_at_def fun_eq_iff)

text \<open>No element of a list is the pointer that the map of implementations reserves.\<close>

lemma element_not_reserved:
  assumes "list_ok method_lists m l" "i \<le> unat (list_count m l)"
  shows "element_at method_lists m l i \<noteq> - 1"
proof
  assume a: "element_at method_lists m l i = - 1"
  obtain q where q: "unat l + 8 + i * unat (entsize method_lists m l) = 4 * q" using methods.place(2) [OF assms] by (elim dvdE)
  have "unat (- 1 :: u64) = 4 * q + unat (if list_flags method_lists m l AND smallMethodListFlag \<noteq> 0 then 1 else 0 :: u64)"
    using methods.unat_element_at [OF assms] unfolding a q .
  moreover have "unat (- 1 :: u64) = 18446744073709551615" by (simp add: unsigned_minus_1_eq_mask mask_eq_exp_minus_1)
  ultimately have "4 * q = 18446744073709551615 \<or> 4 * q + 1 = 18446744073709551615" by (auto split: if_splits)
  then show False by presburger
qed

lemma method_list_duplicate_copies:
  assumes ok: "list_ok method_lists (mem st) mlist" "isExpectedSize mlist st" "imps_inv st" "dup_room E mlist dup st"
  shows "\<exists>st'. method_list_duplicate E mlist dup st = Inr (Some st') \<and>
    list_ok method_lists (mem st') dup \<and> \<not> isSmallList dup st' \<and>
    list_count (mem st') dup = list_count (mem st) mlist \<and>
    (\<forall>k<unat (list_count (mem st) mlist). method_reads E (element_at method_lists (mem st') dup k) st' =
       method_reads E (element_at method_lists (mem st) mlist k) st)"
proof -
  let ?c = "unat (list_count (mem st) mlist)" and ?m = "dup_header mlist dup st"
  let ?N = "8 + 24 * ?c" and ?src = "element_at method_lists (mem st) mlist"
  note h = dup_header_spec [OF ok(4,2)]
  note b = big_list_ok [OF h(1)]
  have room: "?N \<le> 2 ^ 64" "\<forall>x\<in>bytes_at mlist 8. ?m x = mem st x"
    "\<forall>k<?c. \<forall>x\<in>method_bytes E (mem st) (?src k). ?N \<le> unat (x - dup)"
    using ok(4) h(2) by (auto simp: dup_room_def Let_def)
  have "read_u32 ?m mlist = read_u32 (mem st) mlist" "read_u32 ?m (mlist + 4) = read_u32 (mem st) (mlist + 4)"
    using read_on_bytes(1) [OF room(2), of mlist] read_on_bytes(1) [OF room(2), of "mlist + 4"]
      bytes_at_mono [of 0 4 8 mlist] bytes_at_mono [of 4 4 8 mlist] by simp_all
  note c = list_header_cong [OF this]
  have cop: "copied E dup ?N ?src st 0 (st\<lparr>mem := ?m\<rparr>)" using h(2) by (simp add: copied_def)
  have n: "unat (list_count ?m dup) = ?c" using h(1) by (simp add: big_list_def)
  have says: "\<exists>n t p. method_reads E (?src k) st = (Inr n, Inr t, Inr p)" if "k < ?c" for k
    by (rule method_reads_total [OF ok(3), of "?src k" E]) (use element_not_reserved [OF ok(1), of k] that in auto)
  from copy_loop_copies [OF ok(1) b(1) n refl room(1) b(2) b(3) room(3) says cop le0]
  obtain st' where st': "copy_loop E (iter_at method_lists (mem st) mlist 0) (iter_at method_lists (mem st) mlist ?c)
      (iter_at method_lists ?m dup 0) (st\<lparr>mem := ?m\<rparr>) = Some (Inr st')" "copied E dup ?N ?src st ?c st'"
    "\<forall>j. j + 4 \<le> 8 \<longrightarrow> read_u32 (mem st') (dup + of_nat j) = read_u32 ?m (dup + of_nat j)"
    by auto
  have d: "method_list_duplicate E mlist dup st = Inr (Some st')"
    using st'(1) methods.list_begin_end [OF ok(1)] methods.list_begin_end [OF b(1)]
      methods.list_begin_end [of ?m mlist] c ok(1)
    by (auto simp: method_list_duplicate_def dup_header_def Let_def)
  have "read_u32 (mem st') dup = read_u32 ?m dup" "read_u32 (mem st') (dup + 4) = read_u32 ?m (dup + 4)"
    using st'(3) [rule_format, of 0] st'(3) [rule_format, of 4] by simp_all
  note e = list_header_cong [OF this]
  show ?thesis
    using d st'(2) b h(1) by (auto simp: e isSmallList_def big_list_def copied_def word_unat_eq_iff [of _ "list_count (mem st) mlist"])
qed

end
