(* ===== verification/ListArray.thy ===== *)
theory ListArray
  imports MethodList
begin

text \<open>
  The lists of a class (\<^verbatim>\<open>objc-runtime-new.h\<close>: \<open>list_array_tt\<close>).  A field of one
  word is empty, a pointer to a list, or a tagged pointer to an array of
  pointers to lists; \<open>attachLists\<close> puts the lists of categories before the lists
  that are there.  \<open>this\<close> is the address of the field.  Signed pointers are not
  distinguished from plain ones.
\<close>

section \<open>The field\<close>

definition la_hasArray :: "memory \<Rightarrow> u64 \<Rightarrow> bool" where
  "la_hasArray m this \<longleftrightarrow> read_u64 m this AND 1 \<noteq> 0"

definition la_array :: "memory \<Rightarrow> u64 \<Rightarrow> u64" where
  "la_array m this = read_u64 m this AND NOT 1"

definition la_setArray :: "u64 \<Rightarrow> u64 \<Rightarrow> memory \<Rightarrow> memory" where
  "la_setArray this array m = write_u64 this (array OR 1) m"

text \<open>\<open>array_t\<close>: the count, then the lists from offset 8.\<close>

definition array_count :: "memory \<Rightarrow> u64 \<Rightarrow> u32" where
  "array_count m array = read_u32 m array"

definition array_slot :: "u64 \<Rightarrow> u32 \<Rightarrow> u64" where
  "array_slot array i = array + 8 + 8 * ucast i"

definition array_byteSize :: "u32 \<Rightarrow> u64" where
  "array_byteSize count = 8 + ucast count * 8"

text \<open>The constructors, and \<open>operator=\<close>: either branch copies the word.\<close>

definition la_init :: "u64 \<Rightarrow> u64 \<Rightarrow> memory \<Rightarrow> memory" where
  "la_init this l m = write_u64 this l m"

definition la_assign :: "u64 \<Rightarrow> u64 \<Rightarrow> memory \<Rightarrow> memory" where
  "la_assign this other m = (if la_hasArray m other then write_u64 this (read_u64 m other) m
     else write_u64 this (read_u64 m other) m)"

definition countLists :: "memory \<Rightarrow> u64 \<Rightarrow> u32" where
  "countLists m this =
     (if la_hasArray m this then array_count m (la_array m this) else if read_u64 m this \<noteq> nil then 1 else 0)"

definition beginLists :: "memory \<Rightarrow> u64 \<Rightarrow> u64" where
  "beginLists m this = (if la_hasArray m this then array_slot (la_array m this) 0 else this)"

definition endLists :: "memory \<Rightarrow> u64 \<Rightarrow> u64" where
  "endLists m this =
     (if la_hasArray m this then array_slot (la_array m this) (array_count m (la_array m this))
      else if read_u64 m this \<noteq> nil then this + 8 else this)"

text \<open>A loop over the pointers from \<open>p\<close> to \<open>e\<close>; \<open>None\<close> if it does not end.\<close>

partial_function (option) lists_loop :: "memory \<Rightarrow> u64 \<Rightarrow> u64 \<Rightarrow> u64 list option" where
  "lists_loop m p e =
     (if p \<noteq> e then Option.bind (lists_loop m (p + 8) e) (\<lambda>rest. Some (read_u64 m p # rest)) else Some [])"

partial_function (option) la_count_loop :: "memory \<Rightarrow> u64 \<Rightarrow> u64 \<Rightarrow> u32 \<Rightarrow> u32 option" where
  "la_count_loop m p e result =
     (if p \<noteq> e then la_count_loop m (p + 8) e (result + list_count m (read_u64 m p)) else Some result)"

definition la_count :: "memory \<Rightarrow> u64 \<Rightarrow> u32 option" where
  "la_count m this = la_count_loop m (beginLists m this) (endLists m this) 0"

section \<open>Iterators over the elements\<close>

record la_iterator =
  it_lists :: u64
  it_listsEnd :: u64
  it_m :: list_iterator
  it_mEnd :: list_iterator

definition la_iterator_at :: "list_kind \<Rightarrow> memory \<Rightarrow> list_iterator \<Rightarrow> u64 \<Rightarrow> u64 \<Rightarrow> fault + la_iterator" where
  "la_iterator_at K m undef b e =
     (if b \<noteq> e then
        bindE (list_begin K m (read_u64 m b)) (\<lambda>i. bindE (list_end K m (read_u64 m b)) (\<lambda>j.
          Inr \<lparr>it_lists = b, it_listsEnd = e, it_m = i, it_mEnd = j\<rparr>))
      else Inr \<lparr>it_lists = b, it_listsEnd = e, it_m = undef, it_mEnd = undef\<rparr>)"

definition la_iter_neq :: "la_iterator \<Rightarrow> la_iterator \<Rightarrow> bool" where
  "la_iter_neq it rhs =
     (if it_lists it \<noteq> it_lists rhs then True
      else if it_lists it = it_listsEnd it then False
      else if iter_neq (it_m it) (it_m rhs) then True
      else False)"

definition la_iter_inc :: "list_kind \<Rightarrow> memory \<Rightarrow> la_iterator \<Rightarrow> fault + la_iterator" where
  "la_iter_inc K m it =
     (if \<not> iter_neq (it_m it) (it_mEnd it) then Inl AssertFailed
      else let it = it\<lparr>it_m := iter_inc (it_m it)\<rparr> in
        if iter_eq (it_m it) (it_mEnd it) then
          if it_lists it = it_listsEnd it then Inl AssertFailed
          else let it = it\<lparr>it_lists := it_lists it + 8\<rparr> in
            if it_lists it \<noteq> it_listsEnd it then
              bindE (list_begin K m (read_u64 m (it_lists it))) (\<lambda>i.
              bindE (list_end K m (read_u64 m (it_lists it))) (\<lambda>j. Inr (it\<lparr>it_m := i, it_mEnd := j\<rparr>)))
            else Inr it
        else Inr it)"

definition la_begin :: "list_kind \<Rightarrow> memory \<Rightarrow> list_iterator \<Rightarrow> u64 \<Rightarrow> fault + la_iterator" where
  "la_begin K m undef this = la_iterator_at K m undef (beginLists m this) (endLists m this)"

definition la_end :: "list_kind \<Rightarrow> memory \<Rightarrow> list_iterator \<Rightarrow> u64 \<Rightarrow> fault + la_iterator" where
  "la_end K m undef this = (let e = endLists m this in la_iterator_at K m undef e e)"

partial_function (option) la_loop :: "list_kind \<Rightarrow> memory \<Rightarrow> la_iterator \<Rightarrow> la_iterator \<Rightarrow> (fault + u64 list) option" where
  "la_loop K m it e =
     (if la_iter_neq it e then
        (case la_iter_inc K m it of
           Inl f \<Rightarrow> Some (Inl f)
         | Inr it' \<Rightarrow> Option.bind (la_loop K m it' e) (\<lambda>r. Some (bindE r (\<lambda>rest. Inr (iter_deref (it_m it) # rest)))))
      else Some (Inr []))"

section \<open>Changes\<close>

text \<open>\<open>newArray\<close> is what \<open>malloc\<close> returns; the result lists the blocks that were
  freed.  The first loop runs on a signed index.\<close>

definition copy_down :: "u64 \<Rightarrow> u64 \<Rightarrow> u32 \<Rightarrow> u32 \<Rightarrow> memory \<Rightarrow> memory" where
  "copy_down array newArray oldCount addedCount m =
     fold (\<lambda>i m. write_u64 (array_slot newArray (of_nat i + addedCount)) (read_u64 m (array_slot array (of_nat i))) m)
       (rev [0..<nat (sint (oldCount - 1) + 1)]) m"

definition copy_added :: "u64 \<Rightarrow> u64 \<Rightarrow> u32 \<Rightarrow> memory \<Rightarrow> memory" where
  "copy_added addedLists array addedCount m =
     fold (\<lambda>i m. write_u64 (array_slot array (of_nat i)) (read_u64 m (addedLists + 8 * of_nat i)) m)
       [0..<unat addedCount] m"

definition attachLists :: "u64 \<Rightarrow> u64 \<Rightarrow> u32 \<Rightarrow> u64 \<Rightarrow> memory \<Rightarrow> memory \<times> u64 list" where
  "attachLists this addedLists addedCount newArray m =
     (if addedCount = 0 then (m, [])
      else if la_hasArray m this then
        let array = la_array m this;
            oldCount = array_count m array;
            newCount = oldCount + addedCount;
            m = write_u32 newArray newCount m;
            m = write_u32 array newCount m;
            m = copy_down array newArray oldCount addedCount m;
            m = copy_added addedLists newArray addedCount m
        in (la_setArray this newArray m, [array])
      else if read_u64 m this = nil \<and> addedCount = 1 then (write_u64 this (read_u64 m addedLists) m, [])
      else
        let oldList = read_u64 m this;
            oldCount = (if oldList \<noteq> nil then 1 else 0);
            newCount = oldCount + addedCount;
            m = la_setArray this newArray m;
            m = write_u32 (la_array m this) newCount m;
            m = (if oldList \<noteq> nil then write_u64 (array_slot (la_array m this) addedCount) oldList m else m);
            m = copy_added addedLists (la_array m this) addedCount m
        in (m, []))"

text \<open>\<open>try_free\<close> frees what \<open>malloc\<close> knows.\<close>

definition try_free :: "(u64 \<Rightarrow> u64) \<Rightarrow> u64 \<Rightarrow> u64 list" where
  "try_free malloc_size p = (if p \<noteq> nil \<and> malloc_size p \<noteq> 0 then [p] else [])"

definition tryFree :: "(u64 \<Rightarrow> u64) \<Rightarrow> u64 \<Rightarrow> memory \<Rightarrow> u64 list" where
  "tryFree malloc_size this m =
     (if la_hasArray m this then
        concat (map (\<lambda>i. try_free malloc_size (read_u64 m (array_slot (la_array m this) (of_nat i))))
          [0..<unat (array_count m (la_array m this))]) @ try_free malloc_size (la_array m this)
      else if read_u64 m this \<noteq> nil then try_free malloc_size (read_u64 m this)
      else [])"

text \<open>\<open>duplicateInto\<close> for method lists: \<open>arr\<close> and \<open>dups\<close> are the blocks of the copy.\<close>

definition memdup :: "u64 \<Rightarrow> u64 \<Rightarrow> u64 \<Rightarrow> memory \<Rightarrow> memory" where
  "memdup dup src n m = (\<lambda>x. if x - dup < n then m (src + (x - dup)) else m x)"

fun dup_lists :: "method_env \<Rightarrow> u64 \<Rightarrow> u64 \<Rightarrow> nat \<Rightarrow> u64 list \<Rightarrow> method_state \<Rightarrow> fault + method_state option" where
  "dup_lists E a arr i [] st = Inr (Some st)"
| "dup_lists E a arr i (dup # dups) st =
     bindE (method_list_duplicate E (read_u64 (mem st) (array_slot a (of_nat i))) dup st) (\<lambda>r.
       case r of
         None \<Rightarrow> Inr None
       | Some st \<Rightarrow> dup_lists E a arr (Suc i) dups (st\<lparr>mem := write_u64 (array_slot arr (of_nat i)) dup (mem st)\<rparr>))"

definition duplicateInto :: "method_env \<Rightarrow> u64 \<Rightarrow> u64 \<Rightarrow> u64 \<Rightarrow> (nat \<Rightarrow> u64) \<Rightarrow> method_state \<Rightarrow> fault + method_state option" where
  "duplicateInto E this other arr dups st =
     (if la_hasArray (mem st) this then
        let a = la_array (mem st) this; count = array_count (mem st) a;
            st = st\<lparr>mem := la_setArray other arr (memdup arr a (array_byteSize count) (mem st))\<rparr>
        in dup_lists E a arr 0 (map dups [0..<unat count]) st
      else if read_u64 (mem st) this \<noteq> nil then
        bindE (method_list_duplicate E (read_u64 (mem st) this) (dups 0) st) (\<lambda>r.
          Inr (map_option (\<lambda>st. st\<lparr>mem := write_u64 other (dups 0) (mem st)\<rparr>) r))
      else Inr (Some (st\<lparr>mem := write_u64 other nil (mem st)\<rparr>)))"

section \<open>The lists of a field\<close>

definition la_lists :: "memory \<Rightarrow> u64 \<Rightarrow> u64 list" where
  "la_lists m this =
     (if la_hasArray m this
      then map (\<lambda>i. read_u64 m (la_array m this + of_nat (8 + 8 * i))) [0..<unat (array_count m (la_array m this))]
      else if read_u64 m this \<noteq> nil then [read_u64 m this] else [])"

text \<open>A field whose array, if it has one, is a block of its own.\<close>

definition la_block :: "memory \<Rightarrow> u64 \<Rightarrow> u64 set" where
  "la_block m this = (if la_hasArray m this then bytes_at (la_array m this) (8 + 8 * length (la_lists m this)) else {})"

definition la_ok :: "memory \<Rightarrow> u64 \<Rightarrow> bool" where
  "la_ok m this \<longleftrightarrow> bytes_at this 8 \<inter> la_block m this = {} \<and>
     (la_hasArray m this \<longrightarrow> unat (la_array m this) + 8 + 8 * length (la_lists m this) < 2 ^ 64)"

lemma length_la_lists: "length (la_lists m this) = unat (countLists m this)"
  by (simp add: la_lists_def countLists_def)

lemma array_slot_at: "i < 2 ^ 32 \<Longrightarrow> array_slot a (of_nat i) = a + of_nat (8 + 8 * i)"
proof -
  assume "i < 2 ^ 32"
  then have "(ucast (of_nat i :: u32) :: u64) = of_nat i"
    by (simp add: word_unat_eq_iff unat_widen32 unat_of_nat_u32 unat_of_nat_u64)
  then show ?thesis by (simp add: array_slot_def)
qed

lemma tag_even:
  assumes "even (unat (p :: u64))"
  shows "(p OR 1) AND 1 \<noteq> 0" "(p OR 1) AND NOT 1 = p"
proof -
  have b: "\<not> bit p 0" using even_word [OF assms] .
  have "bit ((p OR 1) AND 1) 0" by (simp add: bit_and_iff bit_or_iff)
  then show "(p OR 1) AND 1 \<noteq> 0" by (metis bit_0_eq bot_apply bot_bool_def)
  show "(p OR 1) AND NOT 1 = p"
    using b by (intro bit_word_eqI) (auto simp: bit_and_iff bit_or_iff bit_not_iff bit_1_iff intro: gr0I)
qed

text \<open>The word of the field decides; the array gives the rest.\<close>

lemma la_lists_array:
  assumes "even (unat arr)" "read_u64 m this = arr OR 1"
  shows "la_hasArray m this" "la_array m this = arr"
    "la_lists m this = map (\<lambda>i. read_u64 m (arr + of_nat (8 + 8 * i))) [0..<unat (array_count m arr)]"
  using tag_even [OF assms(1)] assms(2) by (simp_all add: la_hasArray_def la_array_def la_lists_def)

lemma copy_down_words:
  assumes "unat oldCount < 2 ^ 31" "unat oldCount + unat addedCount < 2 ^ 32"
  shows "copy_down array newArray oldCount addedCount =
    copy_words newArray (\<lambda>i. i + unat addedCount) (\<lambda>i. array + of_nat (8 + 8 * i)) (rev [0..<unat oldCount])"
proof -
  have n: "nat (sint (oldCount - 1) + 1) = unat oldCount"
  proof (cases "oldCount = 0")
    case False
    then have "oldCount - 1 = of_nat (unat oldCount - 1)" by (simp add: of_nat_diff unat_gt_0 Suc_leI)
    then show ?thesis using sint_of_nat_u32 [of "unat oldCount - 1"] assms(1) False by (simp add: unat_gt_0 Suc_leI)
  qed simp
  have d: "array_slot newArray (of_nat i + addedCount) = newArray + of_nat (8 + 8 * (i + unat addedCount))"
    "array_slot array (of_nat i) = array + of_nat (8 + 8 * i)" if "i < unat oldCount" for i
    using array_slot_at [of "i + unat addedCount" newArray] array_slot_at [of i array] that assms by simp_all
  show ?thesis unfolding copy_down_def copy_words_def n
    by (intro ext fold_cong refl) (simp_all add: d)
qed

lemma copy_added_words:
  "copy_added addedLists array addedCount =
    copy_words array (\<lambda>i. i) (\<lambda>i. addedLists + of_nat (8 * i)) [0..<unat addedCount]"
proof -
  have c: "unat addedCount < 2 ^ LENGTH(32)" by (rule unsigned_less)
  have d: "array_slot array (of_nat i) = array + of_nat (8 + 8 * i)" if "i < unat addedCount" for i
    using array_slot_at [of i array] that c by simp
  show ?thesis unfolding copy_added_def copy_words_def
    by (intro ext fold_cong refl) (simp_all add: d)
qed

section \<open>Attaching lists\<close>

lemma copy_into_block:
  assumes B: "B = bytes_at b N" "N \<le> 2 ^ 64" and js: "\<forall>j\<in>set js. 16 + 8 * d j \<le> N" "distinct (map d js)"
    and src: "\<forall>j\<in>set js. bytes_at (src j) 8 \<inter> B = {}"
  shows "x \<notin> B \<Longrightarrow> copy_words b d src js m x = m x"
    and "j \<in> set js \<Longrightarrow> read_u64 (copy_words b d src js m) (b + of_nat (8 + 8 * d j)) = read_u64 m (src j)"
proof -
  have out: "N \<le> unat (x - b) \<longleftrightarrow> x \<notin> B" for x using bytes_at_iff [OF B(2), of x b] B(1) by auto
  show "copy_words b d src js m x = m x" if "x \<notin> B" using copy_words_outside [OF js(1) B(2)] that out by blast
  show "read_u64 (copy_words b d src js m) (b + of_nat (8 + 8 * d j)) = read_u64 m (src j)" if "j \<in> set js"
    using copy_words_copied [OF js(1) B(2) js(2) that] src out by blast
qed

lemma fill_array:
  fixes m :: memory
  assumes B: "B = bytes_at b (8 + 8 * (a + old))" "8 + 8 * (a + old) \<le> 2 ^ 64"
    and src: "\<forall>i<old. bytes_at (s1 i) 8 \<inter> B = {}" "\<forall>i<a. bytes_at (s2 i) 8 \<inter> B = {}"
  defines "m' \<equiv> copy_words b (\<lambda>i. i) s2 [0..<a] (copy_words b (\<lambda>i. i + a) s1 (rev [0..<old]) m)"
  shows "map (\<lambda>i. read_u64 m' (b + of_nat (8 + 8 * i))) [0..<a + old] =
      map (\<lambda>i. read_u64 m (s2 i)) [0..<a] @ map (\<lambda>i. read_u64 m (s1 i)) [0..<old]"
    and "read_u32 m' b = read_u32 m b" and "x \<notin> B \<Longrightarrow> m' x = m x"
proof -
  let ?m1 = "copy_words b (\<lambda>i. i + a) s1 (rev [0..<old]) m"
  have js: "\<forall>j\<in>set (rev [0..<old]). 16 + 8 * (j + a) \<le> 8 + 8 * (a + old)" "distinct (map (\<lambda>i. i + a) (rev [0..<old]))"
    "\<forall>j\<in>set [0..<a]. 16 + 8 * j \<le> 8 + 8 * (a + old)" "distinct (map (\<lambda>i. i) [0..<a])"
    "\<forall>j\<in>set (rev [0..<old]). bytes_at (s1 j) 8 \<inter> B = {}" "\<forall>j\<in>set [0..<a]. bytes_at (s2 j) 8 \<inter> B = {}"
    using src by (auto simp: distinct_map inj_on_def)
  note c1 = copy_into_block [OF B js(1,2,5), of _ m] and c2 = copy_into_block [OF B js(3,4,6), of _ ?m1]
  have 1: "read_u64 m' (b + of_nat (8 + 8 * i)) = read_u64 m (s2 i)" if "i < a" for i
  proof -
    have "\<forall>x\<in>bytes_at (s2 i) 8. ?m1 x = m x" using c1(1) src(2) that by blast
    then have "read_u64 ?m1 (s2 i) = read_u64 m (s2 i)" by (rule read_on_bytes(2)) simp
    then show ?thesis using c2(2) [of i] that by (simp add: m'_def)
  qed
  have 2: "read_u64 m' (b + of_nat (8 + 8 * (i + a))) = read_u64 m (s1 i)" if "i < old" for i
    using copy_words_other [OF js(3) B(2), of "i + a" b s2 ?m1] c1(2) [of i] that by (simp add: m'_def)
  show "map (\<lambda>i. read_u64 m' (b + of_nat (8 + 8 * i))) [0..<a + old] =
      map (\<lambda>i. read_u64 m (s2 i)) [0..<a] @ map (\<lambda>i. read_u64 m (s1 i)) [0..<old]"
  proof (rule nth_equalityI)
    fix k assume "k < length (map (\<lambda>i. read_u64 m' (b + of_nat (8 + 8 * i))) [0..<a + old])"
    then show "map (\<lambda>i. read_u64 m' (b + of_nat (8 + 8 * i))) [0..<a + old] ! k =
      (map (\<lambda>i. read_u64 m (s2 i)) [0..<a] @ map (\<lambda>i. read_u64 m (s1 i)) [0..<old]) ! k"
      using 1 [of k] 2 [of "k - a"] by (cases "k < a") (simp_all add: nth_append del: of_nat_add of_nat_mult)
  qed simp
  show "read_u32 m' b = read_u32 m b"
    using copy_words_header [OF js(3) B(2), of 0 b s2 ?m1] copy_words_header [OF js(1) B(2), of 0 b s1 m] by (simp add: m'_def)
  show "m' x = m x" if "x \<notin> B" using c1(1) [OF that] c2(1) [OF that] by (simp add: m'_def)
qed

definition words_at :: "memory \<Rightarrow> u64 \<Rightarrow> nat \<Rightarrow> u64 list" where
  "words_at m p n = map (\<lambda>i. read_u64 m (p + of_nat (8 * i))) [0..<n]"

text \<open>What a caller of \<open>attachLists\<close> provides: an array of aligned lists, and from
  \<open>malloc\<close> a block that is apart from everything read; the counts stay in range.\<close>

definition la_room :: "memory \<Rightarrow> u64 \<Rightarrow> u64 \<Rightarrow> u32 \<Rightarrow> u64 \<Rightarrow> bool" where
  "la_room m this addedLists addedCount newArray \<longleftrightarrow>
     (let n = unat addedCount + length (la_lists m this);
          B = bytes_at newArray (8 + 8 * n); A = bytes_at addedLists (8 * unat addedCount)
      in length (la_lists m this) < 2 ^ 31 \<and> n < 2 ^ 32 \<and> even (unat newArray) \<and> unat newArray + 8 + 8 * n < 2 ^ 64 \<and>
         bytes_at this 8 \<inter> B = {} \<and> A \<inter> B = {} \<and> la_block m this \<inter> B = {} \<and>
         bytes_at this 8 \<inter> A = {} \<and> la_block m this \<inter> A = {} \<and>
         (\<forall>l\<in>set (words_at m addedLists (unat addedCount)). l \<noteq> nil \<and> even (unat l)))"

text \<open>A field that points to an array that is filled.\<close>

lemma la_filled:
  assumes "even (unat arr)" "read_u64 m this = arr OR 1" "read_u32 m arr = n" "unat arr + 8 + 8 * unat n < 2 ^ 64"
    and "bytes_at this 8 \<inter> bytes_at arr (8 + 8 * unat n) = {}"
    and "map (\<lambda>i. read_u64 m (arr + of_nat (8 + 8 * i))) [0..<unat n] = ls"
  shows "la_lists m this = ls \<and> la_ok m this"
proof -
  note a = la_lists_array [OF assms(1,2)]
  have l: "la_lists m this = ls" using a(3) assms(3,6) by (simp add: array_count_def)
  moreover have "length ls = unat n" using assms(6) by (metis length_map length_upt minus_nat.diff_0)
  ultimately show ?thesis using a assms(4,5) by (simp add: la_ok_def la_block_def)
qed

lemma words_at_cong: "\<forall>x\<in>bytes_at p (8 * n). m' x = m x \<Longrightarrow> words_at m' p n = words_at m p n"
  unfolding words_at_def
proof (rule map_cong [OF refl], rule read_on_bytes(2))
  fix i assume "\<forall>x\<in>bytes_at p (8 * n). m' x = m x" "i \<in> set [0..<n]"
  then show "bytes_at (p + of_nat (8 * i)) 8 \<subseteq> bytes_at p (8 * n)" by (intro bytes_at_mono) simp
qed

lemma array_words_cong:
  assumes "\<forall>x\<in>bytes_at b (8 + 8 * n). m' x = m x"
  shows "map (\<lambda>i. read_u64 m' (b + of_nat (8 + 8 * i))) [0..<n] = map (\<lambda>i. read_u64 m (b + of_nat (8 + 8 * i))) [0..<n]"
    and "read_u32 m' b = read_u32 m b"
proof -
  have "bytes_at (b + of_nat (8 + 8 * i)) 8 \<subseteq> bytes_at b (8 + 8 * n)" if "i < n" for i
    using that by (intro bytes_at_mono) simp
  then show "map (\<lambda>i. read_u64 m' (b + of_nat (8 + 8 * i))) [0..<n] = map (\<lambda>i. read_u64 m (b + of_nat (8 + 8 * i))) [0..<n]"
    using read_on_bytes(2) [OF assms] by simp
  show "read_u32 m' b = read_u32 m b" using read_on_bytes(1) [OF assms, of b] bytes_at_mono [of 0 4 "8 + 8 * n" b] by simp
qed

lemma attach_array_eq:
  assumes "la_room m this addedLists addedCount newArray" "la_hasArray m this" "addedCount \<noteq> 0"
  defines "arr \<equiv> la_array m this"
  shows "fst (attachLists this addedLists addedCount newArray m) = write_u64 this (newArray OR 1)
    (copy_words newArray (\<lambda>i. i) (\<lambda>i. addedLists + of_nat (8 * i)) [0..<unat addedCount]
      (copy_words newArray (\<lambda>i. i + unat addedCount) (\<lambda>i. arr + of_nat (8 + 8 * i)) (rev [0..<length (la_lists m this)])
        (write_u32 arr (array_count m arr + addedCount) (write_u32 newArray (array_count m arr + addedCount) m))))"
proof -
  have "length (la_lists m this) = unat (array_count m arr)"
    using assms(2) by (simp add: length_la_lists countLists_def arr_def)
  moreover have "length (la_lists m this) < 2 ^ 31" "length (la_lists m this) + unat addedCount < 2 ^ 32"
    using assms(1) by (simp_all add: la_room_def Let_def)
  ultimately show ?thesis using assms(2,3) copy_down_words [of "array_count m arr" addedCount]
    by (simp add: attachLists_def Let_def la_setArray_def copy_added_words arr_def)
qed

lemma attach_to_array:
  assumes ok: "la_ok m this" "la_room m this addedLists addedCount newArray" "la_hasArray m this" "addedCount \<noteq> 0"
  defines "m' \<equiv> fst (attachLists this addedLists addedCount newArray m)"
  shows "la_lists m' this = words_at m addedLists (unat addedCount) @ la_lists m this \<and> la_ok m' this"
proof -
  let ?arr = "la_array m this" and ?old = "length (la_lists m this)" and ?a = "unat addedCount"
  let ?n = "array_count m ?arr + addedCount" and ?B = "bytes_at newArray (8 + 8 * (?a + ?old))"
  let ?m1 = "write_u32 ?arr ?n (write_u32 newArray ?n m)"
  have r: "?old < 2 ^ 31" "?a + ?old < 2 ^ 32" "even (unat newArray)" "unat newArray + 8 + 8 * (?a + ?old) < 2 ^ 64"
    "bytes_at this 8 \<inter> ?B = {}" "bytes_at addedLists (8 * ?a) \<inter> ?B = {}" "la_block m this \<inter> ?B = {}"
    "la_block m this \<inter> bytes_at addedLists (8 * ?a) = {}"
    using ok(2) by (simp_all add: la_room_def Let_def)
  have old: "?old = unat (array_count m ?arr)" using ok(3) by (simp add: length_la_lists countLists_def)
  have n: "unat ?n = ?a + ?old" using r(2) old by (simp add: unat_word_ariths)
  have blk: "la_block m this = bytes_at ?arr (8 + 8 * ?old)" using ok(3) by (simp add: la_block_def)
  define m4 where "m4 = copy_words newArray (\<lambda>i. i) (\<lambda>i. addedLists + of_nat (8 * i)) [0..<?a]
    (copy_words newArray (\<lambda>i. i + ?a) (\<lambda>i. ?arr + of_nat (8 + 8 * i)) (rev [0..<?old]) ?m1)"
  have m': "m' = write_u64 this (newArray OR 1) m4"
    unfolding m'_def m4_def by (rule attach_array_eq [OF ok(2-4)])
  have disj: "bytes_at ?arr 4 \<subseteq> la_block m this" "bytes_at newArray 4 \<subseteq> ?B"
    using bytes_at_mono [of 0 4 "8 + 8 * ?old" ?arr] bytes_at_mono [of 0 4 "8 + 8 * (?a + ?old)" newArray] by (simp_all add: blk)
  have slot: "bytes_at (?arr + of_nat (8 + 8 * i)) 8 \<subseteq> la_block m this" if "i < ?old" for i
    unfolding blk using that by (intro bytes_at_mono) simp
  have add: "bytes_at (addedLists + of_nat (8 * i)) 8 \<subseteq> bytes_at addedLists (8 * ?a)" if "i < ?a" for i
    using that by (intro bytes_at_mono) simp
  have W: "\<forall>x\<in>S. ?m1 x = m x" if "bytes_at ?arr 4 \<inter> S = {}" "bytes_at newArray 4 \<inter> S = {}" for S
    using write_agrees(2) [OF that(1), of ?n "write_u32 newArray ?n m"] write_agrees(2) [OF that(2), of ?n m] by simp
  have A: "\<forall>x\<in>bytes_at addedLists (8 * ?a). ?m1 x = m x" using disj r(6,8) by (intro W) blast+
  have S: "read_u64 ?m1 (?arr + of_nat (8 + 8 * i)) = read_u64 m (?arr + of_nat (8 + 8 * i))" if "i < ?old" for i
  proof -
    have "bytes_at ?arr 4 \<inter> bytes_at (?arr + of_nat (8 + 8 * i)) 8 = {}"
      using bytes_at_disjoint [of 0 4 "8 + 8 * i" 8 ?arr] that r(1) by simp
    moreover have "bytes_at newArray 4 \<inter> bytes_at (?arr + of_nat (8 + 8 * i)) 8 = {}"
      using disj(2) slot [OF that] r(7) by blast
    ultimately show ?thesis by (rule read_on_bytes(2) [OF W order_refl])
  qed
  have "bytes_at ?arr 4 \<inter> bytes_at newArray 4 = {}" using disj r(7) by blast
  then have h: "read_u32 ?m1 newArray = ?n" using write_agrees(2) [of ?arr "bytes_at newArray 4"]
    read_on_bytes(1) [of "bytes_at newArray 4" ?m1 "write_u32 newArray ?n m" newArray] by simp
  have src: "\<forall>i<?old. bytes_at (?arr + of_nat (8 + 8 * i)) 8 \<inter> ?B = {}"
    "\<forall>i<?a. bytes_at (addedLists + of_nat (8 * i)) 8 \<inter> ?B = {}" using slot add r(6,7) by blast+
  have N: "8 + 8 * (?a + ?old) \<le> 2 ^ 64" using r(4) by simp
  note f = fill_array [OF refl N src, where m = ?m1, folded m4_def]
  note c = array_words_cong [OF write_agrees(1) [OF r(5), of "newArray OR 1" m4], folded m']
  show ?thesis
  proof (rule la_filled [OF r(3)])
    show "read_u64 m' this = newArray OR 1" by (simp add: m')
    show "read_u32 m' newArray = ?n" using c(2) f(2) h by simp
    show "map (\<lambda>i. read_u64 m' (newArray + of_nat (8 + 8 * i))) [0..<unat ?n] =
      words_at m addedLists ?a @ la_lists m this"
      unfolding n c(1) f(1) words_at_cong [OF A, unfolded words_at_def] words_at_def
      using S ok(3) old by (simp add: la_lists_def del: of_nat_add of_nat_mult)
  qed (use n r(4,5) in simp_all)
qed

text \<open>The added lists, copied into a block whose other slots are filled.\<close>

lemma add_to_block:
  fixes m :: memory
  assumes blk: "even (unat arr)" "unat arr + 8 + 8 * (unat addedCount + length old) < 2 ^ 64"
      "B = bytes_at arr (8 + 8 * (unat addedCount + length old))" "bytes_at this 8 \<inter> B = {}"
    and m: "read_u64 m this = arr OR 1" "unat (read_u32 m arr) = unat addedCount + length old"
      "\<forall>i<length old. read_u64 m (arr + of_nat (8 + 8 * (unat addedCount + i))) = old ! i"
    and A: "bytes_at addedLists (8 * unat addedCount) \<inter> B = {}"
  defines "m' \<equiv> copy_added addedLists arr addedCount m"
  shows "la_lists m' this = words_at m addedLists (unat addedCount) @ old \<and> la_ok m' this \<and> read_u64 m' this = arr OR 1"
proof -
  let ?a = "unat addedCount" and ?N = "8 + 8 * (unat addedCount + length old)"
  have N: "?N \<le> 2 ^ 64" using blk(2) by simp
  have js: "\<forall>j\<in>set [0..<?a]. 16 + 8 * j \<le> ?N" "distinct (map (\<lambda>i. i) [0..<?a])" by auto
  have src: "\<forall>j\<in>set [0..<?a]. bytes_at (addedLists + of_nat (8 * j)) 8 \<inter> B = {}"
  proof
    fix j assume "j \<in> set [0..<?a]"
    then have "bytes_at (addedLists + of_nat (8 * j)) 8 \<subseteq> bytes_at addedLists (8 * ?a)" by (intro bytes_at_mono) simp
    then show "bytes_at (addedLists + of_nat (8 * j)) 8 \<inter> B = {}" using A by blast
  qed
  note c = copy_into_block [OF blk(3) N js src, where m = m, folded copy_added_words m'_def]
  have "\<forall>x\<in>bytes_at this 8. m' x = m x" using c(1) blk(4) by blast
  then have t: "read_u64 m' this = arr OR 1" using read_on_bytes(2) [OF _ order_refl] m(1) by metis
  have h: "read_u32 m' arr = read_u32 m arr"
    using copy_words_header [OF js(1) N, of 0 arr _ m] by (simp add: m'_def copy_added_words)
  have "map (\<lambda>i. read_u64 m' (arr + of_nat (8 + 8 * i))) [0..<?a + length old] = words_at m addedLists ?a @ old"
  proof (rule nth_equalityI)
    fix k assume "k < length (map (\<lambda>i. read_u64 m' (arr + of_nat (8 + 8 * i))) [0..<?a + length old])"
    then show "map (\<lambda>i. read_u64 m' (arr + of_nat (8 + 8 * i))) [0..<?a + length old] ! k = (words_at m addedLists ?a @ old) ! k"
      using c(2) [of k] copy_words_other [OF js(1) N, of k arr "\<lambda>i. addedLists + of_nat (8 * i)" m] m(3) [rule_format, of "k - ?a"]
      by (cases "k < ?a") (simp_all add: nth_append words_at_def m'_def copy_added_words del: of_nat_add of_nat_mult)
  qed (simp add: words_at_def)
  then show ?thesis using la_filled [OF blk(1) t h] blk m(2) t by simp
qed

text \<open>The array of a field that had no array, before the added lists are copied.\<close>

definition start_array :: "u64 \<Rightarrow> u64 \<Rightarrow> nat \<Rightarrow> u64 list \<Rightarrow> memory \<Rightarrow> memory" where
  "start_array this arr a old m =
     (let m = write_u32 arr (of_nat (a + length old)) (write_u64 this (arr OR 1) m)
      in case old of [] \<Rightarrow> m | l # _ \<Rightarrow> write_u64 (arr + of_nat (8 + 8 * a)) l m)"

lemma start_array_spec:
  assumes old: "length old \<le> 1" "a + length old < 2 ^ 32" and B: "B = bytes_at arr (8 + 8 * (a + length old))"
    and disj: "bytes_at this 8 \<inter> B = {}" "bytes_at this 8 \<inter> A = {}" "A \<inter> B = {}"
  shows "read_u64 (start_array this arr a old m) this = arr OR 1"
    "unat (read_u32 (start_array this arr a old m) arr) = a + length old"
    "\<forall>i<length old. read_u64 (start_array this arr a old m) (arr + of_nat (8 + 8 * (a + i))) = old ! i"
    "\<forall>x\<in>A. start_array this arr a old m x = m x"
proof -
  let ?m1 = "write_u64 this (arr OR 1) m" and ?m3 = "start_array this arr a old m"
  let ?m2 = "write_u32 arr (of_nat (a + length old)) ?m1"
  have sub: "bytes_at arr 4 \<subseteq> B" "old \<noteq> [] \<Longrightarrow> bytes_at (arr + of_nat (8 + 8 * a)) 8 \<subseteq> B"
    using bytes_at_mono [of 0 4 "8 + 8 * (a + length old)" arr] bytes_at_mono [of "8 + 8 * a" 8 "8 + 8 * (a + length old)" arr]
    by (cases old; simp add: B)+
  have out: "\<forall>x\<in>S. ?m3 x = ?m1 x" if S: "S \<inter> B = {}" for S
  proof -
    have "bytes_at arr 4 \<inter> S = {}" "old \<noteq> [] \<Longrightarrow> bytes_at (arr + of_nat (8 + 8 * a)) 8 \<inter> S = {}" using sub S by blast+
    then show ?thesis using write_agrees(2) [of arr S "of_nat (a + length old)" ?m1]
        write_agrees(1) [of "arr + of_nat (8 + 8 * a)" S "hd old" ?m2]
      by (cases old) (simp_all add: start_array_def Let_def)
  qed
  show "read_u64 ?m3 this = arr OR 1" using read_on_bytes(2) [OF out [OF disj(1)] order_refl] by simp
  show "\<forall>x\<in>A. ?m3 x = m x" using out [OF disj(3)] write_agrees(1) [OF disj(2), of "arr OR 1" m] by simp
  have "read_u32 ?m3 arr = of_nat (a + length old)"
    using read_u32_offset [of 0 "8 + 8 * a" arr _ ?m2] old(2) by (cases old) (simp_all add: start_array_def Let_def)
  then show "unat (read_u32 ?m3 arr) = a + length old" using old(2) unat_of_nat_u32 [of "a + length old"] by simp
  show "\<forall>i<length old. read_u64 ?m3 (arr + of_nat (8 + 8 * (a + i))) = old ! i"
    using old(1) by (cases old) (simp_all add: start_array_def Let_def)
qed

lemma attach_list_eq:
  assumes ok: "la_room m this addedLists addedCount newArray" "\<not> la_hasArray m this"
    and many: "read_u64 m this \<noteq> nil \<or> addedCount \<noteq> 1" "addedCount \<noteq> 0"
  shows "fst (attachLists this addedLists addedCount newArray m) =
    copy_added addedLists newArray addedCount (start_array this newArray (unat addedCount) (la_lists m this) m)"
proof -
  let ?old = "la_lists m this" and ?a = "unat addedCount" and ?m1 = "write_u64 this (newArray OR 1) m"
  let ?B = "bytes_at newArray (8 + 8 * (?a + length ?old))"
  have r: "?a + length ?old < 2 ^ 32" "even (unat newArray)" "bytes_at this 8 \<inter> ?B = {}"
    using ok(1) by (simp_all add: la_room_def Let_def)
  have old: "?old = (if read_u64 m this \<noteq> nil then [read_u64 m this] else [])" using ok(2) by (simp add: la_lists_def)
  then have "length ?old \<le> 1" by simp
  note s = start_array_spec(1) [OF this r(1) refl r(3), of "{}" m]
  have "bytes_at newArray 4 \<inter> bytes_at this 8 = {}"
    using r(3) bytes_at_mono [of 0 4 "8 + 8 * (?a + length ?old)" newArray] by auto
  from write_agrees(2) [OF this] have "read_u64 (write_u32 newArray n ?m1) this = read_u64 ?m1 this" for n
    by (rule read_on_bytes(2)) simp
  then have "la_array ?m1 this = newArray" "la_array (write_u32 newArray n ?m1) this = newArray" for n
    using tag_even(2) [OF r(2)] by (simp_all add: la_array_def)
  moreover have "la_array (start_array this newArray ?a ?old m) this = newArray" using la_lists_array(2) [OF r(2) s] by simp
  moreover have "array_slot newArray addedCount = newArray + of_nat (8 + 8 * ?a)"
    using array_slot_at [of ?a newArray] r(1) by simp
  ultimately show ?thesis using ok(2) many
    by (auto simp: attachLists_def Let_def la_setArray_def old start_array_def add.commute)
qed

lemma attach_to_list:
  assumes ok: "la_room m this addedLists addedCount newArray" "\<not> la_hasArray m this"
    and many: "read_u64 m this \<noteq> nil \<or> addedCount \<noteq> 1" "addedCount \<noteq> 0"
  defines "m' \<equiv> fst (attachLists this addedLists addedCount newArray m)"
  shows "la_lists m' this = words_at m addedLists (unat addedCount) @ la_lists m this \<and> la_ok m' this \<and>
    read_u64 m' this = newArray OR 1"
proof -
  let ?old = "la_lists m this" and ?a = "unat addedCount"
  let ?B = "bytes_at newArray (8 + 8 * (?a + length ?old))" and ?A = "bytes_at addedLists (8 * ?a)"
  let ?m = "start_array this newArray ?a ?old m"
  have r: "?a + length ?old < 2 ^ 32" "even (unat newArray)" "unat newArray + 8 + 8 * (?a + length ?old) < 2 ^ 64"
    "bytes_at this 8 \<inter> ?B = {}" "?A \<inter> ?B = {}" "bytes_at this 8 \<inter> ?A = {}"
    using ok(1) by (simp_all add: la_room_def Let_def)
  have old: "?old = (if read_u64 m this \<noteq> nil then [read_u64 m this] else [])" using ok(2) by (simp add: la_lists_def)
  then have "length ?old \<le> 1" by simp
  note s = start_array_spec [OF this r(1) refl r(4,6,5), of m]
  have m': "m' = copy_added addedLists newArray addedCount ?m" unfolding m'_def by (rule attach_list_eq [OF ok many])
  show ?thesis
    using add_to_block [OF r(2,3) refl r(4) s(1-3) r(5)] words_at_cong [OF s(4)] by (simp add: m')
qed

lemma attachLists_spec:
  assumes ok: "la_ok m this" "la_room m this addedLists addedCount newArray"
  defines "m' \<equiv> fst (attachLists this addedLists addedCount newArray m)"
  shows "la_lists m' this = words_at m addedLists (unat addedCount) @ la_lists m this \<and> la_ok m' this"
proof -
  consider "addedCount = 0" | "addedCount \<noteq> 0" "la_hasArray m this"
    | "\<not> la_hasArray m this" "read_u64 m this = nil" "addedCount = 1"
    | "addedCount \<noteq> 0" "\<not> la_hasArray m this" "read_u64 m this \<noteq> nil \<or> addedCount \<noteq> 1" by blast
  then show ?thesis
  proof cases
    case 1
    then show ?thesis using ok(1) by (simp add: m'_def attachLists_def words_at_def)
  next
    case 2
    then show ?thesis using attach_to_array [OF ok] by (simp add: m'_def)
  next
    case 3
    let ?l = "read_u64 m addedLists"
    have "\<forall>l\<in>set (words_at m addedLists (unat addedCount)). l \<noteq> nil \<and> even (unat l)"
      using ok(2) by (simp add: la_room_def Let_def)
    then have l: "?l \<noteq> nil" "even (unat ?l)" using 3(3) by (simp_all add: words_at_def)
    have m': "m' = write_u64 this ?l m" using 3 by (simp add: m'_def attachLists_def)
    have "\<not> la_hasArray m' this"
      using even_word [OF l(2)] by (simp add: la_hasArray_def m' and_one_eq bit_0 mod_2_eq_odd)
    then show ?thesis using l(1) 3 by (simp add: la_lists_def la_ok_def la_block_def words_at_def m')
  next
    case 4
    then show ?thesis using attach_to_list [OF ok(2)] by (simp add: m'_def)
  qed
qed

text \<open>Nothing else changes.\<close>

lemma attachLists_frame:
  assumes ok: "la_room m this addedLists addedCount newArray"
    and x: "x \<notin> bytes_at this 8" "x \<notin> la_block m this"
      "x \<notin> bytes_at newArray (8 + 8 * (unat addedCount + length (la_lists m this)))"
  shows "fst (attachLists this addedLists addedCount newArray m) x = m x"
proof -
  let ?old = "length (la_lists m this)" and ?a = "unat addedCount"
  have N: "8 + 8 * (?a + ?old) \<le> 2 ^ 64" using ok by (simp add: la_room_def Let_def)
  then have out: "8 + 8 * (?a + ?old) \<le> unat (x - newArray)" using x(3) bytes_at_iff [OF N, of x newArray] by auto
  have nw: "write_u64 this v m x = m x" for v m using write_agrees(1) [of this "{x}" v m] x(1) by simp
  have na: "write_u32 newArray v m x = m x" for v m
    using write_agrees(2) [of newArray "{x}" v m] x(3) bytes_at_mono [of 0 4 "8 + 8 * (?a + ?old)" newArray] by auto
  have ns: "write_u64 (newArray + of_nat (8 + 8 * ?a)) v m x = m x" if "?old \<noteq> 0" for v m
    using write_agrees(1) [of "newArray + of_nat (8 + 8 * ?a)" "{x}" v m] x(3) that
      bytes_at_mono [of "8 + 8 * ?a" 8 "8 + 8 * (?a + ?old)" newArray] by (auto simp: Suc_le_eq)
  have js: "\<forall>j\<in>set (rev [0..<?old]). 16 + 8 * (j + ?a) \<le> 8 + 8 * (?a + ?old)" "\<forall>j\<in>set [0..<?a]. 16 + 8 * j \<le> 8 + 8 * (?a + ?old)"
    by auto
  note c = copy_words_outside [OF js(1) N out] copy_words_outside [OF js(2) N out]
  consider "addedCount = 0" | "addedCount \<noteq> 0" "la_hasArray m this"
    | "\<not> la_hasArray m this" "read_u64 m this = nil" "addedCount = 1"
    | "addedCount \<noteq> 0" "\<not> la_hasArray m this" "read_u64 m this \<noteq> nil \<or> addedCount \<noteq> 1" by blast
  then show ?thesis
  proof cases
    case 2
    then have "write_u32 (la_array m this) v m' x = m' x" for v m'
      using write_agrees(2) [of "la_array m this" "{x}" v m'] x(2) bytes_at_mono [of 0 4 "8 + 8 * ?old" "la_array m this"]
      by (auto simp: la_block_def)
    then show ?thesis unfolding attach_array_eq [OF ok 2(2,1)] by (simp only: nw na c)
  next
    case 4
    then have "start_array this newArray ?a (la_lists m this) m x = m x"
      using ns by (simp add: start_array_def Let_def nw na split: list.splits)
    then show ?thesis unfolding attach_list_eq [OF ok 4(2,3,1)] copy_added_words by (simp only: c)
  qed (simp_all add: attachLists_def nw)
qed

section \<open>Iterating\<close>

lemma words_at_Suc: "words_at m p (Suc n) = read_u64 m p # words_at m (p + 8) n"
  unfolding words_at_def map_upt_Suc by (simp add: algebra_simps)

lemma word_step_neq: "8 * n < 2 ^ 64 \<Longrightarrow> 0 < n \<Longrightarrow> p + of_nat (8 * n) \<noteq> (p :: u64)"
  using unat_of_nat_u64 [of "8 * n"] by (auto simp del: of_nat_mult)

lemma lists_loop_words: "8 * n < 2 ^ 64 \<Longrightarrow> lists_loop m p (p + of_nat (8 * n)) = Some (words_at m p n)"
proof (induction n arbitrary: p)
  case 0
  then show ?case by (subst lists_loop.simps) (simp add: words_at_def)
next
  case (Suc n)
  have e: "p + of_nat (8 * Suc n) = p + 8 + of_nat (8 * n)" by simp
  have "p \<noteq> p + of_nat (8 * Suc n)" using word_step_neq [of "Suc n" p] Suc.prems by simp
  then show ?case using Suc.IH [of "p + 8"] Suc.prems unfolding words_at_Suc e
    by (subst lists_loop.simps) simp
qed

lemma la_lists_words:
  "la_lists m this = words_at m (beginLists m this) (length (la_lists m this))"
  "endLists m this = beginLists m this + of_nat (8 * length (la_lists m this))"
proof -
  have s: "array_slot a 0 = a + 8" for a by (simp add: array_slot_def)
  show "la_lists m this = words_at m (beginLists m this) (length (la_lists m this))"
    by (auto simp: la_lists_def words_at_def beginLists_def s algebra_simps)
  show "endLists m this = beginLists m this + of_nat (8 * length (la_lists m this))"
    by (auto simp: endLists_def beginLists_def length_la_lists countLists_def array_slot_def)
qed

lemma lists_loop_lists: "lists_loop m (beginLists m this) (endLists m this) = Some (la_lists m this)"
proof -
  have "unat (countLists m this) < 2 ^ LENGTH(32)" by (rule unsigned_less)
  then have "8 * length (la_lists m this) < 2 ^ 64" by (simp add: length_la_lists)
  from lists_loop_words [OF this, of m "beginLists m this"] show ?thesis
    by (simp only: la_lists_words [symmetric])
qed

lemma la_count_loop_words:
  "8 * n < 2 ^ 64 \<Longrightarrow> la_count_loop m p (p + of_nat (8 * n)) r = Some (r + sum_list (map (list_count m) (words_at m p n)))"
proof (induction n arbitrary: p r)
  case 0
  then show ?case by (subst la_count_loop.simps) (simp add: words_at_def)
next
  case (Suc n)
  have e: "p + of_nat (8 * Suc n) = p + 8 + of_nat (8 * n)" by simp
  have "p \<noteq> p + of_nat (8 * Suc n)" using word_step_neq [of "Suc n" p] Suc.prems by simp
  then show ?case using Suc.IH [of "p + 8"] Suc.prems unfolding words_at_Suc e
    by (subst la_count_loop.simps) (simp add: add.assoc)
qed

lemma la_count_eq: "la_count m this = Some (sum_list (map (list_count m) (la_lists m this)))"
proof -
  have "unat (countLists m this) < 2 ^ LENGTH(32)" by (rule unsigned_less)
  then have "8 * length (la_lists m this) < 2 ^ 64" by (simp add: length_la_lists)
  from la_count_loop_words [OF this, of m "beginLists m this" 0] show ?thesis
    by (simp only: la_lists_words [symmetric] la_count_def add_0)
qed

text \<open>The element iterator goes through the lists in turn; each must have an element,
  since \<open>operator ++\<close> looks at the end of a list only after a step.\<close>

definition list_contents :: "list_kind \<Rightarrow> memory \<Rightarrow> u64 \<Rightarrow> u64 list" where
  "list_contents K m l = map (element_at K m l) [0..<unat (list_count m l)]"

definition la_at :: "list_kind \<Rightarrow> memory \<Rightarrow> u64 \<Rightarrow> u64 \<Rightarrow> nat \<Rightarrow> la_iterator" where
  "la_at K m p e k =
     \<lparr>it_lists = p, it_listsEnd = e, it_m = iter_at K m (read_u64 m p) k,
      it_mEnd = iter_at K m (read_u64 m p) (unat (list_count m (read_u64 m p)))\<rparr>"

context entsize_lists
begin

lemma iter_at_neq:
  assumes "list_ok K m l" "i \<le> unat (list_count m l)" "j \<le> unat (list_count m l)"
  shows "iter_neq (iter_at K m l i) (iter_at K m l j) \<longleftrightarrow> i \<noteq> j" "iter_eq (iter_at K m l i) (iter_at K m l j) \<longleftrightarrow> i = j"
  using element_at_less(2) [OF assms] by (simp_all add: iter_neq_def iter_eq_def iter_at_def)

lemma la_inc_at:
  assumes "list_ok K m (read_u64 m p)" "k < unat (list_count m (read_u64 m p))" "p \<noteq> e"
    and "p + 8 \<noteq> e \<Longrightarrow> list_ok K m (read_u64 m (p + 8))"
  shows "la_iter_inc K m (la_at K m p e k) =
    Inr (if Suc k < unat (list_count m (read_u64 m p)) then la_at K m p e (Suc k)
         else if p + 8 \<noteq> e then la_at K m (p + 8) e 0
         else (la_at K m p e (Suc k))\<lparr>it_lists := e\<rparr>)"
  using iter_at_neq [OF assms(1), of k "unat (list_count m (read_u64 m p))"]
    iter_at_neq [OF assms(1), of "Suc k" "unat (list_count m (read_u64 m p))"]
    iter_inc_at [OF assms(1,2)] list_begin_end assms
  by (auto simp: la_iter_inc_def la_at_def Let_def)

lemma la_loop_list:
  assumes "list_ok K m (read_u64 m p)" "p \<noteq> e" "p + 8 \<noteq> e \<Longrightarrow> list_ok K m (read_u64 m (p + 8))"
    and "it_lists it = e"
    and rest: "la_loop K m (if p + 8 \<noteq> e then la_at K m (p + 8) e 0
      else (la_at K m p e (unat (list_count m (read_u64 m p))))\<lparr>it_lists := e\<rparr>) it = Some (Inr r)"
    and "k < unat (list_count m (read_u64 m p))"
  shows "la_loop K m (la_at K m p e k) it =
    Some (Inr (map (element_at K m (read_u64 m p)) [k..<unat (list_count m (read_u64 m p))] @ r))"
  using assms(6)
proof (induction "unat (list_count m (read_u64 m p)) - k" arbitrary: k)
  case (Suc d)
  let ?c = "unat (list_count m (read_u64 m p))"
  have n: "la_iter_neq (la_at K m p e k) it" using assms(2,4) by (simp add: la_iter_neq_def la_at_def)
  have h: "iter_deref (it_m (la_at K m p e k)) = element_at K m (read_u64 m p) k"
    by (simp add: la_at_def iter_deref_def iter_at_def)
  note i = la_inc_at [OF assms(1) Suc.prems assms(2,3)]
  show ?case
  proof (cases "Suc k < ?c")
    case True
    then have "la_loop K m (la_at K m p e (Suc k)) it = Some (Inr (map (element_at K m (read_u64 m p)) [Suc k..<?c] @ r))"
      using Suc by (intro Suc.hyps(1)) auto
    then show ?thesis using n h i True upt_conv_Cons [OF Suc.prems] by (subst la_loop.simps) simp
  next
    case False
    then have "?c = Suc k" using Suc.prems by simp
    then show ?thesis using n h i rest by (subst la_loop.simps) (auto split: if_splits)
  qed
qed simp

lemma la_loop_words:
  assumes "8 * n < 2 ^ 64" "it_lists it = p + of_nat (8 * n)" "0 < n"
    and "\<forall>l\<in>set (words_at m p n). list_ok K m l \<and> 0 < list_count m l"
  shows "la_loop K m (la_at K m p (p + of_nat (8 * n)) 0) it = Some (Inr (concat (map (list_contents K m) (words_at m p n))))"
  using assms
proof (induction n arbitrary: p)
  case (Suc n)
  let ?e = "p + of_nat (8 * Suc n)"
  have e: "?e = p + 8 + of_nat (8 * n)" by simp
  have neq: "p \<noteq> ?e" using not_sym [OF word_step_neq [OF Suc.prems(1), of p]] by simp
  have l: "list_ok K m (read_u64 m p)" "0 < unat (list_count m (read_u64 m p))"
    using Suc.prems(4) by (simp_all add: words_at_Suc word_less_nat_alt)
  show ?case
  proof (cases "n = 0")
    case True
    have stop: "la_loop K m ((la_at K m p ?e k)\<lparr>it_lists := ?e\<rparr>) it = Some (Inr [])" for k
      using Suc.prems(2) by (subst la_loop.simps) (simp add: la_iter_neq_def la_at_def)
    have "p + 8 = ?e" using True by simp
    then show ?thesis using la_loop_list [OF l(1) neq _ Suc.prems(2), of "[]" 0] stop l(2) True
      by (simp add: words_at_Suc list_contents_def words_at_def)
  next
    case False
    then have n8: "p + 8 \<noteq> ?e" using word_step_neq [of n "p + 8"] Suc.prems(1) unfolding e by simp
    have "list_ok K m (read_u64 m (p + 8))"
      using Suc.prems(4) False by (cases n) (simp_all add: words_at_Suc)
    moreover have "la_loop K m (la_at K m (p + 8) ?e 0) it = Some (Inr (concat (map (list_contents K m) (words_at m (p + 8) n))))"
      unfolding e using Suc.prems False by (intro Suc.IH) (simp_all add: words_at_Suc)
    ultimately show ?thesis using la_loop_list [OF l(1) neq _ Suc.prems(2) _ l(2)] n8 l(2)
      by (simp add: words_at_Suc list_contents_def [of K m "read_u64 m p"])
  qed
qed simp

lemma la_elements:
  assumes "\<forall>l\<in>set (la_lists m this). list_ok K m l \<and> 0 < list_count m l"
  obtains it e where "la_begin K m undef this = Inr it" "la_end K m undef this = Inr e"
    "la_loop K m it e = Some (Inr (concat (map (list_contents K m) (la_lists m this))))"
proof -
  let ?p = "beginLists m this" and ?e = "endLists m this" and ?n = "length (la_lists m this)"
  let ?stop = "\<lparr>it_lists = ?e, it_listsEnd = ?e, it_m = undef, it_mEnd = undef\<rparr>"
  note w = la_lists_words [of m this]
  have "unat (countLists m this) < 2 ^ LENGTH(32)" by (rule unsigned_less)
  then have n: "8 * ?n < 2 ^ 64" by (simp add: length_la_lists)
  have e: "la_end K m undef this = Inr ?stop" by (simp add: la_end_def la_iterator_at_def Let_def)
  show thesis
  proof (cases "?n = 0")
    case True
    then have "?p = ?e" using w(2) by simp
    then have "la_begin K m undef this = Inr ?stop" by (simp add: la_begin_def la_iterator_at_def)
    moreover have "la_loop K m ?stop ?stop = Some (Inr [])" by (subst la_loop.simps) (simp add: la_iter_neq_def)
    ultimately show ?thesis using e True that by simp
  next
    case False
    then have neq: "?p \<noteq> ?e" unfolding w(2) using not_sym [OF word_step_neq [OF n, of ?p]] by simp
    obtain k where "?n = Suc k" using False by (cases ?n) auto
    then have "read_u64 m ?p \<in> set (la_lists m this)" by (subst w(1)) (simp add: words_at_Suc)
    then have "list_ok K m (read_u64 m ?p)" using assms by blast
    then have "la_begin K m undef this = Inr (la_at K m ?p ?e 0)"
      using neq list_begin_end by (simp add: la_begin_def la_iterator_at_def la_at_def)
    moreover have "la_loop K m (la_at K m ?p ?e 0) ?stop = Some (Inr (concat (map (list_contents K m) (la_lists m this))))"
      using la_loop_words [OF n, of ?stop ?p m] False assms w by simp
    ultimately show ?thesis using e that by blast
  qed
qed

end

end
