(* ===== verification/MethodLookup.thy ===== *)
theory MethodLookup
  imports ListArray ClassData Pointers
begin

text \<open>
  Finding a method (\<^verbatim>\<open>objc-runtime-new.mm\<close>: \<open>findMethodInSortedMethodList\<close> to
  \<open>getMethod_nolock\<close>; \<^verbatim>\<open>objc-runtime-new.h\<close>: the \<open>ro\<close>-or-\<open>ext\<close> word of \<open>class_rw_t\<close>).
  A sorted list is searched by bisection and then rewound to the first method
  of that name; other lists are searched from the start; the lists of a class
  are searched in order, and then those of its superclass.  Classes are read
  from memory; pointer signing is not modelled.
\<close>

section \<open>One list\<close>

partial_function (option) rewind ::
  "(u64 \<Rightarrow> fault + u64) \<Rightarrow> u64 \<Rightarrow> list_iterator \<Rightarrow> list_iterator \<Rightarrow> (fault + u64) option" where
  "rewind getName keyValue first cursor =
     (if iter_greater cursor first then
        case getName (iter_deref (iter_minus cursor 1)) of
          Inl f \<Rightarrow> Some (Inl f)
        | Inr name \<Rightarrow> if keyValue = name then rewind getName keyValue first (iter_dec cursor)
                      else Some (Inr (iter_deref cursor))
      else Some (Inr (iter_deref cursor)))"

lemma unat_half: "unat (drop_bit (Suc 0) (w :: u32)) = unat w div 2"
  by (simp add: unat_drop_bit_eq drop_bit_eq_div unat_div)

function sorted_loop ::
  "(u64 \<Rightarrow> fault + u64) \<Rightarrow> u64 \<Rightarrow> list_iterator \<Rightarrow> list_iterator \<Rightarrow> u32 \<Rightarrow> (fault + u64) option" where
  "sorted_loop getName keyValue first base count =
     (if count = 0 then Some (Inr nil)
      else let cursor = iter_plus base (ucast (drop_bit 1 count)) in
        case getName (iter_deref cursor) of
          Inl f \<Rightarrow> Some (Inl f)
        | Inr probeValue \<Rightarrow>
            if keyValue = probeValue then rewind getName keyValue first cursor
            else if keyValue > probeValue then
              sorted_loop getName keyValue first (iter_plus cursor 1) (drop_bit 1 (count - 1))
            else sorted_loop getName keyValue first base (drop_bit 1 count))"
  by pat_completeness auto

termination
proof (relation "measure (\<lambda>(getName, keyValue, first, base, count). unat count)", goal_cases)
  case (2 getName keyValue first base count)
  have "unat (count - 1) = unat count - 1" using 2 by (simp add: unat_minus_one)
  moreover have "0 < unat count" using 2 by (simp add: unat_gt_0)
  ultimately show ?case by (simp add: unat_half)
next
  case (3 getName keyValue first base count)
  then show ?case by (simp add: unat_half unat_gt_0)
qed simp_all

declare sorted_loop.simps [simp del]

definition findMethodInSortedMethodList_with ::
  "(u64 \<Rightarrow> fault + u64) \<Rightarrow> u64 \<Rightarrow> u64 \<Rightarrow> memory \<Rightarrow> (fault + u64) option" where
  "findMethodInSortedMethodList_with getName key list m =
     (case list_begin method_lists m list of
        Inl f \<Rightarrow> Some (Inl f)
      | Inr first \<Rightarrow> sorted_loop getName key first first (list_count m list))"

text \<open>The three ways to get at a name.\<close>

definition big_name :: "method_state \<Rightarrow> u64 \<Rightarrow> fault + u64" where
  "big_name st meth = bindE (method_big meth) (\<lambda>b. Inr (read_u64 (mem st) b))"

definition getName_for :: "method_env \<Rightarrow> u64 \<Rightarrow> method_state \<Rightarrow> u64 \<Rightarrow> fault + u64" where
  "getName_for E list st =
     (if isSmallList list st then
        if CONFIG_SHARED_CACHE_RELATIVE_DIRECT_SELECTORS E \<and> inSharedCache E list
        then (\<lambda>meth. getSmallNameAsSEL E meth st)
        else (\<lambda>meth. getSmallNameAsSELRef E meth st)
      else big_name st)"

definition findMethodInSortedMethodList :: "method_env \<Rightarrow> u64 \<Rightarrow> u64 \<Rightarrow> method_state \<Rightarrow> (fault + u64) option" where
  "findMethodInSortedMethodList E key list st =
     findMethodInSortedMethodList_with (getName_for E list st) key list (mem st)"

partial_function (option) unsorted_loop ::
  "(u64 \<Rightarrow> fault + u64) \<Rightarrow> u64 \<Rightarrow> list_iterator \<Rightarrow> list_iterator \<Rightarrow> (fault + u64) option" where
  "unsorted_loop getName sel it e =
     (if iter_neq it e then
        case getName (iter_deref it) of
          Inl f \<Rightarrow> Some (Inl f)
        | Inr name \<Rightarrow> if name = sel then Some (Inr (iter_deref it)) else unsorted_loop getName sel (iter_inc it) e
      else Some (Inr nil))"

definition findMethodInUnsortedMethodList_with ::
  "(u64 \<Rightarrow> fault + u64) \<Rightarrow> u64 \<Rightarrow> u64 \<Rightarrow> memory \<Rightarrow> (fault + u64) option" where
  "findMethodInUnsortedMethodList_with getName sel list m =
     (case bindE (list_begin method_lists m list) (\<lambda>b. bindE (list_end method_lists m list) (\<lambda>e. Inr (b, e))) of
        Inl f \<Rightarrow> Some (Inl f)
      | Inr (b, e) \<Rightarrow> unsorted_loop getName sel b e)"

definition findMethodInUnsortedMethodList :: "method_env \<Rightarrow> u64 \<Rightarrow> u64 \<Rightarrow> method_state \<Rightarrow> (fault + u64) option" where
  "findMethodInUnsortedMethodList E key list st =
     findMethodInUnsortedMethodList_with (getName_for E list st) key list (mem st)"

text \<open>Debug builds sanity-check a negative result of the bisection with a linear
  search; that changes no result and is left out.\<close>

definition search_method_list_inline :: "method_env \<Rightarrow> u64 \<Rightarrow> u64 \<Rightarrow> method_state \<Rightarrow> (fault + u64) option" where
  "search_method_list_inline E mlist sel st =
     (if isFixedUp mlist st \<and> isExpectedSize mlist st then findMethodInSortedMethodList E sel mlist st
      else findMethodInUnsortedMethodList E sel mlist st)"

text \<open>Whether one of the lists has one of the names.\<close>

fun any_found :: "(u64 \<Rightarrow> (fault + u64) option) \<Rightarrow> u64 list \<Rightarrow> (fault + bool) option" where
  "any_found search [] = Some (Inr False)"
| "any_found search (sel # sels) =
     (case search sel of
        None \<Rightarrow> None
      | Some (Inl f) \<Rightarrow> Some (Inl f)
      | Some (Inr meth) \<Rightarrow> if meth \<noteq> nil then Some (Inr True) else any_found search sels)"

partial_function (option) method_lists_contains_any ::
  "method_env \<Rightarrow> u64 \<Rightarrow> u64 \<Rightarrow> u64 list \<Rightarrow> method_state \<Rightarrow> (fault + bool) option" where
  "method_lists_contains_any E mlists e sels st =
     (if mlists < e then
        let mlist = read_u64 (mem st) mlists in
        Option.bind (any_found (\<lambda>sel. if isFixedUp mlist st \<and> entsize method_lists (mem st) mlist = bigSize
             then findMethodInSortedMethodList E sel mlist st else findMethodInUnsortedMethodList E sel mlist st) sels) (\<lambda>r.
          case r of
            Inl f \<Rightarrow> Some (Inl f)
          | Inr found \<Rightarrow> if found then Some (Inr True) else method_lists_contains_any E (mlists + 8) e sels st)
      else Some (Inr False))"

section \<open>The first method of a name\<close>

text \<open>What a search should return: the first element with the name, or \<open>nil\<close>.\<close>

definition first_method :: "memory \<Rightarrow> u64 \<Rightarrow> (nat \<Rightarrow> u64) \<Rightarrow> u64 \<Rightarrow> u64" where
  "first_method m list names key =
     (case find (\<lambda>i. names i = key) [0..<unat (list_count m list)] of
        None \<Rightarrow> nil | Some i \<Rightarrow> element_at method_lists m list i)"

text \<open>The names of a list, by index.\<close>

definition names_are :: "(u64 \<Rightarrow> fault + u64) \<Rightarrow> memory \<Rightarrow> u64 \<Rightarrow> (nat \<Rightarrow> u64) \<Rightarrow> bool" where
  "names_are getName m list names \<longleftrightarrow>
     (\<forall>i<unat (list_count m list). getName (element_at method_lists m list i) = Inr (names i))"

definition sorted_names :: "memory \<Rightarrow> u64 \<Rightarrow> (nat \<Rightarrow> u64) \<Rightarrow> bool" where
  "sorted_names m list names \<longleftrightarrow> (\<forall>i j. i \<le> j \<longrightarrow> j < unat (list_count m list) \<longrightarrow> names i \<le> names j)"

lemma sorted_namesD:
  "sorted_names m list names \<Longrightarrow> i \<le> j \<Longrightarrow> j < unat (list_count m list) \<Longrightarrow> names i \<le> names j"
  unfolding sorted_names_def by blast

lemma first_method_eq:
  assumes "j < unat (list_count m list)" "names j = key" "\<forall>k<j. names k \<noteq> key"
  shows "first_method m list names key = element_at method_lists m list j"
proof -
  have "find (\<lambda>i. names i = key) [0..<unat (list_count m list)] = Some j"
    using assms by (auto simp: find_Some_iff intro!: exI [of _ j])
  then show ?thesis by (simp add: first_method_def)
qed

lemma first_method_nil: "\<forall>k<unat (list_count m list). names k \<noteq> key \<Longrightarrow> first_method m list names key = nil"
proof -
  assume "\<forall>k<unat (list_count m list). names k \<noteq> key"
  then have "find (\<lambda>i. names i = key) [0..<unat (list_count m list)] = None" by (simp add: find_None_iff)
  then show ?thesis by (simp add: first_method_def)
qed

lemma rewind_at:
  assumes ok: "list_ok method_lists m list" "names_are getName m list names"
    and run: "\<forall>k. j \<le> k \<longrightarrow> k \<le> i \<longrightarrow> names k = key" "\<forall>k<j. names k \<noteq> key" "j \<le> i" "i < unat (list_count m list)"
  shows "rewind getName key (iter_at method_lists m list 0) (iter_at method_lists m list i) =
    Some (Inr (element_at method_lists m list j))"
  using run
proof (induction i)
  case 0
  then show ?case by (subst rewind.simps) (simp add: iter_greater_def iter_deref_def iter_at_def)
next
  case (Suc i)
  have g: "iter_greater (iter_at method_lists m list (Suc i)) (iter_at method_lists m list 0)"
    using methods.element_at_less(1) [OF ok(1), of 0 "Suc i"] Suc.prems(4) by (simp add: iter_greater_def iter_at_def)
  have d: "iter_dec (iter_at method_lists m list (Suc i)) = iter_at method_lists m list i"
    using methods.iter_dec_at [OF ok(1), of i] Suc.prems(4) by simp
  then have p: "iter_minus (iter_at method_lists m list (Suc i)) 1 = iter_at method_lists m list i"
    by (simp add: iter_minus_def iter_dec_def)
  have n: "getName (iter_deref (iter_at method_lists m list i)) = Inr (names i)"
    using ok(2) Suc.prems(4) by (simp add: names_are_def iter_deref_def iter_at_def)
  have e: "rewind getName key (iter_at method_lists m list 0) (iter_at method_lists m list (Suc i)) =
    (if key = names i then rewind getName key (iter_at method_lists m list 0) (iter_at method_lists m list i)
     else Some (Inr (element_at method_lists m list (Suc i))))"
    using g d p n by (subst rewind.simps) (simp add: iter_deref_def iter_at_def)
  show ?case
  proof (cases "j = Suc i")
    case True
    then have "names i \<noteq> key" using Suc.prems(2) by simp
    then show ?thesis using e True by auto
  next
    case False
    then have "j \<le> i" using Suc.prems(3) by simp
    then show ?thesis using e Suc by simp
  qed
qed

lemma rewind_first:
  assumes ok: "list_ok method_lists m list" "names_are getName m list names" "sorted_names m list names"
    and i: "i < unat (list_count m list)"
  shows "rewind getName (names i) (iter_at method_lists m list 0) (iter_at method_lists m list i) =
    Some (Inr (first_method m list names (names i)))"
proof -
  obtain j where j: "names j = names i" "j \<le> i" "\<forall>k<j. names k \<noteq> names i"
  proof
    show "names (LEAST k. names k = names i) = names i" by (rule LeastI) (rule refl)
    show "(LEAST k. names k = names i) \<le> i" by (rule Least_le) (rule refl)
    show "\<forall>k<LEAST k. names k = names i. names k \<noteq> names i" using not_less_Least by blast
  qed
  have run: "\<forall>k. j \<le> k \<longrightarrow> k \<le> i \<longrightarrow> names k = names i"
  proof (intro allI impI)
    fix k assume k: "j \<le> k" "k \<le> i"
    have "names j \<le> names k" by (rule sorted_namesD [OF ok(3) k(1) le_less_trans [OF k(2) i]])
    moreover have "names k \<le> names i" by (rule sorted_namesD [OF ok(3) k(2) i])
    ultimately show "names k = names i" unfolding j(1) by (rule order.antisym [symmetric])
  qed
  have "first_method m list names (names i) = element_at method_lists m list j"
    by (rule first_method_eq [OF le_less_trans [OF j(2) i] j(1,3)])
  then show ?thesis using rewind_at [OF ok(1,2) run j(3,2) i] by simp
qed

lemma sorted_loop_at:
  assumes ok: "list_ok method_lists m list" "names_are getName m list names" "sorted_names m list names"
    and inv: "b + unat count \<le> unat (list_count m list)"
      "\<forall>k<unat (list_count m list). names k = key \<longrightarrow> b \<le> k \<and> k < b + unat count"
  shows "sorted_loop getName key (iter_at method_lists m list 0) (iter_at method_lists m list b) count =
    Some (Inr (first_method m list names key))"
  using inv
proof (induction "unat count" arbitrary: b count rule: less_induct)
  case less
  let ?c = "unat (list_count m list)" and ?it = "iter_at method_lists m list"
  let ?p = "b + unat count div 2"
  show ?case
  proof (cases "count = 0")
    case True
    then have "first_method m list names key = nil" using less.prems(2) by (intro first_method_nil) auto
    then show ?thesis using True by (subst sorted_loop.simps) simp
  next
    case False
    have "unat count < 2 ^ LENGTH(32)" by (rule unsigned_less)
    then have "unat count div 2 < 2 ^ 64" by simp
    then have h: "ucast (drop_bit 1 count) = (of_nat (unat count div 2) :: u64)"
      by (simp add: word_unat_eq_iff unat_widen32 unat_half unat_of_nat_u64)
    have n: "0 < unat count" using False by (simp add: unat_gt_0)
    then have p: "?p < b + unat count" "?p < ?c" using less.prems(1) by linarith+
    have it: "iter_plus (?it b) (ucast (drop_bit 1 count)) = ?it ?p" "iter_plus (?it ?p) 1 = ?it (?p + 1)"
      using methods.iter_steps(1) [OF ok(1), of b "unat count div 2"] methods.iter_steps(1) [OF ok(1), of ?p 1] p by (simp_all add: h del: One_nat_def)
    have nm: "getName (iter_deref (?it ?p)) = Inr (names ?p)"
      using ok(2) p(2) by (simp add: names_are_def iter_deref_def iter_at_def)
    have srt: "names i \<le> names j" if "i \<le> j" "j < ?c" for i j by (rule sorted_namesD [OF ok(3) that])
    have e: "sorted_loop getName key (?it 0) (?it b) count =
      (if key = names ?p then rewind getName key (?it 0) (?it ?p)
       else if key > names ?p then sorted_loop getName key (?it 0) (?it (?p + 1)) (drop_bit 1 (count - 1))
       else sorted_loop getName key (?it 0) (?it b) (drop_bit 1 count))"
      using False it nm by (subst sorted_loop.simps) (simp add: Let_def del: One_nat_def)
    consider "key = names ?p" | "key > names ?p" | "key < names ?p" by force
    then show ?thesis
    proof cases
      case 1
      then show ?thesis using e rewind_first [OF ok p(2)] by simp
    next
      case 2
      have u: "unat (drop_bit 1 (count - 1)) = (unat count - 1) div 2" using False by (simp add: unat_half unat_minus_one)
      have ar: "?p + 1 + (unat count - 1) div 2 = b + unat count" "(unat count - 1) div 2 < unat count" using n by presburger+
      have k: "?p < k" if "k < ?c" "names k = key" for k using srt [of k ?p] p(2) 2 that by (meson not_le leD le_less_trans)
      have "sorted_loop getName key (?it 0) (?it (?p + 1)) (drop_bit 1 (count - 1)) = Some (Inr (first_method m list names key))"
      proof (rule less.hyps)
        show "\<forall>k<?c. names k = key \<longrightarrow> ?p + 1 \<le> k \<and> k < ?p + 1 + unat (drop_bit 1 (count - 1))"
          unfolding u ar(1) using less.prems(2) k by (simp add: Suc_le_eq)
      qed (use less.prems(1) ar in \<open>simp_all only: u\<close>)
      then show ?thesis using e 2 by auto
    next
      case 3
      have k: "k < ?p" if "k < ?c" "names k = key" for k using srt [of ?p k] that 3 by (meson not_le leD le_less_trans)
      have "sorted_loop getName key (?it 0) (?it b) (drop_bit 1 count) = Some (Inr (first_method m list names key))"
        using less.prems n k by (intro less.hyps) (auto simp: unat_half)
      then show ?thesis using e 3 by auto
    qed
  qed
qed

lemma unsorted_loop_at:
  assumes ok: "list_ok method_lists m list" "names_are getName m list names"
    and i: "i \<le> unat (list_count m list)" "\<forall>k<i. names k \<noteq> key"
  shows "unsorted_loop getName key (iter_at method_lists m list i) (iter_at method_lists m list (unat (list_count m list))) =
    Some (Inr (first_method m list names key))"
  using i
proof (induction "unat (list_count m list) - i" arbitrary: i)
  case 0
  then show ?case by (subst unsorted_loop.simps) (simp add: iter_neq_def first_method_nil)
next
  case (Suc d)
  let ?it = "iter_at method_lists m list"
  have i: "i < unat (list_count m list)" using Suc.hyps(2) by simp
  have "iter_neq (?it i) (?it (unat (list_count m list)))" using methods.iter_at_neq(1) [OF ok(1), of i] i by simp
  moreover have "getName (iter_deref (?it i)) = Inr (names i)"
    using ok(2) i by (simp add: names_are_def iter_deref_def iter_at_def)
  ultimately have e: "unsorted_loop getName key (?it i) (?it (unat (list_count m list))) =
    (if names i = key then Some (Inr (element_at method_lists m list i))
     else unsorted_loop getName key (?it (Suc i)) (?it (unat (list_count m list))))"
    using methods.iter_inc_at [OF ok(1) i] by (subst unsorted_loop.simps) (simp add: iter_deref_def iter_at_def)
  show ?case
  proof (cases "names i = key")
    case True
    then show ?thesis using e first_method_eq [OF i True Suc.prems(2)] by simp
  next
    case False
    then show ?thesis using e Suc i by (simp add: less_Suc_eq)
  qed
qed

lemma sorted_search:
  assumes "list_ok method_lists m list" "names_are getName m list names" "sorted_names m list names"
  shows "findMethodInSortedMethodList_with getName key list m = Some (Inr (first_method m list names key))"
  using sorted_loop_at [OF assms, of 0 "list_count m list" key] methods.list_begin_end(1) [OF assms(1)]
  by (simp add: findMethodInSortedMethodList_with_def)

lemma unsorted_search:
  assumes "list_ok method_lists m list" "names_are getName m list names"
  shows "findMethodInUnsortedMethodList_with getName key list m = Some (Inr (first_method m list names key))"
  using unsorted_loop_at [OF assms, of 0 key] methods.list_begin_end [OF assms(1)]
  by (simp add: findMethodInUnsortedMethodList_with_def)

text \<open>The names a list has.  Its methods and its header must agree on whether they are
  in the shared cache.\<close>

definition list_names :: "method_env \<Rightarrow> u64 \<Rightarrow> method_state \<Rightarrow> nat \<Rightarrow> u64" where
  "list_names E mlist st i =
     (case method_name E (element_at method_lists (mem st) mlist i) st of Inl _ \<Rightarrow> nil | Inr name \<Rightarrow> name)"

definition one_place :: "method_env \<Rightarrow> u64 \<Rightarrow> method_state \<Rightarrow> bool" where
  "one_place E mlist st \<longleftrightarrow> (\<forall>i<unat (list_count (mem st) mlist).
     small_inSharedCache E (element_at method_lists (mem st) mlist i AND NOT 1) = small_inSharedCache E mlist)"

lemma element_isSmall:
  assumes "list_ok method_lists (mem st) mlist" "i \<le> unat (list_count (mem st) mlist)"
  shows "method_isSmall (element_at method_lists (mem st) mlist i) \<longleftrightarrow> isSmallList mlist st"
proof -
  let ?m = "element_at method_lists (mem st) mlist i"
  obtain q where "unat mlist + 8 + i * unat (entsize method_lists (mem st) mlist) = 4 * q"
    using methods.place(2) [OF assms] by (elim dvdE)
  then have "unat ?m = 4 * q + (if isSmallList mlist st then 1 else 0)" using unat_method [OF assms] by simp
  then have "even (unat ?m) \<longleftrightarrow> \<not> isSmallList mlist st" by simp
  moreover have "odd (unat ?m) \<longleftrightarrow> bit ?m 0"
    unfolding bit_0 [of "unat ?m", symmetric] by (simp only: bit_unsigned_iff) simp
  ultimately show ?thesis by (auto simp: method_isSmall_def and_one_eq bit_0 mod_2_eq_odd)
qed

lemma getName_for_names:
  assumes "list_ok method_lists (mem st) mlist" "isSmallList mlist st \<longrightarrow> one_place E mlist st"
  shows "names_are (getName_for E mlist st) (mem st) mlist (list_names E mlist st)"
  unfolding names_are_def
proof (intro allI impI)
  fix i assume i: "i < unat (list_count (mem st) mlist)"
  have "method_isSmall (element_at method_lists (mem st) mlist i) \<longleftrightarrow> isSmallList mlist st"
    using element_isSmall [OF assms(1)] i by simp
  then show "getName_for E mlist st (element_at method_lists (mem st) mlist i) = Inr (list_names E mlist st i)"
    using assms(2) i
    by (auto simp: getName_for_def list_names_def method_name_def getSmallNameAsSEL_def getSmallNameAsSELRef_def big_name_def
        method_small_def method_big_def one_place_def small_inSharedCache_def)
qed

text \<open>Both searches find the same method, so a list may be marked as fixed up once it
  is sorted.\<close>

lemma search_method_list_first:
  assumes "list_ok method_lists (mem st) mlist" "isSmallList mlist st \<longrightarrow> one_place E mlist st"
    and "isFixedUp mlist st \<longrightarrow> sorted_names (mem st) mlist (list_names E mlist st)"
  shows "search_method_list_inline E mlist sel st =
    Some (Inr (first_method (mem st) mlist (list_names E mlist st) sel))"
  using sorted_search [OF assms(1) getName_for_names [OF assms(1,2)]]
    unsorted_search [OF assms(1) getName_for_names [OF assms(1,2)]] assms(3)
  by (simp add: search_method_list_inline_def findMethodInSortedMethodList_def findMethodInUnsortedMethodList_def)

end
