(* ===== verification/ClassLookup.thy ===== *)
theory ClassLookup
  imports MethodLookup
begin

text \<open>
  The writable part of a class and method lookup along the superclasses
  (\<^verbatim>\<open>objc-runtime-new.h\<close>: \<open>class_ro_t\<close>, \<open>class_rw_ext_t\<close>, \<open>class_rw_t\<close>;
  \<^verbatim>\<open>objc-runtime-new.mm\<close>: \<open>extAlloc\<close>, \<open>getMethodNoSuper_nolock\<close>,
  \<open>getMethod_nolock\<close>).  Structures are read from memory at the offsets of a
  64-bit build without pointer signing.  The callers hold \<open>runtimeLock\<close>.
\<close>

section \<open>Fields\<close>

definition class_superclass :: "memory \<Rightarrow> u64 \<Rightarrow> u64" where
  "class_superclass m cls = read_u64 m (cls + 8)"

definition class_data :: "memory \<Rightarrow> u64 \<Rightarrow> u64" where
  "class_data m cls = bits_data (read_u64 m (cls + 32))"

definition ro_flags_at :: "memory \<Rightarrow> u64 \<Rightarrow> u32" where
  "ro_flags_at m ro = read_u32 m ro"

definition baseMethods :: "memory \<Rightarrow> u64 \<Rightarrow> u64" where
  "baseMethods m ro = read_u64 m (ro + 32)"

definition baseProtocols :: "memory \<Rightarrow> u64 \<Rightarrow> u64" where
  "baseProtocols m ro = read_u64 m (ro + 40)"

definition baseProperties :: "memory \<Rightarrow> u64 \<Rightarrow> u64" where
  "baseProperties m ro = read_u64 m (ro + 64)"

text \<open>The arrays of a \<open>class_rw_ext_t\<close>.\<close>

definition ext_ro :: "memory \<Rightarrow> u64 \<Rightarrow> u64" where
  "ext_ro m rwe = read_u64 m rwe"

definition ext_methods :: "u64 \<Rightarrow> u64" where "ext_methods rwe = rwe + 8"
definition ext_properties :: "u64 \<Rightarrow> u64" where "ext_properties rwe = rwe + 16"
definition ext_protocols :: "u64 \<Rightarrow> u64" where "ext_protocols rwe = rwe + 24"

section \<open>\<open>class_rw_t\<close>\<close>

definition get_ro_or_rwe :: "memory \<Rightarrow> u64 \<Rightarrow> u64" where
  "get_ro_or_rwe m rw = read_u64 m (rw + 8)"

definition set_ro_or_rwe_ro :: "u64 \<Rightarrow> u64 \<Rightarrow> memory \<Rightarrow> memory" where
  "set_ro_or_rwe_ro ro rw m = write_u64 (rw + 8) (PointerUnion_T1 (\<lambda>p a. p) ro (rw + 8)) m"

definition set_ro_or_rwe :: "u64 \<Rightarrow> u64 \<Rightarrow> u64 \<Rightarrow> memory \<Rightarrow> memory" where
  "set_ro_or_rwe rwe ro rw m =
     write_u64 (rw + 8) (PointerUnion_T2 (\<lambda>p a. p) rwe (rw + 8)) (write_u64 rwe ro m)"

definition rw_ext :: "memory \<Rightarrow> u64 \<Rightarrow> fault + u64" where
  "rw_ext m rw = PointerUnion_dyn_cast (\<lambda>p a. p) PT2 (get_ro_or_rwe m rw) (rw + 8)"

definition rw_ro :: "memory \<Rightarrow> u64 \<Rightarrow> fault + u64" where
  "rw_ro m rw =
     (let v = get_ro_or_rwe m rw in
      if PointerUnion_is PT2 v then bindE (PointerUnion_get (\<lambda>p a. p) PT2 v (rw + 8)) (\<lambda>rwe. Inr (ext_ro m rwe))
      else PointerUnion_get (\<lambda>p a. p) PT1 v (rw + 8))"

definition set_ro :: "u64 \<Rightarrow> u64 \<Rightarrow> memory \<Rightarrow> fault + memory" where
  "set_ro ro rw m =
     (let v = get_ro_or_rwe m rw in
      if PointerUnion_is PT2 v then bindE (PointerUnion_get (\<lambda>p a. p) PT2 v (rw + 8)) (\<lambda>rwe. Inr (write_u64 rwe ro m))
      else Inr (set_ro_or_rwe_ro ro rw m))"

text \<open>The three accessors return a list array by value: its word.\<close>

definition rw_methods :: "memory \<Rightarrow> u64 \<Rightarrow> fault + u64" where
  "rw_methods m rw =
     (let v = get_ro_or_rwe m rw in
      if PointerUnion_is PT2 v
      then bindE (PointerUnion_get (\<lambda>p a. p) PT2 v (rw + 8)) (\<lambda>rwe. Inr (read_u64 m (ext_methods rwe)))
      else bindE (PointerUnion_get (\<lambda>p a. p) PT1 v (rw + 8)) (\<lambda>ro. Inr (baseMethods m ro)))"

definition rw_properties :: "memory \<Rightarrow> u64 \<Rightarrow> fault + u64" where
  "rw_properties m rw =
     (let v = get_ro_or_rwe m rw in
      if PointerUnion_is PT2 v
      then bindE (PointerUnion_get (\<lambda>p a. p) PT2 v (rw + 8)) (\<lambda>rwe. Inr (read_u64 m (ext_properties rwe)))
      else bindE (PointerUnion_get (\<lambda>p a. p) PT1 v (rw + 8)) (\<lambda>ro. Inr (baseProperties m ro)))"

definition rw_protocols :: "memory \<Rightarrow> u64 \<Rightarrow> fault + u64" where
  "rw_protocols m rw =
     (let v = get_ro_or_rwe m rw in
      if PointerUnion_is PT2 v
      then bindE (PointerUnion_get (\<lambda>p a. p) PT2 v (rw + 8)) (\<lambda>rwe. Inr (read_u64 m (ext_protocols rwe)))
      else bindE (PointerUnion_get (\<lambda>p a. p) PT1 v (rw + 8)) (\<lambda>ro. Inr (baseProtocols m ro)))"

section \<open>Allocating the extension\<close>

text \<open>The addresses come from outside: \<open>rwe\<close> and \<open>dup\<close> from the allocator, \<open>local\<close> is
  that of a variable on the stack.  Attaching one list to an empty array does
  not allocate.\<close>

text \<open>The locals \<open>list\<close>, \<open>proplist\<close> and \<open>protolist\<close>, each of which lives in its own
  block, share one stack slot.\<close>

definition attach_base :: "u64 \<Rightarrow> u64 \<Rightarrow> u64 \<Rightarrow> memory \<Rightarrow> memory" where
  "attach_base field local list m =
     (let m = write_u64 local list m in if list \<noteq> nil then fst (attachLists field local 1 nil m) else m)"

definition extAlloc :: "method_env \<Rightarrow> u64 \<Rightarrow> u64 \<Rightarrow> bool \<Rightarrow> u64 \<Rightarrow> u64 \<Rightarrow> u64 \<Rightarrow> method_state \<Rightarrow> fault + method_state option" where
  "extAlloc E rw ro deepCopy rwe dup local st =
     (let st = st\<lparr>mem := zero_bytes rwe 48 (mem st)\<rparr>;
          st = st\<lparr>mem := write_u32 (rwe + 40) (if ro_flags_at (mem st) ro AND RO_META \<noteq> 0 then 7 else 0) (mem st)\<rparr>;
          list = baseMethods (mem st) ro
      in bindE (if list \<noteq> nil \<and> deepCopy then method_list_duplicate E list dup st else Inr (Some st)) (\<lambda>r. Inr (map_option (\<lambda>st.
         let m = attach_base (ext_methods rwe) local (if list \<noteq> nil \<and> deepCopy then dup else list) (mem st);
             m = attach_base (ext_properties rwe) local (baseProperties m ro) m;
             m = attach_base (ext_protocols rwe) local (baseProtocols m ro) m
         in st\<lparr>mem := set_ro_or_rwe rwe ro rw m\<rparr>) r)))"

text \<open>The result is the extension and the state.\<close>

definition extAllocIfNeeded ::
  "method_env \<Rightarrow> u64 \<Rightarrow> u64 \<Rightarrow> u64 \<Rightarrow> u64 \<Rightarrow> method_state \<Rightarrow> fault + (u64 \<times> method_state) option" where
  "extAllocIfNeeded E rw rwe dup local st =
     (let v = get_ro_or_rwe (mem st) rw in
      if PointerUnion_is PT2 v
      then bindE (PointerUnion_get (\<lambda>p a. p) PT2 v (rw + 8)) (\<lambda>ext. Inr (Some (ext, st)))
      else bindE (PointerUnion_get (\<lambda>p a. p) PT1 v (rw + 8)) (\<lambda>ro.
           bindE (extAlloc E rw ro False rwe dup local st) (\<lambda>r. Inr (map_option (\<lambda>st. (rwe, st)) r))))"

definition deepCopy :: "method_env \<Rightarrow> u64 \<Rightarrow> u64 \<Rightarrow> u64 \<Rightarrow> u64 \<Rightarrow> u64 \<Rightarrow> method_state \<Rightarrow> fault + method_state option" where
  "deepCopy E rw ro rwe dup local st = extAlloc E rw ro True rwe dup local st"

section \<open>Lookup\<close>

text \<open>What the flag operations of a class read, at its place in memory.\<close>

definition class_realized :: "memory \<Rightarrow> u64 \<Rightarrow> bool" where
  "class_realized m cls \<longleftrightarrow>
     \<not> (1 \<le> read_u64 m cls \<and> read_u64 m cls < 16) \<and> read_u32 m (class_data m cls) AND RW_REALIZED \<noteq> 0"

partial_function (option) no_super_loop ::
  "method_env \<Rightarrow> u64 \<Rightarrow> method_state \<Rightarrow> memory \<Rightarrow> u64 \<Rightarrow> u64 \<Rightarrow> (fault + u64) option" where
  "no_super_loop E sel st m mlists e =
     (if mlists \<noteq> e then
        Option.bind (search_method_list_inline E (read_u64 m mlists) sel st) (\<lambda>r.
          case r of
            Inl f \<Rightarrow> Some (Inl f)
          | Inr meth \<Rightarrow> if meth \<noteq> nil then Some (Inr meth) else no_super_loop E sel st m (mlists + 8) e)
      else Some (Inr nil))"

text \<open>\<open>methods\<close> is a local variable; nothing else reads the word at \<open>local\<close>.\<close>

definition getMethodNoSuper_nolock ::
  "method_env \<Rightarrow> u64 \<Rightarrow> u64 \<Rightarrow> u64 \<Rightarrow> method_state \<Rightarrow> (fault + u64) option" where
  "getMethodNoSuper_nolock E local cls sel st =
     (if \<not> class_realized (mem st) cls then Some (Inl AssertFailed)
      else case rw_methods (mem st) (class_data (mem st) cls) of
        Inl f \<Rightarrow> Some (Inl f)
      | Inr w \<Rightarrow> let m = la_init local w (mem st) in
          no_super_loop E sel st m (beginLists m local) (endLists m local))"

partial_function (option) super_loop ::
  "method_env \<Rightarrow> u64 \<Rightarrow> u64 \<Rightarrow> method_state \<Rightarrow> u64 \<Rightarrow> (fault + u64) option" where
  "super_loop E local sel st cls =
     (if cls = nil then Some (Inr nil)
      else Option.bind (getMethodNoSuper_nolock E local cls sel st) (\<lambda>r.
        case r of
          Inl f \<Rightarrow> Some (Inl f)
        | Inr meth \<Rightarrow> if meth \<noteq> nil then Some (Inr meth) else super_loop E local sel st (class_superclass (mem st) cls)))"

definition getMethod_nolock ::
  "method_env \<Rightarrow> u64 \<Rightarrow> u64 \<Rightarrow> u64 \<Rightarrow> method_state \<Rightarrow> (fault + u64) option" where
  "getMethod_nolock E local cls sel st =
     (if cls = nil then Some (Inl NullDereference)
      else if \<not> class_realized (mem st) cls then Some (Inl AssertFailed)
      else super_loop E local sel st cls)"

section \<open>What lookup finds\<close>

text \<open>The lists that the word of a list array stands for.\<close>

definition word_block :: "memory \<Rightarrow> u64 \<Rightarrow> u64 set" where
  "word_block m w = (if w AND 1 \<noteq> 0 then bytes_at (w AND NOT 1) (8 + 8 * unat (array_count m (w AND NOT 1))) else {})"

definition word_lists :: "memory \<Rightarrow> u64 \<Rightarrow> u64 list" where
  "word_lists m w =
     (if w AND 1 \<noteq> 0 then map (\<lambda>i. read_u64 m ((w AND NOT 1) + of_nat (8 + 8 * i))) [0..<unat (array_count m (w AND NOT 1))]
      else if w \<noteq> nil then [w] else [])"

lemma la_lists_word: "la_lists m this = word_lists m (read_u64 m this)"
  by (simp add: la_lists_def word_lists_def la_hasArray_def la_array_def)

lemma word_lists_cong:
  assumes "\<forall>x\<in>word_block m w. m' x = m x"
  shows "word_lists m' w = word_lists m w"
proof (cases "w AND 1 \<noteq> 0")
  case True
  then have "\<forall>x\<in>bytes_at (w AND NOT 1) (8 + 8 * unat (array_count m (w AND NOT 1))). m' x = m x"
    using assms by (simp add: word_block_def)
  note c = array_words_cong [OF this]
  then have "array_count m' (w AND NOT 1) = array_count m (w AND NOT 1)" by (simp only: array_count_def)
  then show ?thesis unfolding word_lists_def if_P [OF True] using c(1) by simp
qed (simp add: word_lists_def)

lemma la_init_lists:
  assumes "bytes_at local 8 \<inter> word_block m w = {}"
  shows "la_lists (la_init local w m) local = word_lists m w"
  using word_lists_cong [OF write_agrees(1) [OF assms, of w m]] by (simp add: la_lists_word la_init_def)

definition class_lists :: "memory \<Rightarrow> u64 \<Rightarrow> u64 list" where
  "class_lists m cls = (case rw_methods m (class_data m cls) of Inl _ \<Rightarrow> [] | Inr w \<Rightarrow> word_lists m w)"

text \<open>All methods of a class in the order of its lists, and the first of a name.\<close>

definition methods_of :: "memory \<Rightarrow> u64 list \<Rightarrow> u64 list" where
  "methods_of m ls = concat (map (list_contents method_lists m) ls)"

definition first_named :: "method_env \<Rightarrow> method_state \<Rightarrow> u64 \<Rightarrow> u64 list \<Rightarrow> u64" where
  "first_named E st sel ms = (case find (\<lambda>meth. method_name E meth st = Inr sel) ms of None \<Rightarrow> nil | Some meth \<Rightarrow> meth)"

lemma find_append: "find P (xs @ ys) = (case find P xs of None \<Rightarrow> find P ys | Some x \<Rightarrow> Some x)"
  by (induction xs) auto

lemma find_map: "find P (map f xs) = map_option f (find (\<lambda>x. P (f x)) xs)"
  by (induction xs) auto

lemma first_named_append:
  assumes "nil \<notin> set ms"
  shows "first_named E st sel (ms @ ns) = (if first_named E st sel ms \<noteq> nil then first_named E st sel ms else first_named E st sel ns)"
proof (cases "find (\<lambda>meth. method_name E meth st = Inr sel) ms")
  case (Some meth)
  then have "meth \<in> set ms" by (auto simp: find_Some_iff)
  then show ?thesis using Some assms by (auto simp: first_named_def find_append)
qed (simp add: first_named_def find_append)

lemma method_name_total: "\<exists>n. method_name E meth st = Inr n"
  by (simp add: method_name_def method_small_def method_big_def)

lemma first_method_named:
  "first_method (mem st) l (list_names E l st) sel = first_named E st sel (list_contents method_lists (mem st) l)"
proof -
  have "list_names E l st i = sel \<longleftrightarrow> method_name E (element_at method_lists (mem st) l i) st = Inr sel" for i
    using method_name_total [of E "element_at method_lists (mem st) l i" st] by (auto simp: list_names_def)
  then show ?thesis
    by (simp add: first_method_def first_named_def list_contents_def find_map split: option.splits)
qed

lemma contents_not_nil: "list_ok method_lists m l \<Longrightarrow> nil \<notin> set (list_contents method_lists m l)"
proof
  assume ok: "list_ok method_lists m l" and "nil \<in> set (list_contents method_lists m l)"
  then obtain i where "i < unat (list_count m l)" "element_at method_lists m l i = nil" by (auto simp: list_contents_def)
  then show False using methods.unat_element_at [OF ok, of i] by simp
qed

definition list_searchable :: "method_env \<Rightarrow> method_state \<Rightarrow> u64 \<Rightarrow> bool" where
  "list_searchable E st l \<longleftrightarrow> list_ok method_lists (mem st) l \<and> (isSmallList l st \<longrightarrow> one_place E l st) \<and>
     (isFixedUp l st \<longrightarrow> sorted_names (mem st) l (list_names E l st))"

lemma search_searchable:
  "list_searchable E st l \<Longrightarrow>
    search_method_list_inline E l sel st = Some (Inr (first_named E st sel (list_contents method_lists (mem st) l)))"
  using search_method_list_first [of st l E sel] by (simp add: list_searchable_def first_method_named)

lemma no_super_loop_words:
  assumes "8 * n < 2 ^ 64" "\<forall>l\<in>set (words_at m p n). list_searchable E st l"
  shows "no_super_loop E sel st m p (p + of_nat (8 * n)) = Some (Inr (first_named E st sel (methods_of (mem st) (words_at m p n))))"
  using assms
proof (induction n arbitrary: p)
  case 0
  then show ?case by (subst no_super_loop.simps) (simp add: words_at_def methods_of_def first_named_def)
next
  case (Suc n)
  have e: "p + of_nat (8 * Suc n) = p + 8 + of_nat (8 * n)" by simp
  have neq: "p \<noteq> p + of_nat (8 * Suc n)" using not_sym [OF word_step_neq [OF Suc.prems(1), of p]] by simp
  have l: "list_searchable E st (read_u64 m p)" using Suc.prems(2) by (simp add: words_at_Suc)
  then have ok: "nil \<notin> set (list_contents method_lists (mem st) (read_u64 m p))"
    by (simp add: list_searchable_def contents_not_nil)
  have "no_super_loop E sel st m (p + 8) (p + of_nat (8 * Suc n)) =
      Some (Inr (first_named E st sel (methods_of (mem st) (words_at m (p + 8) n))))"
    unfolding e using Suc.prems by (intro Suc.IH) (simp_all add: words_at_Suc)
  then show ?case using search_searchable [OF l, of sel] neq first_named_append [OF ok]
    by (subst no_super_loop.simps) (simp add: words_at_Suc methods_of_def)
qed

lemma first_named_nil:
  assumes "nil \<notin> set ms"
  shows "first_named E st sel ms \<noteq> nil \<longleftrightarrow> (\<exists>meth\<in>set ms. method_name E meth st = Inr sel)"
proof (cases "find (\<lambda>meth. method_name E meth st = Inr sel) ms")
  case None
  then have "\<not> (\<exists>meth\<in>set ms. method_name E meth st = Inr sel)" by (auto simp: find_None_iff)
  then show ?thesis using None by (simp add: first_named_def)
next
  case (Some meth)
  then have "meth \<in> set ms" "method_name E meth st = Inr sel" by (auto simp: find_Some_iff)
  then show ?thesis using Some assms by (auto simp: first_named_def)
qed

lemma any_found_eq: "(\<And>sel. search sel = Some (Inr (f sel))) \<Longrightarrow> any_found search sels = Some (Inr (\<exists>sel\<in>set sels. f sel \<noteq> nil))"
  by (induction sels) auto

lemma contains_any_words:
  assumes "unat p + 8 * n < 2 ^ 64" "\<forall>l\<in>set (words_at (mem st) p n). list_searchable E st l"
  shows "method_lists_contains_any E p (p + of_nat (8 * n)) sels st =
    Some (Inr (\<exists>sel\<in>set sels. \<exists>meth\<in>set (methods_of (mem st) (words_at (mem st) p n)). method_name E meth st = Inr sel))"
  using assms
proof (induction n arbitrary: p)
  case 0
  then show ?case by (subst method_lists_contains_any.simps) (simp add: words_at_def methods_of_def)
next
  case (Suc n)
  let ?l = "read_u64 (mem st) p" and ?e = "p + of_nat (8 * Suc n)"
  have e: "?e = p + 8 + of_nat (8 * n)" by simp
  have "unat (of_nat (8 * Suc n) :: u64) = 8 * Suc n" using Suc.prems(1) by (intro unat_of_nat_u64) simp
  then have "unat ?e = unat p + 8 * Suc n" using Suc.prems(1) by (subst unat_add_nowrap_u64) (simp_all only:)
  then have lt: "p < ?e" by (simp add: word_less_nat_alt)
  have p8: "unat (p + 8) = unat p + 8" using Suc.prems(1) by (subst unat_add_nowrap_u64) simp_all
  have l: "list_searchable E st ?l" using Suc.prems(2) by (simp add: words_at_Suc)
  then have ok: "list_ok method_lists (mem st) ?l" "isSmallList ?l st \<longrightarrow> one_place E ?l st"
    "isFixedUp ?l st \<longrightarrow> sorted_names (mem st) ?l (list_names E ?l st)" by (simp_all add: list_searchable_def)
  have "(if isFixedUp ?l st \<and> entsize method_lists (mem st) ?l = bigSize
      then findMethodInSortedMethodList E sel ?l st else findMethodInUnsortedMethodList E sel ?l st) =
      Some (Inr (first_named E st sel (list_contents method_lists (mem st) ?l)))" for sel
    using sorted_search [OF ok(1) getName_for_names [OF ok(1,2)]] unsorted_search [OF ok(1) getName_for_names [OF ok(1,2)]] ok(3)
    by (simp add: findMethodInSortedMethodList_def findMethodInUnsortedMethodList_def first_method_named)
  note f = any_found_eq [OF this, where sels = sels, unfolded first_named_nil [OF contents_not_nil [OF ok(1)]]]
  have "method_lists_contains_any E (p + 8) ?e sels st = Some (Inr (\<exists>sel\<in>set sels.
      \<exists>meth\<in>set (methods_of (mem st) (words_at (mem st) (p + 8) n)). method_name E meth st = Inr sel))"
    unfolding e using Suc.prems p8 by (intro Suc.IH) (simp_all add: words_at_Suc)
  then show ?case using lt f by (subst method_lists_contains_any.simps) (auto simp: Let_def words_at_Suc methods_of_def)
qed

text \<open>A realized class whose lists can be searched, and whose array does not hold the
  local variable.\<close>

definition class_searchable :: "method_env \<Rightarrow> u64 \<Rightarrow> method_state \<Rightarrow> u64 \<Rightarrow> bool" where
  "class_searchable E local st cls \<longleftrightarrow> class_realized (mem st) cls \<and>
     (case rw_methods (mem st) (class_data (mem st) cls) of
        Inl _ \<Rightarrow> False
      | Inr w \<Rightarrow> bytes_at local 8 \<inter> word_block (mem st) w = {} \<and> (\<forall>l\<in>set (word_lists (mem st) w). list_searchable E st l))"

lemma getMethodNoSuper_first:
  assumes "class_searchable E local st cls"
  shows "getMethodNoSuper_nolock E local cls sel st =
    Some (Inr (first_named E st sel (methods_of (mem st) (class_lists (mem st) cls))))"
proof -
  obtain w where w: "class_realized (mem st) cls" "rw_methods (mem st) (class_data (mem st) cls) = Inr w"
    "bytes_at local 8 \<inter> word_block (mem st) w = {}" "\<forall>l\<in>set (word_lists (mem st) w). list_searchable E st l"
    using assms by (auto simp: class_searchable_def split: sum.splits)
  let ?m = "la_init local w (mem st)"
  have l: "la_lists ?m local = word_lists (mem st) w" by (rule la_init_lists [OF w(3)])
  have "unat (countLists ?m local) < 2 ^ LENGTH(32)" by (rule unsigned_less)
  then have n: "8 * length (la_lists ?m local) < 2 ^ 64" by (simp add: length_la_lists)
  have "\<forall>l\<in>set (words_at ?m (beginLists ?m local) (length (la_lists ?m local))). list_searchable E st l"
    using w(4) l la_lists_words(1) [of ?m local] by simp
  from no_super_loop_words [OF n this, of sel]
  have "no_super_loop E sel st ?m (beginLists ?m local) (endLists ?m local) =
      Some (Inr (first_named E st sel (methods_of (mem st) (word_lists (mem st) w))))"
    unfolding la_lists_words [of ?m local, symmetric] unfolding l .
  then show ?thesis using w(1,2) by (simp add: getMethodNoSuper_nolock_def Let_def class_lists_def)
qed

text \<open>The chain of superclasses.\<close>

primrec superchain :: "memory \<Rightarrow> u64 \<Rightarrow> u64 list \<Rightarrow> bool" where
  "superchain m cls [] \<longleftrightarrow> cls = nil"
| "superchain m cls (c # cs) \<longleftrightarrow> cls \<noteq> nil \<and> cls = c \<and> superchain m (class_superclass m c) cs"

lemma methods_of_not_nil: "\<forall>l\<in>set ls. list_searchable E st l \<Longrightarrow> nil \<notin> set (methods_of (mem st) ls)"
  by (auto simp: methods_of_def list_searchable_def dest!: contents_not_nil)

lemma super_loop_first:
  assumes "superchain (mem st) cls cs" "\<forall>c\<in>set cs. class_searchable E local st c"
  shows "super_loop E local sel st cls =
    Some (Inr (first_named E st sel (concat (map (\<lambda>c. methods_of (mem st) (class_lists (mem st) c)) cs))))"
  using assms
proof (induction cs arbitrary: cls)
  case Nil
  then show ?case by (subst super_loop.simps) (simp add: first_named_def)
next
  case (Cons c cs)
  have c: "class_searchable E local st c" "cls = c" "cls \<noteq> nil" using Cons.prems by auto
  then have "nil \<notin> set (methods_of (mem st) (class_lists (mem st) c))"
    by (intro methods_of_not_nil [of _ E]) (auto simp: class_searchable_def class_lists_def split: sum.splits)
  note app = first_named_append [OF this]
  show ?case using Cons.IH [of "class_superclass (mem st) c"] Cons.prems getMethodNoSuper_first [OF c(1), of sel] c app
    by (subst super_loop.simps) simp
qed

lemma getMethod_first:
  assumes "superchain (mem st) cls cs" "cls \<noteq> nil" "\<forall>c\<in>set cs. class_searchable E local st c"
  shows "getMethod_nolock E local cls sel st =
    Some (Inr (first_named E st sel (concat (map (\<lambda>c. methods_of (mem st) (class_lists (mem st) c)) cs))))"
proof -
  have "class_searchable E local st cls" using assms by (cases cs) auto
  then show ?thesis using super_loop_first [OF assms(1,3)] assms(2) by (simp add: getMethod_nolock_def class_searchable_def)
qed

section \<open>The extension keeps what the class has\<close>

lemma attach_base_eq:
  assumes "read_u64 m field = nil" "bytes_at field 8 \<inter> bytes_at local 8 = {}"
  shows "attach_base field local list m =
    (if list \<noteq> nil then write_u64 field list (write_u64 local list m) else write_u64 local list m)"
proof -
  have "\<forall>x\<in>bytes_at field 8. write_u64 local list m x = m x" using assms(2) by (intro write_agrees(1)) blast
  from read_on_bytes(2) [OF this order_refl] have "read_u64 (write_u64 local list m) field = nil" using assms(1) by simp
  then show ?thesis by (simp add: attach_base_def attachLists_def la_hasArray_def Let_def)
qed

lemma attach_base_spec:
  assumes "read_u64 m field = nil" "bytes_at field 8 \<inter> bytes_at local 8 = {}"
  shows "read_u64 (attach_base field local list m) field = list"
    and "S \<inter> bytes_at field 8 = {} \<Longrightarrow> S \<inter> bytes_at local 8 = {} \<Longrightarrow> \<forall>x\<in>S. attach_base field local list m x = m x"
proof -
  have l: "\<forall>x\<in>S. write_u64 local list m x = m x" if "S \<inter> bytes_at local 8 = {}" for S
    using that by (intro write_agrees(1)) blast
  have f: "\<forall>x\<in>S. write_u64 field list m' x = m' x" if "S \<inter> bytes_at field 8 = {}" for S m'
    using that by (intro write_agrees(1)) blast
  show "read_u64 (attach_base field local list m) field = list"
    using attach_base_eq [OF assms, of list] read_on_bytes(2) [OF l [OF assms(2)] order_refl] assms(1) by (cases "list = nil") simp_all
  show "\<forall>x\<in>S. attach_base field local list m x = m x" if "S \<inter> bytes_at field 8 = {}" "S \<inter> bytes_at local 8 = {}"
    using attach_base_eq [OF assms, of list] l [OF that(2)] f [OF that(1)] by (cases "list = nil") simp_all
qed

text \<open>The block of the extension is apart from the rest of the class.\<close>

definition ext_room :: "u64 \<Rightarrow> u64 \<Rightarrow> u64 \<Rightarrow> u64 \<Rightarrow> bool" where
  "ext_room rw ro rwe local \<longleftrightarrow> even (unat rwe) \<and>
     bytes_at rwe 48 \<inter> bytes_at rw 16 = {} \<and> bytes_at rwe 48 \<inter> bytes_at ro 72 = {} \<and>
     bytes_at rwe 48 \<inter> bytes_at local 8 = {} \<and> bytes_at ro 72 \<inter> bytes_at local 8 = {}"

lemma zeroed_ext:
  assumes "k + 8 \<le> 40"
  shows "read_u64 (write_u32 (rwe + 40) v (zero_bytes rwe 48 m)) (rwe + of_nat k) = nil"
proof -
  have "bytes_at (rwe + of_nat 40) 4 \<inter> bytes_at (rwe + of_nat k) 8 = {}"
    using bytes_at_disjoint [of 40 4 k 8 rwe] assms by simp
  then have "\<forall>x\<in>bytes_at (rwe + of_nat k) 8. write_u32 (rwe + 40) v (zero_bytes rwe 48 m) x = zero_bytes rwe 48 m x"
    by (intro write_agrees(2)) simp
  from read_on_bytes(2) [OF this order_refl]
  have "read_u64 (write_u32 (rwe + 40) v (zero_bytes rwe 48 m)) (rwe + of_nat k) = read_u64 (zero_bytes rwe 48 m) (rwe + of_nat k)" .
  also have "\<dots> = read_u64 (\<lambda>_. 0) (rwe + of_nat k)"
  proof (rule read_u64_cong)
    fix i :: nat assume "i < 8"
    then have "unat (of_nat (k + i) :: u64) = k + i" using assms by (intro unat_of_nat_u64) simp
    then have "rwe + of_nat k + of_nat i - rwe < 48" using assms \<open>i < 8\<close> by (simp add: word_less_nat_alt)
    then show "zero_bytes rwe 48 m (rwe + of_nat k + of_nat i) = 0" by (simp add: zero_bytes_def)
  qed
  also have "\<dots> = nil" by (rule bit_word_eqI) (simp add: bit_read_u64)
  finally show ?thesis .
qed

lemma zeroed_outside:
  assumes "S \<inter> bytes_at rwe 48 = {}"
  shows "\<forall>x\<in>S. write_u32 (rwe + 40) v (zero_bytes rwe 48 m) x = m x"
proof
  fix x assume "x \<in> S"
  then have x: "x \<notin> bytes_at rwe 48" using assms by blast
  then have "\<not> x - rwe < 48" using bytes_at_iff [of 48 x rwe] by (simp add: word_less_nat_alt)
  moreover have "bytes_at (rwe + 40) 4 \<subseteq> bytes_at rwe 48" using bytes_at_mono [of 40 4 48 rwe] by simp
  ultimately show "write_u32 (rwe + 40) v (zero_bytes rwe 48 m) x = m x"
    using write_agrees(2) [of "rwe + 40" "{x}" v "zero_bytes rwe 48 m"] x by (auto simp: zero_bytes_def)
qed

text \<open>The three arrays, filled from the \<open>class_ro_t\<close>.\<close>

definition fill_ext :: "u64 \<Rightarrow> u64 \<Rightarrow> u64 \<Rightarrow> memory \<Rightarrow> memory" where
  "fill_ext ro rwe local m =
     (let m = attach_base (rwe + 8) local (baseMethods m ro) m;
          m = attach_base (rwe + 16) local (baseProperties m ro) m
      in attach_base (rwe + 24) local (baseProtocols m ro) m)"

lemma fields_disjoint:
  "bytes_at (rwe + 8) 8 \<inter> bytes_at (rwe + 16) 8 = {}" "bytes_at (rwe + 8) 8 \<inter> bytes_at (rwe + 24) 8 = {}"
  "bytes_at (rwe + 16) 8 \<inter> bytes_at (rwe + 24) 8 = {}"
  "bytes_at (rwe + 8) 8 \<subseteq> bytes_at rwe 48" "bytes_at (rwe + 16) 8 \<subseteq> bytes_at rwe 48" "bytes_at (rwe + 24) 8 \<subseteq> bytes_at rwe 48"
  "bytes_at rwe 8 \<inter> bytes_at (rwe + 8) 8 = {}" "bytes_at rwe 8 \<inter> bytes_at (rwe + 16) 8 = {}"
  "bytes_at rwe 8 \<inter> bytes_at (rwe + 24) 8 = {}" "bytes_at rwe 8 \<subseteq> bytes_at rwe 48"
  using bytes_at_disjoint [of 8 8 16 8 rwe] bytes_at_disjoint [of 8 8 24 8 rwe] bytes_at_disjoint [of 16 8 24 8 rwe]
    bytes_at_disjoint [of 0 8 8 8 rwe] bytes_at_disjoint [of 0 8 16 8 rwe] bytes_at_disjoint [of 0 8 24 8 rwe]
    bytes_at_mono [of 8 8 48 rwe] bytes_at_mono [of 16 8 48 rwe] bytes_at_mono [of 24 8 48 rwe] bytes_at_mono [of 0 8 48 rwe]
  by simp_all

lemma ro_fields:
  assumes "\<forall>x\<in>bytes_at ro 72. m' x = m x"
  shows "baseMethods m' ro = baseMethods m ro" "baseProtocols m' ro = baseProtocols m ro" "baseProperties m' ro = baseProperties m ro"
    "ro_flags_at m' ro = ro_flags_at m ro"
  using read_on_bytes [OF assms] bytes_at_mono [of 32 8 72 ro] bytes_at_mono [of 40 8 72 ro] bytes_at_mono [of 64 8 72 ro]
    bytes_at_mono [of 0 4 72 ro]
  by (simp_all add: baseMethods_def baseProtocols_def baseProperties_def ro_flags_at_def)

lemma fill_ext_spec:
  assumes nils: "read_u64 m (rwe + 8) = nil" "read_u64 m (rwe + 16) = nil" "read_u64 m (rwe + 24) = nil"
    and disj: "bytes_at rwe 48 \<inter> bytes_at ro 72 = {}" "bytes_at rwe 48 \<inter> bytes_at local 8 = {}" "bytes_at ro 72 \<inter> bytes_at local 8 = {}"
  shows "read_u64 (fill_ext ro rwe local m) (rwe + 8) = baseMethods m ro"
    "read_u64 (fill_ext ro rwe local m) (rwe + 16) = baseProperties m ro"
    "read_u64 (fill_ext ro rwe local m) (rwe + 24) = baseProtocols m ro"
proof -
  note d = fields_disjoint [of rwe]
  have l: "bytes_at (rwe + 8) 8 \<inter> bytes_at local 8 = {}" "bytes_at (rwe + 16) 8 \<inter> bytes_at local 8 = {}"
    "bytes_at (rwe + 24) 8 \<inter> bytes_at local 8 = {}" using d(4-6) disj(2) by blast+
  have r: "bytes_at ro 72 \<inter> bytes_at (rwe + 8) 8 = {}" "bytes_at ro 72 \<inter> bytes_at (rwe + 16) 8 = {}" using d(4,5) disj(1) by blast+
  define a where "a = attach_base (rwe + 8) local (baseMethods m ro) m"
  define b where "b = attach_base (rwe + 16) local (baseProperties a ro) a"
  note sa = attach_base_spec [OF nils(1) l(1), where list = "baseMethods m ro", folded a_def]
  have d': "bytes_at (rwe + 16) 8 \<inter> bytes_at (rwe + 8) 8 = {}" "bytes_at (rwe + 24) 8 \<inter> bytes_at (rwe + 8) 8 = {}"
    "bytes_at (rwe + 24) 8 \<inter> bytes_at (rwe + 16) 8 = {}" using d(1-3) by blast+
  have a: "read_u64 a (rwe + 16) = nil" "read_u64 a (rwe + 24) = nil" "\<forall>x\<in>bytes_at ro 72. a x = m x"
    using read_on_bytes(2) [OF sa(2) [OF d'(1) l(2)] order_refl] read_on_bytes(2) [OF sa(2) [OF d'(2) l(3)] order_refl]
      sa(2) [OF r(1) disj(3)] nils by simp_all
  note sb = attach_base_spec [OF a(1) l(2), where list = "baseProperties a ro", folded b_def]
  have b: "read_u64 b (rwe + 8) = baseMethods m ro" "read_u64 b (rwe + 24) = nil" "\<forall>x\<in>bytes_at ro 72. b x = a x"
    using read_on_bytes(2) [OF sb(2) [OF d(1) l(1)] order_refl] read_on_bytes(2) [OF sb(2) [OF d'(3) l(3)] order_refl]
      sb(2) [OF r(2) disj(3)] sa(1) a by simp_all
  have e: "fill_ext ro rwe local m = attach_base (rwe + 24) local (baseProtocols b ro) b"
    by (simp add: fill_ext_def Let_def a_def b_def)
  note sc = attach_base_spec [OF b(2) l(3), where list = "baseProtocols b ro", folded e]
  show "read_u64 (fill_ext ro rwe local m) (rwe + 8) = baseMethods m ro"
    using read_on_bytes(2) [OF sc(2) [OF d(2) l(1)] order_refl] b(1) by simp
  show "read_u64 (fill_ext ro rwe local m) (rwe + 16) = baseProperties m ro"
    using read_on_bytes(2) [OF sc(2) [OF d(3) l(2)] order_refl] sb(1) ro_fields(3) [OF a(3)] by simp
  show "read_u64 (fill_ext ro rwe local m) (rwe + 24) = baseProtocols m ro"
    using sc(1) ro_fields(2) [OF a(3)] ro_fields(2) [OF b(3)] by simp
qed

lemma union_ext:
  assumes "even (unat rwe)" "get_ro_or_rwe m rw = rwe OR 1"
  shows "rw_ext m rw = Inr rwe" "rw_ro m rw = Inr (ext_ro m rwe)" "rw_methods m rw = Inr (read_u64 m (rwe + 8))"
    "rw_properties m rw = Inr (read_u64 m (rwe + 16))" "rw_protocols m rw = Inr (read_u64 m (rwe + 24))"
proof -
  have t: "(rwe OR 1) AND 1 = 1" by (rule bit_word_eqI) (auto simp: bit_and_iff bit_or_iff bit_1_iff)
  have p: "(rwe OR 1) AND NOT 1 = rwe" by (rule tag_even(2) [OF assms(1)])
  show "rw_ext m rw = Inr rwe" "rw_ro m rw = Inr (ext_ro m rwe)" "rw_methods m rw = Inr (read_u64 m (rwe + 8))"
    "rw_properties m rw = Inr (read_u64 m (rwe + 16))" "rw_protocols m rw = Inr (read_u64 m (rwe + 24))"
    unfolding rw_ext_def rw_ro_def rw_methods_def rw_properties_def rw_protocols_def assms(2) Let_def
      PointerUnion_dyn_cast_def PointerUnion_get_def PointerUnion_is_def PointerUnion_getTag_def PointerUnion_getPointer_def t p
    by (simp_all add: ext_methods_def ext_properties_def ext_protocols_def)
qed

lemma union_ro:
  assumes "get_ro_or_rwe m rw = ro" "even (unat ro)"
  shows "rw_ro m rw = Inr ro" "rw_methods m rw = Inr (baseMethods m ro)" "rw_properties m rw = Inr (baseProperties m ro)"
    "rw_protocols m rw = Inr (baseProtocols m ro)" "\<not> PointerUnion_is PT2 ro" "PointerUnion_get (\<lambda>p a. p) PT1 ro a = Inr ro"
proof -
  have b: "\<not> bit ro 0" using even_word [OF assms(2)] .
  then have t: "ro AND 1 = 0" "ro AND NOT 1 = ro"
    by (intro bit_word_eqI; auto simp: bit_and_iff bit_not_iff bit_1_iff intro: gr0I)+
  show is2: "\<not> PointerUnion_is PT2 ro" by (simp add: PointerUnion_is_def PointerUnion_getTag_def t(1))
  show get1: "PointerUnion_get (\<lambda>p a. p) PT1 ro a = Inr ro" for a
    unfolding PointerUnion_get_def PointerUnion_is_def PointerUnion_getTag_def PointerUnion_getPointer_def t by simp
  show "rw_ro m rw = Inr ro" "rw_methods m rw = Inr (baseMethods m ro)" "rw_properties m rw = Inr (baseProperties m ro)"
    "rw_protocols m rw = Inr (baseProtocols m ro)"
    by (simp_all add: rw_ro_def rw_methods_def rw_properties_def rw_protocols_def assms(1) Let_def is2 get1)
qed

lemma set_ro_or_rwe_spec:
  assumes "bytes_at (rw + 8) 8 \<inter> bytes_at rwe 48 = {}"
  shows "get_ro_or_rwe (set_ro_or_rwe rwe ro rw m) rw = rwe OR 1" "ext_ro (set_ro_or_rwe rwe ro rw m) rwe = ro"
    "read_u64 (set_ro_or_rwe rwe ro rw m) (rwe + 8) = read_u64 m (rwe + 8)"
    "read_u64 (set_ro_or_rwe rwe ro rw m) (rwe + 16) = read_u64 m (rwe + 16)"
    "read_u64 (set_ro_or_rwe rwe ro rw m) (rwe + 24) = read_u64 m (rwe + 24)"
proof -
  note d = fields_disjoint [of rwe]
  have W: "\<forall>x\<in>S. write_u64 (rw + 8) v m' x = m' x" if "S \<subseteq> bytes_at rwe 48" for S v m'
    using assms that by (intro write_agrees(1)) blast
  have f: "read_u64 (set_ro_or_rwe rwe ro rw m) p = read_u64 m p"
    if p: "bytes_at p 8 \<subseteq> bytes_at rwe 48" "bytes_at rwe 8 \<inter> bytes_at p 8 = {}" for p
    using read_on_bytes(2) [OF W [OF p(1)] order_refl] read_on_bytes(2) [OF write_agrees(1) [OF p(2)] order_refl]
    by (simp add: set_ro_or_rwe_def)
  show "get_ro_or_rwe (set_ro_or_rwe rwe ro rw m) rw = rwe OR 1"
    by (simp add: get_ro_or_rwe_def set_ro_or_rwe_def PointerUnion_T2_def)
  show "ext_ro (set_ro_or_rwe rwe ro rw m) rwe = ro"
    using read_on_bytes(2) [OF W [OF d(10)] order_refl] by (simp add: ext_ro_def set_ro_or_rwe_def)
  show "read_u64 (set_ro_or_rwe rwe ro rw m) (rwe + 8) = read_u64 m (rwe + 8)"
    "read_u64 (set_ro_or_rwe rwe ro rw m) (rwe + 16) = read_u64 m (rwe + 16)"
    "read_u64 (set_ro_or_rwe rwe ro rw m) (rwe + 24) = read_u64 m (rwe + 24)"
    using f d by blast+
qed

lemma extAllocIfNeeded_keeps:
  assumes ro: "get_ro_or_rwe (mem st) rw = ro" "even (unat ro)" and room: "ext_room rw ro rwe local"
  obtains st' where "extAllocIfNeeded E rw rwe dup local st = Inr (Some (rwe, st'))"
    "rw_ext (mem st') rw = Inr rwe" "rw_ro (mem st') rw = rw_ro (mem st) rw" "rw_methods (mem st') rw = rw_methods (mem st) rw"
    "rw_properties (mem st') rw = rw_properties (mem st) rw" "rw_protocols (mem st') rw = rw_protocols (mem st) rw"
proof -
  note u = union_ro [OF ro]
  have R: "even (unat rwe)" "bytes_at rwe 48 \<inter> bytes_at rw 16 = {}" "bytes_at rwe 48 \<inter> bytes_at ro 72 = {}"
    "bytes_at rwe 48 \<inter> bytes_at local 8 = {}" "bytes_at ro 72 \<inter> bytes_at local 8 = {}" using room by (simp_all add: ext_room_def)
  let ?v = "if ro_flags_at (zero_bytes rwe 48 (mem st)) ro AND RO_META \<noteq> 0 then 7 else 0"
  define m1 where "m1 = write_u32 (rwe + 40) ?v (zero_bytes rwe 48 (mem st))"
  define m' where "m' = set_ro_or_rwe rwe ro rw (fill_ext ro rwe local m1)"
  have e: "extAllocIfNeeded E rw rwe dup local st = Inr (Some (rwe, st\<lparr>mem := m'\<rparr>))"
    using u(5,6) by (simp add: extAllocIfNeeded_def extAlloc_def ro(1) Let_def m'_def m1_def fill_ext_def
        ext_methods_def ext_properties_def ext_protocols_def)
  have ros: "\<forall>x\<in>bytes_at ro 72. m1 x = mem st x" unfolding m1_def using R(3) by (intro zeroed_outside) blast
  have z: "read_u64 m1 (rwe + 8) = nil" "read_u64 m1 (rwe + 16) = nil" "read_u64 m1 (rwe + 24) = nil"
    using zeroed_ext [of 8 rwe ?v "mem st"] zeroed_ext [of 16 rwe ?v "mem st"] zeroed_ext [of 24 rwe ?v "mem st"]
    by (simp_all add: m1_def)
  note f = fill_ext_spec [OF z R(3-5)]
  have V: "bytes_at (rw + 8) 8 \<inter> bytes_at rwe 48 = {}" using bytes_at_mono [of 8 8 16 rw] R(2) by auto
  note s = set_ro_or_rwe_spec [OF V, of ro "fill_ext ro rwe local m1", folded m'_def]
  note x = union_ext [OF R(1) s(1)]
  show thesis
    by (rule that [OF e]) (simp_all add: x u s(2-5) f ro_fields [OF ros])
qed

section \<open>Attached lists come first\<close>

text \<open>The bytes that an \<open>attachLists\<close> may change.\<close>

definition attach_bytes :: "memory \<Rightarrow> u64 \<Rightarrow> u32 \<Rightarrow> u64 \<Rightarrow> u64 set" where
  "attach_bytes m this addedCount newArray = bytes_at this 8 \<union> la_block m this \<union>
     bytes_at newArray (8 + 8 * (unat addedCount + length (la_lists m this)))"

lemma class_lists_ext:
  assumes "get_ro_or_rwe m (class_data m cls) = rwe OR 1" "even (unat rwe)"
  shows "class_lists m cls = la_lists m (rwe + 8)"
  using union_ext(3) [OF assms(2,1)] by (simp add: class_lists_def la_lists_word)

lemma attached_class_lists:
  assumes ext: "get_ro_or_rwe m (class_data m cls) = rwe OR 1" "even (unat rwe)"
    and room: "la_ok m (rwe + 8)" "la_room m (rwe + 8) addedLists addedCount newArray"
    and apart: "bytes_at cls 40 \<inter> attach_bytes m (rwe + 8) addedCount newArray = {}"
      "bytes_at (class_data m cls) 16 \<inter> attach_bytes m (rwe + 8) addedCount newArray = {}"
  defines "m' \<equiv> fst (attachLists (rwe + 8) addedLists addedCount newArray m)"
  shows "class_lists m' cls = words_at m addedLists (unat addedCount) @ class_lists m cls"
proof -
  have same: "\<forall>x\<in>S. m' x = m x" if "S \<inter> attach_bytes m (rwe + 8) addedCount newArray = {}" for S
    using attachLists_frame [OF room(2)] that unfolding m'_def attach_bytes_def by blast
  have "bytes_at (cls + 32) 8 \<subseteq> bytes_at cls 40" using bytes_at_mono [of 32 8 40 cls] by simp
  then have d: "class_data m' cls = class_data m cls"
    using read_on_bytes(2) [OF same [OF apart(1)]] by (simp add: class_data_def)
  have "bytes_at (class_data m cls + 8) 8 \<subseteq> bytes_at (class_data m cls) 16"
    using bytes_at_mono [of 8 8 16 "class_data m cls"] by simp
  then have "get_ro_or_rwe m' (class_data m' cls) = rwe OR 1"
    using read_on_bytes(2) [OF same [OF apart(2)]] ext(1) by (simp add: get_ro_or_rwe_def d)
  then show ?thesis
    using class_lists_ext [OF _ ext(2)] ext(1) attachLists_spec [OF room] by (simp add: m'_def)
qed

end
