(* ===== verification/SampleImage.thy ===== *)
theory SampleImage
  imports ClassLookup
begin

text \<open>
  A small image in memory, on which the witnesses evaluate the model: two
  method lists that are fixed up, a class with an extension, and the writable
  part of a class without one.
\<close>

definition sample_bytes :: "(u64 \<times> u8) list" where
  "sample_bytes =
    [(0x1000, 27), (0x1004, 2), (0x1008, 5), (0x1020, 7),
     (0x1100, 27), (0x1104, 1), (0x1108, 7), (0x1118, 99),
     (0x2001, 0x28), (0x2021, 0x30), (0x3003, 0x80), (0x3008, 1), (0x3009, 0x32), (0x3209, 0x10),
     (0x3409, 0x35), (0x3521, 0x10), (0x4001, 0x11)]"

definition sample_memory :: memory where
  "sample_memory a = (case map_of sample_bytes a of None \<Rightarrow> 0 | Some b \<Rightarrow> b)"

definition sample_env :: method_env where
  "sample_env = \<lparr>CONFIG_SHARED_CACHE_RELATIVE_DIRECT_SELECTORS = False, inSharedCache = (\<lambda>_. False), sign_function = (\<lambda>p. p)\<rparr>"

definition image_state :: "memory \<Rightarrow> method_state" where
  "image_state m = \<lparr>mem = m, smallMethodIMPMap = \<lparr>li_storage = empty_imp_map, li_didInit = False\<rparr>\<rparr>"

definition sample_state :: method_state where
  "sample_state = image_state sample_memory"

lemma mem_image_state [simp]: "mem (image_state m) = m" "mem sample_state = sample_memory"
  by (simp_all add: image_state_def sample_state_def)

lemma imps_ok_sample: "imps_ok sample_state"
  by (simp add: imps_ok_def imps_inv_def sample_state_def image_state_def)

section \<open>The lists\<close>

lemma sample_headers:
  "entsize method_lists sample_memory 0x1000 = bigSize" "list_count sample_memory 0x1000 = 2"
  "list_flags method_lists sample_memory 0x1000 = 3"
  "entsize method_lists sample_memory 0x1100 = bigSize" "list_count sample_memory 0x1100 = 1"
  "list_flags method_lists sample_memory 0x1100 = 3"
  by code_simp+

lemma sample_big_lists: "big_list sample_memory 0x1000 2" "big_list sample_memory 0x1100 1"
  by (simp_all add: big_list_def sample_headers smallMethodListFlag_def)

lemmas sample_elements = big_list_ok(2) [OF sample_big_lists(1)] big_list_ok(2) [OF sample_big_lists(2)]

lemma big_method_name: "\<not> method_isSmall b \<Longrightarrow> method_name E b st = Inr (read_u64 (mem st) b)"
  by (simp add: method_name_def method_big_def)

text \<open>A list of big methods with the names \<open>ns\<close>, in order.\<close>

lemma big_list_searchable:
  assumes "big_list (mem st) l (length ns)" "\<forall>i<length ns. read_u64 (mem st) (l + of_nat (8 + 24 * i)) = ns ! i" "sorted ns"
  shows "list_searchable E st l"
proof -
  have c: "unat (list_count (mem st) l) = length ns" using assms(1) by (simp add: big_list_def)
  have n: "list_names E l st i = ns ! i" if "i < length ns" for i
    using big_list_ok(2,3) [OF assms(1), of i] assms(2) that by (simp add: list_names_def big_method_name)
  have "sorted_names (mem st) l (list_names E l st)"
    unfolding sorted_names_def c using n assms(3) by (auto simp: sorted_iff_nth_mono)
  moreover have "\<not> isSmallList l st" using assms(1) by (simp add: big_list_def isSmallList_def)
  ultimately show ?thesis using big_list_ok(1) [OF assms(1)] by (simp add: list_searchable_def)
qed

lemma sample_names:
  "read_u64 sample_memory 0x1008 = 5" "read_u64 sample_memory 0x1020 = 7" "read_u64 sample_memory 0x1108 = 7"
  by code_simp+

lemma sample_searchable: "list_searchable E sample_state 0x1000" "list_searchable E sample_state 0x1100"
proof -
  have 2: "\<forall>i<length [5, 7 :: u64]. read_u64 (mem sample_state) (0x1000 + of_nat (8 + 24 * i)) = [5, 7] ! i"
    by (simp add: All_less_Suc sample_names)
  have s: "sorted [5, 7 :: u64]" by (simp add: word_le_nat_alt)
  show "list_searchable E sample_state 0x1000"
    by (rule big_list_searchable [OF _ 2 s]) (use sample_big_lists(1) in \<open>simp add: numeral_2_eq_2\<close>)
  show "list_searchable E sample_state 0x1100"
    by (rule big_list_searchable [of _ _ "[7]"]) (use sample_big_lists(2) sample_names in simp_all)
qed

lemma sample_fixed_up: "isFixedUp 0x1000 sample_state"
  by (simp add: isFixedUp_def sample_headers fixed_up_method_list_def)

lemma sample_contents:
  "list_contents method_lists sample_memory 0x1000 = [0x1008, 0x1020]" "list_contents method_lists sample_memory 0x1100 = [0x1108]"
  using sample_elements by (simp_all add: list_contents_def sample_headers upt_rec)

lemma sample_method_names:
  "method_name E 0x1008 sample_state = Inr 5" "method_name E 0x1020 sample_state = Inr 7" "method_name E 0x1108 sample_state = Inr 7"
  by (simp_all add: big_method_name method_isSmall_def sample_names)

lemma sample_dup_room: "dup_room sample_env 0x1000 0x7000 sample_state"
proof -
  have d: "\<forall>x\<in>bytes_at a n. 56 \<le> unat (x - 0x7000)" if "bytes_at a n \<inter> bytes_at 0x7000 56 = {}" for a n
  proof
    fix x assume "x \<in> bytes_at a n"
    then have "x \<notin> bytes_at 0x7000 56" using that by blast
    then show "56 \<le> unat (x - 0x7000)" using bytes_at_iff [of 56 x "0x7000"] by simp
  qed
  have e: "method_bytes sample_env sample_memory (element_at method_lists sample_memory 0x1000 k) = bytes_at (0x1008 + of_nat (24 * k)) 24"
    if "k \<in> {0, 1}" for k
    using that sample_elements(1) [of k] by (auto simp: method_bytes_def method_isSmall_def)
  have "\<forall>x\<in>method_bytes sample_env sample_memory (element_at method_lists sample_memory 0x1000 k). 56 \<le> unat (x - 0x7000)"
    if "k < 2" for k
  proof -
    have k: "k = 0 \<or> k = 1" using that by linarith
    then have "bytes_at (0x1008 + of_nat (24 * k)) 24 \<inter> bytes_at 0x7000 56 = {}" by (elim disjE) (simp_all add: bytes_at_apart)
    then show ?thesis using d e k by auto
  qed
  moreover have "\<forall>x\<in>bytes_at 0x1000 8. 56 \<le> unat (x - 0x7000)" by (rule d) (simp add: bytes_at_apart)
  ultimately show ?thesis by (simp add: dup_room_def Let_def sample_headers)
qed

section \<open>The class\<close>

lemma sample_class_fields:
  "class_data sample_memory 0x2000 = 0x3000" "get_ro_or_rwe sample_memory 0x3000 = 0x3200 OR 1"
  "class_superclass sample_memory 0x2000 = 0" "class_realized sample_memory 0x2000"
  "read_u64 sample_memory 0x3208 = 0x1000" "get_ro_or_rwe sample_memory 0x3400 = 0x3500"
  "baseMethods sample_memory 0x3500 = 0x1000" "read_u64 sample_memory 0x4000 = 0x1100"
  by code_simp+

lemma sample_class_lists: "class_lists sample_memory 0x2000 = [0x1000]"
  using class_lists_ext [of sample_memory "0x2000" "0x3200"]
  by (simp add: sample_class_fields la_lists_word word_lists_def)

lemma sample_class_searchable: "class_searchable E 0x6000 sample_state 0x2000"
proof -
  have "rw_methods sample_memory 0x3000 = Inr 0x1000"
    using union_ext(3) [of "0x3200" sample_memory "0x3000"] by (simp add: sample_class_fields)
  then show ?thesis
    by (simp add: class_searchable_def sample_class_fields word_block_def word_lists_def sample_searchable)
qed

section \<open>The class after a list is attached\<close>

definition attached_state :: method_state where
  "attached_state = image_state (fst (attachLists (ext_methods 0x3200) 0x4000 1 0x5000 sample_memory))"

lemma sample_added: "words_at sample_memory 0x4000 (Suc 0) = [0x1100]"
  by (simp add: words_at_def sample_class_fields)

lemma sample_field: "la_lists sample_memory 0x3208 = [0x1000]" "la_block sample_memory 0x3208 = {}"
  by (simp_all add: la_lists_word word_lists_def la_block_def la_hasArray_def sample_class_fields)

lemma sample_room:
  "la_ok sample_memory (ext_methods 0x3200)" "la_room sample_memory (ext_methods 0x3200) 0x4000 1 0x5000"
  "bytes_at 0x2000 40 \<inter> attach_bytes sample_memory (ext_methods 0x3200) 1 0x5000 = {}"
  "bytes_at (class_data sample_memory 0x2000) 16 \<inter> attach_bytes sample_memory (ext_methods 0x3200) 1 0x5000 = {}"
  by (simp_all add: ext_methods_def la_ok_def la_hasArray_def sample_class_fields sample_field la_room_def Let_def
      sample_added bytes_at_apart attach_bytes_def Int_Un_distrib)

text \<open>Attaching leaves the methods as they were.\<close>

lemma attached_same:
  assumes "bytes_at p n \<inter> attach_bytes sample_memory 0x3208 1 0x5000 = {}"
  shows "\<forall>x\<in>bytes_at p n. mem attached_state x = sample_memory x"
  using assms attachLists_frame [OF sample_room(2)] by (auto simp: attached_state_def ext_methods_def attach_bytes_def)

lemma attached_word: "p \<in> {0x1008, 0x1020, 0x1108, 0x2000, 0x2020, 0x3008} \<Longrightarrow> read_u64 (mem attached_state) p = read_u64 sample_memory p"
  by (rule read_on_bytes(2) [OF attached_same order_refl], elim insertE;
      simp add: attach_bytes_def sample_field Int_Un_distrib bytes_at_apart)

lemma attached_header:
  assumes "l \<in> {0x1000, 0x1100, 0x3000}"
  shows "read_u32 (mem attached_state) l = read_u32 sample_memory l" "read_u32 (mem attached_state) (l + 4) = read_u32 sample_memory (l + 4)"
  by (rule read_on_bytes(1) [OF attached_same order_refl], use assms in \<open>elim insertE\<close>;
      simp add: attach_bytes_def sample_field Int_Un_distrib bytes_at_apart)+

lemma attached_big_lists: "big_list (mem attached_state) 0x1000 2" "big_list (mem attached_state) 0x1100 1"
  using sample_big_lists list_header_cong(1-3) [OF attached_header]
  by (simp_all add: big_list_def)

lemma attached_contents:
  "list_contents method_lists (mem attached_state) 0x1000 = [0x1008, 0x1020]"
  "list_contents method_lists (mem attached_state) 0x1100 = [0x1108]"
  using sample_contents list_header_cong(3,5) [OF attached_header] by (simp_all add: list_contents_def)

lemma attached_method_names:
  "method_name E 0x1008 attached_state = Inr 5" "method_name E 0x1020 attached_state = Inr 7" "method_name E 0x1108 attached_state = Inr 7"
  by (simp_all add: big_method_name method_isSmall_def sample_names attached_word)

lemma attached_searchable: "list_searchable E attached_state 0x1000" "list_searchable E attached_state 0x1100"
proof -
  have 2: "\<forall>i<length [5, 7 :: u64]. read_u64 (mem attached_state) (0x1000 + of_nat (8 + 24 * i)) = [5, 7] ! i"
    by (simp add: All_less_Suc sample_names attached_word)
  have s: "sorted [5, 7 :: u64]" by (simp add: word_le_nat_alt)
  show "list_searchable E attached_state 0x1000"
    by (rule big_list_searchable [OF _ 2 s]) (use attached_big_lists(1) in \<open>simp add: numeral_2_eq_2\<close>)
  show "list_searchable E attached_state 0x1100"
    by (rule big_list_searchable [of _ _ "[7]"]) (use attached_big_lists(2) sample_names attached_word in simp_all)
qed

lemma attached_class_fields:
  "class_data (mem attached_state) 0x2000 = 0x3000" "get_ro_or_rwe (mem attached_state) 0x3000 = 0x3200 OR 1"
  "class_realized (mem attached_state) 0x2000"
  using sample_class_fields(1,2,4) by (simp_all add: class_data_def get_ro_or_rwe_def class_realized_def attached_word attached_header)

lemma attached_field:
  "read_u64 (mem attached_state) 0x3208 = 0x5000 OR 1" "word_lists (mem attached_state) (0x5000 OR 1) = [0x1100, 0x1000]"
proof -
  have "la_lists (mem attached_state) 0x3208 = [0x1100, 0x1000] \<and> read_u64 (mem attached_state) 0x3208 = 0x5000 OR 1"
    using attach_to_list [OF sample_room(2)] sample_field(1)
    by (simp add: attached_state_def ext_methods_def la_hasArray_def sample_class_fields sample_added)
  then show "read_u64 (mem attached_state) 0x3208 = 0x5000 OR 1" "word_lists (mem attached_state) (0x5000 OR 1) = [0x1100, 0x1000]"
    by (auto simp: la_lists_word)
qed

lemma attached_class_searchable: "class_searchable E 0x6000 attached_state 0x2000"
proof -
  have "rw_methods (mem attached_state) 0x3000 = Inr (0x5000 OR 1)"
    using union_ext(3) [of "0x3200" "mem attached_state" "0x3000"] by (simp add: attached_class_fields attached_field)
  moreover have "word_block (mem attached_state) (0x5000 OR 1) = bytes_at 0x5000 24"
    using arg_cong [OF attached_field(2), of length] by (simp add: word_block_def word_lists_def)
  ultimately show ?thesis
    using attached_field(2) by (simp add: class_searchable_def attached_class_fields attached_searchable bytes_at_apart)
qed

end
