(* ===== verification/DenseMap_Exact.thy ===== *)
theory DenseMap_Exact
  imports DenseMap_Refine
begin

text \<open>
  Tables whose key equality is equality of the stored keys and whose values are
  never purgeable: each operation of the table is the update or the lookup of
  an ordinary partial map, also when the caller works on a bucket that \<open>find\<close>
  or \<open>try_emplace\<close> gave it, and iteration lists the map's entries once each.
\<close>

lemma distinct_map_filter_nth:
  "(\<And>i j. i < length xs \<Longrightarrow> j < length xs \<Longrightarrow> P (xs ! i) \<Longrightarrow> f (xs ! i) = f (xs ! j) \<Longrightarrow> i = j) \<Longrightarrow>
    distinct (map f (filter P xs))"
proof (induction xs)
  case (Cons x xs)
  have "i = j" if "i < length xs" "j < length xs" "P (xs ! i)" "f (xs ! i) = f (xs ! j)" for i j
    using Cons.prems [of "Suc i" "Suc j"] that by simp
  then have "distinct (map f (filter P xs))" by (rule Cons.IH)
  moreover have "f x \<notin> f ` set (filter P xs)" if "P x"
    using Cons.prems [of 0 "Suc j" for j] that by (fastforce simp: in_set_conv_nth)
  ultimately show ?case by simp
qed simp

locale exact_map_laws = plain_map_laws p for p :: "('k, 'v) dm_params" +
  assumes exact: "isEqual (KeyInfo p) k k' \<longleftrightarrow> k = k'"
begin

lemma upd_exact: "upd_eq (KeyInfo p) f k x = f(k := x)"
  by (auto simp: upd_eq_def exact fun_eq_iff)

lemma find_exact:
  assumes "dm_inv p m" "is_live_key p k"
  shows "\<exists>i. dm_find p k m = Inr i \<and> (case dm_map p m k of None \<Rightarrow> i = dm_end m
    | Some v \<Rightarrow> i \<noteq> dm_end m \<and> live_at p m i \<and> key_at m i = k \<and> val_at m i = v)"
  using dm_find_spec [OF assms] by (fastforce simp: exact split: option.splits)

lemma emplace_exact:
  assumes "dm_inv p m" "dm_sized e m" "e < 2 ^ 24" "is_live_key p k"
  shows "\<exists>m' i. try_emplace p k v m = Inr (m', i, dm_map p m k = None) \<and> dm_inv p m' \<and> dm_sized (e + 1) m' \<and>
    live_at p m' i \<and> key_at m' i = k \<and> val_at m' i = (case dm_map p m k of None \<Rightarrow> v | Some w \<Rightarrow> w) \<and>
    dm_map p m' = (dm_map p m)(k \<mapsto> case dm_map p m k of None \<Rightarrow> v | Some w \<Rightarrow> w) \<and>
    (dm_map p m k \<noteq> None \<longrightarrow> m' = m)"
proof (cases "dm_map p m k")
  case None
  have "NumBuckets m \<le> 2 ^ 29" using assms(2) by (simp add: dm_sized_def)
  from try_emplace_new [OF assms(1) this assms(4) None, of v] obtain m' i where
    m': "try_emplace p k v m = Inr (m', i, True)" "inserted p m k v m' i" by blast
  note st = inserted_step [OF m'(2) assms(2,3)]
  have "val_at m' i = v" using m'(2) by (simp add: inserted_def)
  then show ?thesis using m'(1) st None by (simp add: upd_exact)
next
  case (Some w)
  obtain i where "try_emplace p k v m = Inr (m, i, False)" "live_at p m i" "key_at m i = k" "val_at m i = w"
    using try_emplace_old [OF assms(1,4) Some, of v] by (auto simp: exact)
  moreover have "dm_sized (e + 1) m" using assms(2) by (simp add: dm_sized_def)
  moreover have "(dm_map p m)(k \<mapsto> w) = dm_map p m" using Some by (rule fun_upd_idem)
  ultimately show ?thesis using Some assms(1) by simp
qed

lemma set_second_exact:
  assumes "dm_inv p m" "live_at p m i"
  shows "dm_inv p (set_second i v m)" "dm_map p (set_second i v m) = (dm_map p m)(key_at m i \<mapsto> v)"
    "dm_sized e (set_second i v m) \<longleftrightarrow> dm_sized e m" "live_at p (set_second i v m) i"
    "key_at (set_second i v m) i = key_at m i"
proof -
  have "i < length (Buckets m)" using assms by (simp add: live_at_def dm_inv_def dm_shape_def)
  then show "live_at p (set_second i v m) i" "key_at (set_second i v m) i = key_at m i"
    using assms(2) by (simp_all add: set_second_def live_at_def key_at_def)
qed (use set_second_spec [OF assms] in \<open>simp_all add: upd_exact dm_sized_def set_second_def\<close>)

lemma erase_exact:
  assumes "dm_inv p m" "live_at p m i"
  shows "\<exists>m'. erase_bucket p i m = Inr m' \<and> dm_inv p m' \<and> dm_map p m' = (dm_map p m)(key_at m i := None) \<and>
    (\<forall>e. dm_sized e m \<longrightarrow> dm_sized e m')"
  using erase_bucket_spec [OF assms] by (force simp: upd_exact kept_is_map dm_sized_def)

lemma size_exact: "dm_inv p m \<Longrightarrow> NumEntries m = 0 \<longleftrightarrow> dm_map p m = Map.empty"
  using dm_empty_map [of m] by (simp add: dm_empty_def)

lemma new_exact: "\<exists>m. dm_new p 0 = Inr m \<and> dm_inv p m \<and> dm_map p m = Map.empty \<and> dm_sized e m"
proof -
  have z: "(0::nat) \<le> 2 ^ 29" by simp
  obtain m where m: "dm_new p 0 = Inr m" "dm_inv p m" "dm_map p m = Map.empty" "NumEntries m = 0"
    "NumBuckets m = getMinBucketToReserveForEntries 0"
    unfolding dm_new_def using dm_init_spec [OF z] by blast
  have "NumBuckets m = 0" unfolding m(5) by (simp only: min_buckets_spec(1) [OF z])
  then have "dm_sized e m" using m(4) by (simp add: dm_sized_def)
  then show ?thesis by (intro exI [of _ m] conjI m(1-3))
qed

lemma iterate_exact:
  assumes "dm_inv p m"
  shows "set (dm_iterate p m) = {(k, v). dm_map p m k = Some v}" "distinct (map fst (dm_iterate p m))"
    "length (dm_iterate p m) = NumEntries m" "\<forall>x\<in>set (dm_iterate p m). is_live_key p (fst x)"
proof -
  note im = dm_iterate_map [OF assms]
  have "(k, v) \<in> set (dm_iterate p m) \<longleftrightarrow> dm_map p m k = Some v" for k v
    using im(1) [of k v] im(2) [of k v] unfolding exact by blast
  then show "set (dm_iterate p m) = {(k, v). dm_map p m k = Some v}" by (simp add: set_eq_iff split_paired_all)
  show "length (dm_iterate p m) = NumEntries m" using im(3) by (simp add: dm_size_def)
  show "\<forall>x\<in>set (dm_iterate p m). is_live_key p (fst x)" using im(1) by (simp add: split_paired_all)
  have d: "dm_distinct p m" "length (Buckets m) = NumBuckets m" using assms by (auto simp: dm_inv_def dm_shape_def)
  have "i = j" if "i < length (Buckets m)" "j < length (Buckets m)" "is_live_key p (fst (Buckets m ! i))"
    "fst (Buckets m ! i) = fst (Buckets m ! j)" for i j
    using d that by (auto simp: dm_distinct_def live_at_def key_at_def exact)
  then have "distinct (map fst (filter (\<lambda>B. is_live_key p (fst B)) (Buckets m)))"
    by (intro distinct_map_filter_nth) blast
  then show "distinct (map fst (dm_iterate p m))" by (simp add: dm_iterate_eq [OF assms] live_list_def)
qed

end

end
