(* ===== verification/Associations.thy ===== *)
theory Associations
  imports DenseMap_Exact ClassData "HOL-Library.Multiset"
begin

text \<open>
  Associated references (\<^verbatim>\<open>objc-references.mm\<close>): a table from objects to
  tables from keys to associations, each a policy and a value.  Setting,
  getting and removing run client code (\<open>retain\<close>, \<open>copy\<close>, \<open>release\<close>,
  \<open>autorelease\<close>, \<open>_noteAssociatedObjects\<close>); the model records those calls, and
  the lock operations, in a trace in the order the code makes them.  The lemmas
  show that the two-level table is a partial map from pairs of object and key,
  what each operation does to it and to the trace, and that the values acquired
  are those released and those still held.
\<close>

section \<open>Policies and associations\<close>

definition OBJC_ASSOCIATION_SETTER_ASSIGN :: u64 where "OBJC_ASSOCIATION_SETTER_ASSIGN = 0"
definition OBJC_ASSOCIATION_SETTER_RETAIN :: u64 where "OBJC_ASSOCIATION_SETTER_RETAIN = 1"
definition OBJC_ASSOCIATION_SETTER_COPY :: u64 where "OBJC_ASSOCIATION_SETTER_COPY = 3"
definition OBJC_ASSOCIATION_GETTER_READ :: u64 where "OBJC_ASSOCIATION_GETTER_READ = push_bit 8 0"
definition OBJC_ASSOCIATION_GETTER_RETAIN :: u64 where "OBJC_ASSOCIATION_GETTER_RETAIN = push_bit 8 1"
definition OBJC_ASSOCIATION_GETTER_AUTORELEASE :: u64 where "OBJC_ASSOCIATION_GETTER_AUTORELEASE = push_bit 8 2"
definition OBJC_ASSOCIATION_SYSTEM_OBJECT :: u64 where "OBJC_ASSOCIATION_SYSTEM_OBJECT = push_bit 16 1"

lemmas assoc_policies = OBJC_ASSOCIATION_SETTER_ASSIGN_def OBJC_ASSOCIATION_SETTER_RETAIN_def
  OBJC_ASSOCIATION_SETTER_COPY_def OBJC_ASSOCIATION_GETTER_READ_def OBJC_ASSOCIATION_GETTER_RETAIN_def
  OBJC_ASSOCIATION_GETTER_AUTORELEASE_def OBJC_ASSOCIATION_SYSTEM_OBJECT_def

text \<open>The calls out of this file, and the lock.\<close>

datatype assoc_event =
    ObjcRetain u64
  | SendCopy u64 u64
  | ObjcRelease u64
  | ObjcAutorelease u64
  | SetHasAssociatedObjects u64
  | ManagerLock
  | ManagerUnlock

text \<open>What the called code answers: the class of an object, and the results of
  \<open>objc_retain\<close>, of the message \<open>copy\<close> and of \<open>objc_autorelease\<close>.\<close>

record assoc_env =
  class_of :: "u64 \<Rightarrow> objc_class"
  retain_result :: "u64 \<Rightarrow> u64"
  copy_result :: "u64 \<Rightarrow> u64"
  autorelease_result :: "u64 \<Rightarrow> u64"

record ObjcAssociation =
  policy :: u64
  value_of :: u64

definition ObjcAssociation_new :: "u64 \<Rightarrow> u64 \<Rightarrow> ObjcAssociation" where
  "ObjcAssociation_new p v = \<lparr>policy = p, value_of = v\<rparr>"

definition ObjcAssociation_default :: ObjcAssociation where
  "ObjcAssociation_default = \<lparr>policy = 0, value_of = nil\<rparr>"

definition ObjcAssociation_swap :: "ObjcAssociation \<times> ObjcAssociation \<Rightarrow> ObjcAssociation \<times> ObjcAssociation" where
  "ObjcAssociation_swap = (\<lambda>(a, b). (\<lparr>policy = policy b, value_of = value_of b\<rparr>,
     \<lparr>policy = policy a, value_of = value_of a\<rparr>))"

text \<open>The move constructor swaps with a default association: the result is the
  new object and what is left in the old one.\<close>

definition ObjcAssociation_move :: "ObjcAssociation \<Rightarrow> ObjcAssociation \<times> ObjcAssociation" where
  "ObjcAssociation_move other = ObjcAssociation_swap (ObjcAssociation_default, other)"

definition acquireValue :: "assoc_env \<Rightarrow> ObjcAssociation \<Rightarrow> ObjcAssociation \<times> assoc_event list" where
  "acquireValue env a =
     (if value_of a \<noteq> nil then
        if policy a AND 0xFF = OBJC_ASSOCIATION_SETTER_RETAIN
        then (a\<lparr>value_of := retain_result env (value_of a)\<rparr>, [ObjcRetain (value_of a)])
        else if policy a AND 0xFF = OBJC_ASSOCIATION_SETTER_COPY
        then (a\<lparr>value_of := copy_result env (value_of a)\<rparr>,
              [SendCopy (value_of a) (copy_result env (value_of a))])
        else (a, [])
      else (a, []))"

definition releaseHeldValue :: "ObjcAssociation \<Rightarrow> assoc_event list" where
  "releaseHeldValue a =
     (if value_of a \<noteq> nil \<and> policy a AND OBJC_ASSOCIATION_SETTER_RETAIN \<noteq> 0 then [ObjcRelease (value_of a)] else [])"

definition retainReturnedValue :: "ObjcAssociation \<Rightarrow> assoc_event list" where
  "retainReturnedValue a =
     (if value_of a \<noteq> nil \<and> policy a AND OBJC_ASSOCIATION_GETTER_RETAIN \<noteq> 0 then [ObjcRetain (value_of a)] else [])"

definition autoreleaseReturnedValue :: "assoc_env \<Rightarrow> ObjcAssociation \<Rightarrow> u64 \<times> assoc_event list" where
  "autoreleaseReturnedValue env a =
     (if value_of a \<noteq> nil \<and> policy a AND OBJC_ASSOCIATION_GETTER_AUTORELEASE \<noteq> 0
      then (autorelease_result env (value_of a), [ObjcAutorelease (value_of a)])
      else (value_of a, []))"

section \<open>The tables\<close>

type_synonym ObjectAssociationMap = "(u64, ObjcAssociation) dense_map"
type_synonym AssociationsHashMap = "(u64, ObjectAssociationMap) dense_map"

text \<open>Fresh storage of either table holds arbitrary buckets.\<close>

record assoc_storage =
  refs_junk :: "u64 \<times> ObjcAssociation"
  associations_junk :: "u64 \<times> ObjectAssociationMap"

definition refs_params :: "assoc_storage \<Rightarrow> (u64, ObjcAssociation) dm_params" where
  "refs_params s = map_params ptr_info ObjcAssociation_default (refs_junk s) False"

definition empty_refs :: ObjectAssociationMap where
  "empty_refs = \<lparr>Buckets = [], NumEntries = 0, NumTombstones = 0, NumBuckets = 0\<rparr>"

definition associations_params :: "assoc_storage \<Rightarrow> (u64, ObjectAssociationMap) dm_params" where
  "associations_params s = map_params disguised_info empty_refs (associations_junk s) False"

definition AssociationsManager_init :: "assoc_storage \<Rightarrow> fault + AssociationsHashMap" where
  "AssociationsManager_init s = dm_new (associations_params s) 0"

section \<open>Operations\<close>

definition object_get_associative_reference ::
  "assoc_storage \<Rightarrow> assoc_env \<Rightarrow> u64 \<Rightarrow> u64 \<Rightarrow> AssociationsHashMap \<Rightarrow> fault + (u64 \<times> assoc_event list)" where
  "object_get_associative_reference s env object key associations =
     bindE (dm_find (associations_params s) (disguise object) associations) (\<lambda>i.
     bindE (if i \<noteq> dm_end associations then
              let refs = snd (Buckets associations ! i) in
              bindE (dm_find (refs_params s) key refs) (\<lambda>j.
                if j \<noteq> dm_end refs then
                  let association = snd (Buckets refs ! j)
                  in Inr (association, retainReturnedValue association)
                else Inr (ObjcAssociation_default, []))
            else Inr (ObjcAssociation_default, []))
       (\<lambda>(association, ev).
          case autoreleaseReturnedValue env association of (result, ev') \<Rightarrow>
            Inr (result, ManagerLock # ev @ ManagerUnlock # ev')))"

text \<open>The locked part of setting, with a value and with none: the table, what is
  left in \<open>association\<close> and whether it is the object's first association.\<close>

definition establish_association ::
  "assoc_storage \<Rightarrow> u64 \<Rightarrow> u64 \<Rightarrow> ObjcAssociation \<Rightarrow> AssociationsHashMap \<Rightarrow>
    fault + (AssociationsHashMap \<times> ObjcAssociation \<times> bool)" where
  "establish_association s disguised key association associations =
     bindE (dm_new (refs_params s) 0) (\<lambda>fresh.
     bindE (try_emplace (associations_params s) disguised fresh associations) (\<lambda>(associations, i, isFirst).
       let refs = snd (Buckets associations ! i); (moved, rest) = ObjcAssociation_move association in
       bindE (try_emplace (refs_params s) key moved refs) (\<lambda>(refs, j, new).
         if new then Inr (set_second i refs associations, rest, isFirst)
         else case ObjcAssociation_swap (association, snd (Buckets refs ! j)) of (association, stored) \<Rightarrow>
           Inr (set_second i (set_second j stored refs) associations, association, isFirst))))"

definition break_association ::
  "assoc_storage \<Rightarrow> u64 \<Rightarrow> u64 \<Rightarrow> ObjcAssociation \<Rightarrow> AssociationsHashMap \<Rightarrow>
    fault + (AssociationsHashMap \<times> ObjcAssociation)" where
  "break_association s disguised key association associations =
     bindE (dm_find (associations_params s) disguised associations) (\<lambda>i.
       if i \<noteq> dm_end associations then
         let refs = snd (Buckets associations ! i) in
         bindE (dm_find (refs_params s) key refs) (\<lambda>j.
           if j \<noteq> dm_end refs then
             case ObjcAssociation_swap (association, snd (Buckets refs ! j)) of (association, stored) \<Rightarrow>
               bindE (erase_bucket (refs_params s) j (set_second j stored refs)) (\<lambda>refs.
               let associations = set_second i refs associations in
               if dm_size refs = 0
               then bindE (erase_bucket (associations_params s) i associations) (\<lambda>associations.
                 Inr (associations, association))
               else Inr (associations, association))
           else Inr (associations, association))
       else Inr (associations, association))"

definition object_set_associative_reference ::
  "assoc_storage \<Rightarrow> assoc_env \<Rightarrow> u64 \<Rightarrow> u64 \<Rightarrow> u64 \<Rightarrow> u64 \<Rightarrow> AssociationsHashMap \<Rightarrow>
    fault + (AssociationsHashMap \<times> assoc_event list)" where
  "object_set_associative_reference s env object key val pol associations =
     (if object = nil \<and> val = nil then Inr (associations, [])
      else if object = nil then Inl NullDereference
      else if forbidsAssociatedObjects (class_of env object) then Inl ForbidsAssociatedObjects
      else
        let disguised = disguise object;
            (association, ev) = acquireValue env (ObjcAssociation_new pol val)
        in bindE
          (if val \<noteq> nil then establish_association s disguised key association associations
           else bindE (break_association s disguised key association associations) (\<lambda>(associations, association).
             Inr (associations, association, False)))
          (\<lambda>(associations, association, isFirstAssociation).
             Inr (associations, ev @ [ManagerLock, ManagerUnlock] @
               (if isFirstAssociation then [SetHasAssociatedObjects object] else []) @
               releaseHeldValue association)))"

fun reinsert_loop ::
  "assoc_storage \<Rightarrow> (u64 \<times> ObjcAssociation) list \<Rightarrow> ObjectAssociationMap \<Rightarrow> bool \<Rightarrow>
    fault + (ObjectAssociationMap \<times> bool)" where
  "reinsert_loop s [] second didReInsert = Inr (second, didReInsert)"
| "reinsert_loop s (ref # refs) second didReInsert =
     (if policy (snd ref) AND OBJC_ASSOCIATION_SYSTEM_OBJECT \<noteq> 0
      then bindE (dm_insert (refs_params s) ref second) (\<lambda>(second, _). reinsert_loop s refs second True)
      else reinsert_loop s refs second didReInsert)"

fun release_loop ::
  "bool \<Rightarrow> (u64 \<times> ObjcAssociation) list \<Rightarrow> ObjcAssociation small_vector \<Rightarrow>
    ObjcAssociation small_vector \<times> assoc_event list" where
  "release_loop deallocating [] laterRefs = (laterRefs, [])"
| "release_loop deallocating (i # is) laterRefs =
     (if policy (snd i) AND OBJC_ASSOCIATION_SYSTEM_OBJECT \<noteq> 0
      then release_loop deallocating is
        (if deallocating then GlobalSmallVector_append 4 laterRefs (snd i) else laterRefs)
      else case release_loop deallocating is laterRefs of (laterRefs, ev) \<Rightarrow>
        (laterRefs, releaseHeldValue (snd i) @ ev))"

text \<open>The locked part of removing: the table and the associations taken out.\<close>

definition take_associations ::
  "assoc_storage \<Rightarrow> u64 \<Rightarrow> bool \<Rightarrow> AssociationsHashMap \<Rightarrow> fault + (AssociationsHashMap \<times> ObjectAssociationMap)" where
  "take_associations s object deallocating associations =
     bindE (dm_new (refs_params s) 0) (\<lambda>refs.
     bindE (dm_find (associations_params s) (disguise object) associations) (\<lambda>i.
       if i \<noteq> dm_end associations then
         case dm_swap (refs, snd (Buckets associations ! i)) of (refs, second) \<Rightarrow>
           bindE (if \<not> deallocating then reinsert_loop s (dm_iterate (refs_params s) refs) second False
                  else Inr (second, False))
             (\<lambda>(second, didReInsert).
               let associations = set_second i second associations in
               if \<not> didReInsert
               then bindE (erase_bucket (associations_params s) i associations) (\<lambda>associations. Inr (associations, refs))
               else Inr (associations, refs))
       else Inr (associations, refs)))"

definition object_remove_assocations ::
  "assoc_storage \<Rightarrow> u64 \<Rightarrow> bool \<Rightarrow> AssociationsHashMap \<Rightarrow> fault + (AssociationsHashMap \<times> assoc_event list)" where
  "object_remove_assocations s object deallocating associations =
     bindE (take_associations s object deallocating associations) (\<lambda>(associations, refs).
       case release_loop deallocating (dm_iterate (refs_params s) refs)
           (GlobalSmallVector_new 4 ObjcAssociation_default) of (laterRefs, ev) \<Rightarrow>
         Inr (associations, [ManagerLock, ManagerUnlock] @ ev @
           concat (map releaseHeldValue (GlobalSmallVector_range 4 laterRefs))))"

section \<open>The tables as partial maps\<close>

interpretation refs: exact_map_laws "refs_params s" for s
proof (intro exact_map_laws.intro exact_map_laws_axioms.intro)
  show "plain_map_laws (refs_params s)" unfolding refs_params_def
    by (rule plain_map_lawsI) (simp_all add: map_params_def ptr_info.key_info_axioms)
qed (simp add: refs_params_def map_params_def ptr_info_def)

interpretation associations: exact_map_laws "associations_params s" for s
proof (intro exact_map_laws.intro exact_map_laws_axioms.intro)
  show "plain_map_laws (associations_params s)" unfolding associations_params_def
    by (rule plain_map_lawsI) (simp_all add: map_params_def disguised_info.key_info_axioms)
qed (simp add: associations_params_def map_params_def disguised_info_def undisguise_def)

definition refs_inv :: "assoc_storage \<Rightarrow> nat \<Rightarrow> ObjectAssociationMap \<Rightarrow> bool" where
  "refs_inv s e m \<longleftrightarrow> dm_inv (refs_params s) m \<and> dm_sized e m"

text \<open>Both levels are well-formed tables of at most \<open>e\<close> entries, and no object
  keeps an empty table.\<close>

definition assoc_inv :: "assoc_storage \<Rightarrow> nat \<Rightarrow> AssociationsHashMap \<Rightarrow> bool" where
  "assoc_inv s e t \<longleftrightarrow> dm_inv (associations_params s) t \<and> dm_sized e t \<and>
     (\<forall>d m. dm_map (associations_params s) t d = Some m \<longrightarrow> refs_inv s e m \<and> NumEntries m \<noteq> 0)"

definition refs_of :: "assoc_storage \<Rightarrow> AssociationsHashMap \<Rightarrow> u64 \<Rightarrow> u64 \<Rightarrow> ObjcAssociation option" where
  "refs_of s t object = (case dm_map (associations_params s) t (disguise object) of
     None \<Rightarrow> Map.empty | Some m \<Rightarrow> dm_map (refs_params s) m)"

definition assoc_map :: "assoc_storage \<Rightarrow> AssociationsHashMap \<Rightarrow> u64 \<times> u64 \<Rightarrow> ObjcAssociation option" where
  "assoc_map s t = (\<lambda>(object, key). refs_of s t object key)"

definition pointer_ok :: "u64 \<Rightarrow> bool" where
  "pointer_ok p \<longleftrightarrow> p \<noteq> - 1 \<and> p \<noteq> - 2"

lemma disguise_eq [simp]: "disguise a = disguise b \<longleftrightarrow> a = b"
  by (simp add: disguise_def)

lemma live_keys:
  "is_live_key (refs_params s) k \<longleftrightarrow> pointer_ok k"
  "is_live_key (associations_params s) (disguise object) \<longleftrightarrow> pointer_ok object"
  by (simp_all add: is_live_key_def is_empty_key_def is_tombstone_key_def refs_params_def associations_params_def
      map_params_def ptr_info_def disguised_info_def pointer_ok_def)

lemma dm_sized_mono: "dm_sized e m \<Longrightarrow> e \<le> e' \<Longrightarrow> dm_sized e' m"
  by (simp add: dm_sized_def)

lemma assoc_inv_mono: "assoc_inv s e t \<Longrightarrow> e \<le> e' \<Longrightarrow> assoc_inv s e' t"
  unfolding assoc_inv_def refs_inv_def dm_sized_def by (meson le_trans)

lemma refs_of_update:
  assumes "dm_map (associations_params s) t' = (dm_map (associations_params s) t)(disguise object := x)"
  shows "refs_of s t' = (refs_of s t)(object := case x of None \<Rightarrow> Map.empty | Some m \<Rightarrow> dm_map (refs_params s) m)"
  by (auto simp: refs_of_def fun_eq_iff assms)

lemma assoc_map_update:
  assumes "refs_of s t' = (refs_of s t)(object := (refs_of s t object)(key := x))"
  shows "assoc_map s t' = (assoc_map s t)((object, key) := x)"
  by (auto simp: assoc_map_def fun_eq_iff assms)

lemma assoc_inv_update:
  assumes "assoc_inv s e t" "dm_inv (associations_params s) t'" "dm_sized e t'"
    "dm_map (associations_params s) t' = (dm_map (associations_params s) t)(d := x)"
    "\<And>m. x = Some m \<Longrightarrow> refs_inv s e m \<and> NumEntries m \<noteq> 0"
  shows "assoc_inv s e t'"
  using assms by (auto simp: assoc_inv_def)

lemma assoc_invD:
  assumes "assoc_inv s e t"
  shows "dm_inv (associations_params s) t" "dm_sized e t"
    and "dm_map (associations_params s) t d = Some m \<Longrightarrow> dm_inv (refs_params s) m"
    and "dm_map (associations_params s) t d = Some m \<Longrightarrow> dm_sized e m"
    and "dm_map (associations_params s) t d = Some m \<Longrightarrow> dm_map (refs_params s) m \<noteq> Map.empty"
proof -
  have "refs_inv s e m \<and> NumEntries m \<noteq> 0" if "dm_map (associations_params s) t d = Some m"
    using assms that unfolding assoc_inv_def by blast
  then show "dm_map (associations_params s) t d = Some m \<Longrightarrow> dm_inv (refs_params s) m"
    "dm_map (associations_params s) t d = Some m \<Longrightarrow> dm_sized e m"
    "dm_map (associations_params s) t d = Some m \<Longrightarrow> dm_map (refs_params s) m \<noteq> Map.empty"
    using refs.size_exact [of s m] by (simp_all add: refs_inv_def)
qed (use assms in \<open>simp_all add: assoc_inv_def\<close>)

lemma first_association:
  assumes "assoc_inv s e t"
  shows "dm_map (associations_params s) t (disguise object) = None \<longleftrightarrow> refs_of s t object = Map.empty"
  using assoc_invD(5) [OF assms, of "disguise object"]
  by (simp add: refs_of_def split: option.split)

lemma refs_of_Some: "dm_map (associations_params s) t (disguise object) = Some m \<Longrightarrow> refs_of s t object = dm_map (refs_params s) m"
  by (simp add: refs_of_def)

section \<open>Getting\<close>

definition lookup_association :: "assoc_storage \<Rightarrow> AssociationsHashMap \<Rightarrow> u64 \<Rightarrow> u64 \<Rightarrow> ObjcAssociation" where
  "lookup_association s t object key = (case assoc_map s t (object, key) of
     None \<Rightarrow> ObjcAssociation_default | Some a \<Rightarrow> a)"

lemma no_value_events [simp]:
  "value_of a = nil \<Longrightarrow> retainReturnedValue a = []"
  "value_of a = nil \<Longrightarrow> releaseHeldValue a = []"
  "value_of a = nil \<Longrightarrow> autoreleaseReturnedValue env a = (nil, [])"
  "value_of ObjcAssociation_default = nil"
  by (simp_all add: retainReturnedValue_def releaseHeldValue_def autoreleaseReturnedValue_def ObjcAssociation_default_def)

lemma get_spec:
  assumes "assoc_inv s e t" "pointer_ok object" "pointer_ok key"
  shows "object_get_associative_reference s env object key t =
    (let a = lookup_association s t object key in
     Inr (fst (autoreleaseReturnedValue env a),
       ManagerLock # retainReturnedValue a @ ManagerUnlock # snd (autoreleaseReturnedValue env a)))"
proof (cases "dm_map (associations_params s) t (disguise object)")
  case None
  then have "dm_find (associations_params s) (disguise object) t = Inr (dm_end t)"
    using associations.find_exact [OF assoc_invD(1) [OF assms(1)], of "disguise object"] assms(2)
    by (auto simp: live_keys)
  then show ?thesis using None
    by (simp add: object_get_associative_reference_def lookup_association_def assoc_map_def refs_of_def)
next
  case (Some m)
  then obtain i where i: "dm_find (associations_params s) (disguise object) t = Inr i" "i \<noteq> dm_end t" "val_at t i = m"
    using associations.find_exact [OF assoc_invD(1) [OF assms(1)], of "disguise object"] assms(2)
    by (auto simp: live_keys)
  obtain j where j: "dm_find (refs_params s) key m = Inr j"
    "case dm_map (refs_params s) m key of None \<Rightarrow> j = dm_end m | Some v \<Rightarrow> j \<noteq> dm_end m \<and> val_at m j = v"
    using refs.find_exact [OF assoc_invD(3) [OF assms(1) Some], of key] assms(3)
    by (auto simp: live_keys split: option.splits)
  have "refs_of s t object = dm_map (refs_params s) m" using Some by (rule refs_of_Some)
  then show ?thesis using i j
    by (auto simp: object_get_associative_reference_def lookup_association_def assoc_map_def val_at_def Let_def
        split: option.splits prod.splits)
qed

section \<open>Setting\<close>

lemma association_swap [simp]: "ObjcAssociation_swap (a, b) = (b, a)"
  by (simp add: ObjcAssociation_swap_def)

lemma association_move [simp]: "ObjcAssociation_move a = (a, ObjcAssociation_default)"
  by (simp add: ObjcAssociation_move_def)

lemma store_refs:
  assumes "assoc_inv s e t" "e \<le> e'" "dm_inv (associations_params s) t1" "dm_sized e' t1"
    "live_at (associations_params s) t1 i" "key_at t1 i = disguise object"
    "dm_map (associations_params s) t1 = (dm_map (associations_params s) t)(disguise object \<mapsto> m0)"
    "dm_inv (refs_params s) m" "dm_sized e' m" "dm_map (refs_params s) m \<noteq> Map.empty"
  shows "assoc_inv s e' (set_second i m t1)"
    "refs_of s (set_second i m t1) = (refs_of s t)(object := dm_map (refs_params s) m)"
proof -
  note ss = associations.set_second_exact [OF assms(3,5), where v = m]
  have map2: "dm_map (associations_params s) (set_second i m t1) =
      (dm_map (associations_params s) t)(disguise object \<mapsto> m)"
    unfolding ss(2) assms(6,7) by simp
  show "assoc_inv s e' (set_second i m t1)"
    by (rule assoc_inv_update [OF assoc_inv_mono [OF assms(1,2)] ss(1) _ map2])
      (use ss(3) assms(4,8-10) refs.size_exact [OF assms(8)] in \<open>auto simp: refs_inv_def\<close>)
  show "refs_of s (set_second i m t1) = (refs_of s t)(object := dm_map (refs_params s) m)"
    using refs_of_update [OF map2] by simp
qed

lemma establish_spec:
  assumes "assoc_inv s e t" "e < 2 ^ 24" "pointer_ok object" "pointer_ok key"
  shows "\<exists>t'. establish_association s (disguise object) key a t =
      Inr (t', case refs_of s t object key of None \<Rightarrow> ObjcAssociation_default | Some old \<Rightarrow> old,
        refs_of s t object = Map.empty) \<and>
    assoc_inv s (e + 1) t' \<and> assoc_map s t' = (assoc_map s t)((object, key) \<mapsto> a)"
proof -
  let ?d = "disguise object" and ?P = "associations_params s" and ?R = "refs_params s"
  obtain fresh where fresh: "dm_new ?R 0 = Inr fresh" "dm_inv ?R fresh" "dm_map ?R fresh = Map.empty" "dm_sized e fresh"
    using refs.new_exact by blast
  define m where "m = (case dm_map ?P t ?d of None \<Rightarrow> fresh | Some w \<Rightarrow> w)"
  have m: "dm_inv ?R m" "dm_sized e m" "dm_map ?R m = refs_of s t object"
    using fresh assoc_invD(3,4) [OF assms(1)] by (auto simp: m_def refs_of_def split: option.split)
  obtain t1 i where t1: "try_emplace ?P ?d fresh t = Inr (t1, i, dm_map ?P t ?d = None)" "dm_inv ?P t1"
    "dm_sized (e + 1) t1" "live_at ?P t1 i" "key_at t1 i = ?d" "val_at t1 i = m" "dm_map ?P t1 = (dm_map ?P t)(?d \<mapsto> m)"
    using associations.emplace_exact [OF assoc_invD(1,2) [OF assms(1)] assms(2), where k = ?d and v = fresh] assms(3)
    unfolding live_keys m_def by blast
  obtain m1 j where m1: "try_emplace ?R key a m = Inr (m1, j, refs_of s t object key = None)" "dm_inv ?R m1"
    "dm_sized (e + 1) m1" "live_at ?R m1 j" "key_at m1 j = key"
    "val_at m1 j = (case refs_of s t object key of None \<Rightarrow> a | Some w \<Rightarrow> w)"
    "dm_map ?R m1 = (refs_of s t object)(key \<mapsto> case refs_of s t object key of None \<Rightarrow> a | Some w \<Rightarrow> w)"
    using refs.emplace_exact [OF m(1,2) assms(2), where k = key and v = a] assms(4) unfolding live_keys m(3) by blast
  define m2 where "m2 = (if refs_of s t object key = None then m1 else set_second j a m1)"
  have m2: "dm_inv ?R m2" "dm_sized (e + 1) m2" "dm_map ?R m2 = (refs_of s t object)(key \<mapsto> a)"
    using m1 refs.set_second_exact [OF m1(2,4), where v = a] by (auto simp: m2_def split: option.splits)
  have "dm_map ?R m2 \<noteq> Map.empty" using m2(3) by simp
  note st = store_refs [OF assms(1) _ t1(2-5,7) m2(1,2) this]
  have "establish_association s ?d key a t =
      Inr (set_second i m2 t1, case refs_of s t object key of None \<Rightarrow> ObjcAssociation_default | Some old \<Rightarrow> old,
        refs_of s t object = Map.empty)"
    using m1(1,6) t1(1,6) first_association [OF assms(1), of object]
    by (auto simp: establish_association_def fresh(1) val_at_def m2_def split: option.splits)
  moreover have "assoc_map s (set_second i m2 t1) = (assoc_map s t)((object, key) \<mapsto> a)"
    by (rule assoc_map_update) (simp add: st(2) m2(3))
  ultimately show ?thesis using st(1) by auto
qed

lemma find_refs:
  assumes "assoc_inv s e t" "pointer_ok object"
  obtains (missing) "dm_map (associations_params s) t (disguise object) = None"
      "dm_find (associations_params s) (disguise object) t = Inr (dm_end t)" "refs_of s t object = Map.empty"
    | (found) i m where "dm_map (associations_params s) t (disguise object) = Some m"
      "dm_find (associations_params s) (disguise object) t = Inr i" "i \<noteq> dm_end t"
      "live_at (associations_params s) t i" "key_at t i = disguise object" "snd (Buckets t ! i) = m"
      "dm_inv (refs_params s) m" "dm_sized e m" "dm_map (refs_params s) m = refs_of s t object"
proof (cases "dm_map (associations_params s) t (disguise object)")
  case None
  then show thesis
    using associations.find_exact [OF assoc_invD(1) [OF assms(1)], of "disguise object"] assms(2)
    by (intro missing) (auto simp: live_keys refs_of_def)
next
  case (Some m)
  then show thesis
    using associations.find_exact [OF assoc_invD(1) [OF assms(1)], of "disguise object"] assms(2)
      assoc_invD(3,4) [OF assms(1) Some] refs_of_Some [OF Some]
    by (auto simp: live_keys val_at_def intro: found)
qed

lemma drop_refs:
  assumes "assoc_inv s e t" "live_at (associations_params s) t i" "key_at t i = disguise object"
  shows "\<exists>t'. erase_bucket (associations_params s) i (set_second i m t) = Inr t' \<and> assoc_inv s e t' \<and>
    refs_of s t' = (refs_of s t)(object := Map.empty)"
proof -
  note I = assoc_invD [OF assms(1)]
  note ss = associations.set_second_exact [OF I(1) assms(2), where v = m]
  obtain t' where t': "erase_bucket (associations_params s) i (set_second i m t) = Inr t'"
    "dm_inv (associations_params s) t'" "dm_sized e t'"
    "dm_map (associations_params s) t' = (dm_map (associations_params s) t)(disguise object := None)"
    using associations.erase_exact [OF ss(1,4)] unfolding ss(2,3,5) assms(3) using I(2) ss(3) by fastforce
  have "assoc_inv s e t'" by (rule assoc_inv_update [OF assms(1) t'(2-4)]) simp
  then show ?thesis using t'(1) refs_of_update [OF t'(4)] by simp
qed

lemma break_spec:
  assumes "assoc_inv s e t" "pointer_ok object" "pointer_ok key"
  shows "\<exists>t'. break_association s (disguise object) key a t =
      Inr (t', case refs_of s t object key of None \<Rightarrow> a | Some old \<Rightarrow> old) \<and>
    assoc_inv s e t' \<and> assoc_map s t' = (assoc_map s t)((object, key) := None)"
  using assms(1,2)
proof (cases rule: find_refs)
  case missing
  then show ?thesis using assms(1)
    by (auto simp: break_association_def assoc_map_def fun_eq_iff)
next
  case (found i m)
  obtain j where j: "dm_find (refs_params s) key m = Inr j" "case refs_of s t object key of None \<Rightarrow> j = dm_end m
      | Some v \<Rightarrow> j \<noteq> dm_end m \<and> live_at (refs_params s) m j \<and> key_at m j = key \<and> val_at m j = v"
    using refs.find_exact [OF found(7), of key] assms(3) unfolding live_keys found(9) by blast
  show ?thesis
  proof (cases "refs_of s t object key")
    case None
    then show ?thesis using assms(1) found j
      by (auto simp: break_association_def assoc_map_def fun_eq_iff)
  next
    case (Some old)
    then have J: "j \<noteq> dm_end m" "live_at (refs_params s) m j" "key_at m j = key" "snd (Buckets m ! j) = old"
      using j(2) by (auto simp: val_at_def)
    note ss = refs.set_second_exact [OF found(7) J(2), where v = a]
    obtain m2 where m2: "erase_bucket (refs_params s) j (set_second j a m) = Inr m2" "dm_inv (refs_params s) m2"
      "dm_sized e m2" "dm_map (refs_params s) m2 = (refs_of s t object)(key := None)"
      using refs.erase_exact [OF ss(1,4)] unfolding ss(2,5) J(3) found(9) using ss(3) found(8) by fastforce
    have b: "break_association s (disguise object) key a t =
        (if dm_map (refs_params s) m2 = Map.empty
         then bindE (erase_bucket (associations_params s) i (set_second i m2 t)) (\<lambda>t. Inr (t, old))
         else Inr (set_second i m2 t, old))"
      using found(2,3,6) j(1) J(1,4) m2(1) refs.size_exact [OF m2(2)]
      by (simp add: break_association_def dm_size_def)
    have upd: "assoc_map s t' = (assoc_map s t)((object, key) := None)"
      if "refs_of s t' = (refs_of s t)(object := dm_map (refs_params s) m2)" for t'
      by (rule assoc_map_update) (simp add: that m2(4))
    show ?thesis
    proof (cases "dm_map (refs_params s) m2 = Map.empty")
      case True
      then show ?thesis using drop_refs [OF assms(1) found(4,5), of m2] upd b Some by auto
    next
      case False
      have "dm_map (associations_params s) t = (dm_map (associations_params s) t)(disguise object \<mapsto> m)"
        using found(1) by (simp add: fun_upd_idem)
      from store_refs [OF assms(1) order_refl assoc_invD(1,2) [OF assms(1)] found(4,5) this m2(2,3) False]
      show ?thesis using upd b False Some by auto
    qed
  qed
qed

lemma set_spec:
  assumes "assoc_inv s e t" "e < 2 ^ 24" "pointer_ok object" "pointer_ok key" "object \<noteq> nil"
    "\<not> forbidsAssociatedObjects (class_of env object)" "acquireValue env (ObjcAssociation_new pol val) = (a, ev)"
  shows "\<exists>t'. object_set_associative_reference s env object key val pol t =
      Inr (t', ev @ [ManagerLock, ManagerUnlock] @
        (if val \<noteq> nil \<and> refs_of s t object = Map.empty then [SetHasAssociatedObjects object] else []) @
        (case assoc_map s t (object, key) of None \<Rightarrow> [] | Some old \<Rightarrow> releaseHeldValue old)) \<and>
    assoc_inv s (e + 1) t' \<and> assoc_map s t' = (assoc_map s t)((object, key) := if val = nil then None else Some a)"
proof (cases "val = nil")
  case True
  then have a: "value_of a = nil"
    using assms(7) by (simp add: acquireValue_def ObjcAssociation_new_def) (metis select_convs(2) ObjcAssociation.select_convs(2))
  obtain t' where t': "break_association s (disguise object) key a t =
      Inr (t', case refs_of s t object key of None \<Rightarrow> a | Some old \<Rightarrow> old)"
    "assoc_inv s e t'" "assoc_map s t' = (assoc_map s t)((object, key) := None)"
    using break_spec [OF assms(1,3,4), of a] by blast
  have "assoc_inv s (e + 1) t'" by (rule assoc_inv_mono [OF t'(2)]) simp
  with t' a True show ?thesis using assms(5,6,7)
    by (auto simp: object_set_associative_reference_def assoc_map_def split: option.split)
next
  case False
  obtain t' where t': "establish_association s (disguise object) key a t =
      Inr (t', case refs_of s t object key of None \<Rightarrow> ObjcAssociation_default | Some old \<Rightarrow> old,
        refs_of s t object = Map.empty)"
    "assoc_inv s (e + 1) t'" "assoc_map s t' = (assoc_map s t)((object, key) \<mapsto> a)"
    using establish_spec [OF assms(1-4), of a] by blast
  with False show ?thesis using assms(5,6,7)
    by (auto simp: object_set_associative_reference_def assoc_map_def split: option.split)
qed

section \<open>Removing\<close>

definition system_object :: "ObjcAssociation \<Rightarrow> bool" where
  "system_object a \<longleftrightarrow> policy a AND OBJC_ASSOCIATION_SYSTEM_OBJECT \<noteq> 0"

definition preserved :: "(u64 \<Rightarrow> ObjcAssociation option) \<Rightarrow> u64 \<Rightarrow> ObjcAssociation option" where
  "preserved f key = (case f key of Some a \<Rightarrow> if system_object a then Some a else None | None \<Rightarrow> None)"

lemma reinsert_loop_spec:
  assumes "dm_inv (refs_params s) m" "dm_sized e m" "e + length rs < 2 ^ 24" "\<forall>r\<in>set rs. pointer_ok (fst r)"
    "distinct (map fst rs)" "\<forall>r\<in>set rs. dm_map (refs_params s) m (fst r) = None"
  shows "\<exists>m'. reinsert_loop s rs m b = Inr (m', b \<or> (\<exists>r\<in>set rs. system_object (snd r))) \<and>
    dm_inv (refs_params s) m' \<and> dm_sized (e + length rs) m' \<and>
    dm_map (refs_params s) m' = dm_map (refs_params s) m ++ map_of (filter (\<lambda>r. system_object (snd r)) rs)"
  using assms
proof (induction rs arbitrary: m e b)
  case (Cons r rs)
  show ?case
  proof (cases "system_object (snd r)")
    case True
    have "e < 2 ^ 24" "is_live_key (refs_params s) (fst r)" "dm_map (refs_params s) m (fst r) = None"
      using Cons.prems(3,4,6) by (auto simp: live_keys)
    then obtain m1 i where m1: "try_emplace (refs_params s) (fst r) (snd r) m = Inr (m1, i, True)"
      "dm_inv (refs_params s) m1" "dm_sized (e + 1) m1"
      "dm_map (refs_params s) m1 = (dm_map (refs_params s) m)(fst r \<mapsto> snd r)"
      using refs.emplace_exact [OF Cons.prems(1,2), where k = "fst r" and v = "snd r"] by auto
    have n: "\<forall>x\<in>set rs. dm_map (refs_params s) m1 (fst x) = None"
    proof
      fix x assume x: "x \<in> set rs"
      then have "fst x \<in> fst ` set rs" by (rule imageI)
      moreover have "fst r \<notin> fst ` set rs" using Cons.prems(5) by simp
      ultimately have "fst x \<noteq> fst r" by metis
      then show "dm_map (refs_params s) m1 (fst x) = None" using x Cons.prems(6) by (simp add: m1(4))
    qed
    obtain m' where m': "reinsert_loop s rs m1 True = Inr (m', True)" "dm_inv (refs_params s) m'"
      "dm_sized (e + 1 + length rs) m'"
      "dm_map (refs_params s) m' = dm_map (refs_params s) m1 ++ map_of (filter (\<lambda>r. system_object (snd r)) rs)"
      using Cons.IH [OF m1(2,3) _ _ _ n, of True] Cons.prems(3-5) by auto
    have "fst r \<notin> dom (map_of (filter (\<lambda>r. system_object (snd r)) rs))"
      using Cons.prems(5) by (auto simp: dom_map_of_conv_image_fst)
    then have "dm_map (refs_params s) m' =
        dm_map (refs_params s) m ++ map_of (filter (\<lambda>r. system_object (snd r)) (r # rs))"
      using True m'(4) m1(4) by (simp add: map_add_upd_left)
    moreover have "reinsert_loop s (r # rs) m b = Inr (m', True)"
      using True m1(1) m'(1) by (simp add: dm_insert_def system_object_def)
    moreover have "dm_sized (e + length (r # rs)) m'" using m'(3) by simp
    ultimately show ?thesis using True m'(2) by (intro exI [of _ m'] conjI) (simp_all only: list.set bex_simps simp_thms)
  next
    case False
    have "dm_sized (Suc e) m" using Cons.prems(2) by (rule dm_sized_mono) simp
    then show ?thesis using Cons.IH [OF Cons.prems(1), of "Suc e" b] Cons.prems(3-6) False
      by (auto simp: system_object_def)
  qed
qed simp

lemma release_loop_spec:
  assumes "small_vector_wf 4 v" "sv_count v + length rs < 2 ^ 32"
  shows "\<exists>v'. release_loop d rs v =
      (v', concat (map (\<lambda>r. releaseHeldValue (snd r)) (filter (\<lambda>r. \<not> system_object (snd r)) rs))) \<and>
    GlobalSmallVector_range 4 v' = GlobalSmallVector_range 4 v @
      (if d then map snd (filter (\<lambda>r. system_object (snd r)) rs) else [])"
  using assms
proof (induction rs arbitrary: v)
  case (Cons r rs)
  show ?case
  proof (cases "system_object (snd r) \<and> d")
    case True
    let ?w = "GlobalSmallVector_append 4 v (snd r)"
    have c: "sv_count v + 1 < 2 ^ 32" using Cons.prems(2) by simp
    then have "sv_count ?w = sv_count v + 1" by (simp add: GlobalSmallVector_append_def Let_def)
    then show ?thesis
      using Cons.IH [OF GlobalSmallVector_append_wf [OF Cons.prems(1) c], of "snd r"] Cons.prems(2) True
        GlobalSmallVector_append_range [OF Cons.prems(1) c, of "snd r"]
      by (auto simp: system_object_def)
  next
    case False
    then show ?thesis using Cons.IH [OF Cons.prems(1)] Cons.prems(2)
      by (auto simp: system_object_def split: prod.split)
  qed
qed simp

lemma table_swap [simp]: "dm_swap (l, r) = (r, l)"
  by (simp add: dm_swap_def)

lemma map_of_preserved:
  assumes "distinct (map fst rs)" "set rs = {(k, a). f k = Some a}"
  shows "map_of (filter (\<lambda>r. system_object (snd r)) rs) = preserved f"
proof
  fix k
  have "distinct (map fst (filter (\<lambda>r. system_object (snd r)) rs))"
    using assms(1) by (rule distinct_map_filter)
  then have "map_of (filter (\<lambda>r. system_object (snd r)) rs) k = Some a \<longleftrightarrow> f k = Some a \<and> system_object a" for a
    using assms(2) by (simp add: map_of_eq_Some_iff)
  moreover have "preserved f k = Some a \<longleftrightarrow> f k = Some a \<and> system_object a" for a
    by (auto simp: preserved_def split: option.split)
  ultimately show "map_of (filter (\<lambda>r. system_object (snd r)) rs) k = preserved f k"
    by (metis option.exhaust)
qed

lemma take_found:
  assumes "assoc_inv s e t" "e < 2 ^ 24" "live_at (associations_params s) t i" "key_at t i = disguise object"
    "dm_map (associations_params s) t (disguise object) = Some m" "dm_inv (refs_params s) m" "dm_sized e m"
    "dm_inv (refs_params s) fresh" "dm_map (refs_params s) fresh = Map.empty" "dm_sized 0 fresh"
  shows "\<exists>second did t'. (if \<not> d then reinsert_loop s (dm_iterate (refs_params s) m) fresh False
        else Inr (fresh, False)) = Inr (second, did) \<and>
      (if \<not> did then erase_bucket (associations_params s) i (set_second i second t)
       else Inr (set_second i second t)) = Inr t' \<and> assoc_inv s e t' \<and>
      refs_of s t' = (refs_of s t)(object := if d then Map.empty else preserved (dm_map (refs_params s) m))"
proof -
  let ?rs = "dm_iterate (refs_params s) m" and ?f = "dm_map (refs_params s) m"
  note it = refs.iterate_exact [OF assms(6)]
  have len: "length ?rs \<le> e" using it(3) assms(7) by (simp add: dm_sized_def)
  have "0 + length ?rs < 2 ^ 24" "\<forall>r\<in>set ?rs. pointer_ok (fst r)"
    "\<forall>r\<in>set ?rs. dm_map (refs_params s) fresh (fst r) = None"
    using len assms(2,9) it(4) by (simp_all add: live_keys)
  from reinsert_loop_spec [OF assms(8,10) this(1,2) it(2) this(3), of False] obtain second where
    second: "reinsert_loop s ?rs fresh False = Inr (second, \<exists>r\<in>set ?rs. system_object (snd r))"
    "dm_inv (refs_params s) second" "dm_sized (length ?rs) second" "dm_map (refs_params s) second = preserved ?f"
    using map_of_preserved [OF it(2,1)] assms(9) by auto
  have none: "preserved ?f = Map.empty" if "\<not> (\<exists>r\<in>set ?rs. system_object (snd r))"
    using that it(1) by (auto simp: preserved_def fun_eq_iff split: option.split)
  have some: "preserved ?f \<noteq> Map.empty" if "\<exists>r\<in>set ?rs. system_object (snd r)"
    using that it(1) by (auto simp: preserved_def fun_eq_iff split: option.splits)
  show ?thesis
  proof (cases "d \<or> \<not> (\<exists>r\<in>set ?rs. system_object (snd r))")
    case True
    then show ?thesis
      using drop_refs [OF assms(1,3,4), of "if d then fresh else second"] second(1) none by (cases d) auto
  next
    case False
    have "dm_map (associations_params s) t = (dm_map (associations_params s) t)(disguise object \<mapsto> m)"
      using assms(5) by (simp add: fun_upd_idem)
    note st = store_refs [OF assms(1) order_refl assoc_invD(1,2) [OF assms(1)] assms(3,4) this second(2)
        dm_sized_mono [OF second(3) len]]
    show ?thesis using st second(1,4) some False by auto
  qed
qed

lemma take_spec:
  assumes "assoc_inv s e t" "e < 2 ^ 24" "pointer_ok object"
  shows "\<exists>t' m. take_associations s object d t = Inr (t', m) \<and> assoc_inv s e t' \<and>
    dm_inv (refs_params s) m \<and> dm_sized e m \<and> dm_map (refs_params s) m = refs_of s t object \<and>
    refs_of s t' = (refs_of s t)(object := if d then Map.empty else preserved (refs_of s t object))"
proof -
  obtain fresh where fresh: "dm_new (refs_params s) 0 = Inr fresh" "dm_inv (refs_params s) fresh"
    "dm_map (refs_params s) fresh = Map.empty" "dm_sized 0 fresh"
    using refs.new_exact by blast
  show ?thesis using assms(1,3)
  proof (cases rule: find_refs)
    case missing
    have "preserved Map.empty = Map.empty" by (simp add: preserved_def fun_eq_iff)
    moreover have "dm_sized e fresh" using fresh(4) by (rule dm_sized_mono) simp
    ultimately show ?thesis using missing fresh assms(1) by (simp add: take_associations_def fun_upd_idem)
  next
    case (found i m)
    from take_found [OF assms(1,2) found(4,5,1,7,8) fresh(2-4), of d] obtain second did t' where
      r: "(if \<not> d then reinsert_loop s (dm_iterate (refs_params s) m) fresh False else Inr (fresh, False)) = Inr (second, did)"
      "(if \<not> did then erase_bucket (associations_params s) i (set_second i second t)
        else Inr (set_second i second t)) = Inr t'" "assoc_inv s e t'"
      "refs_of s t' = (refs_of s t)(object := if d then Map.empty else preserved (refs_of s t object))"
      unfolding found(9) by blast
    have "take_associations s object d t = Inr (t', m)"
      using r(2) found(2,3,6) by (simp add: take_associations_def fresh(1) r(1) split: if_splits)
    then show ?thesis using r(3,4) found(7-9) by blast
  qed
qed

lemma remove_spec:
  assumes "assoc_inv s e t" "e < 2 ^ 24" "pointer_ok object"
  shows "\<exists>t' rs. object_remove_assocations s object d t = Inr (t', [ManagerLock, ManagerUnlock] @
      concat (map (\<lambda>r. releaseHeldValue (snd r)) (filter (\<lambda>r. \<not> system_object (snd r)) rs)) @
      (if d then concat (map (\<lambda>r. releaseHeldValue (snd r)) (filter (\<lambda>r. system_object (snd r)) rs)) else [])) \<and>
    assoc_inv s e t' \<and> distinct (map fst rs) \<and> set rs = {(k, a). refs_of s t object k = Some a} \<and>
    refs_of s t' = (refs_of s t)(object := if d then Map.empty else preserved (refs_of s t object))"
proof -
  obtain t' m where m: "take_associations s object d t = Inr (t', m)" "assoc_inv s e t'"
    "dm_inv (refs_params s) m" "dm_sized e m" "dm_map (refs_params s) m = refs_of s t object"
    "refs_of s t' = (refs_of s t)(object := if d then Map.empty else preserved (refs_of s t object))"
    using take_spec [OF assms, of d] by blast
  let ?rs = "dm_iterate (refs_params s) m" and ?v = "GlobalSmallVector_new 4 ObjcAssociation_default"
  note it = refs.iterate_exact [OF m(3), unfolded m(5)]
  have "sv_count ?v + length ?rs < 2 ^ 32" "GlobalSmallVector_range 4 ?v = []"
    using it(3) m(4) assms(2) by (auto simp: dm_sized_def GlobalSmallVector_new_def GlobalSmallVector_range_def)
  then obtain v' where "release_loop d ?rs ?v =
      (v', concat (map (\<lambda>r. releaseHeldValue (snd r)) (filter (\<lambda>r. \<not> system_object (snd r)) ?rs)))"
    "GlobalSmallVector_range 4 v' = (if d then map snd (filter (\<lambda>r. system_object (snd r)) ?rs) else [])"
    using release_loop_spec [OF small_vector_wf_new [of 4 ObjcAssociation_default], of ?rs d] by auto
  then show ?thesis using m(1,2,6) it(1,2)
    by (intro exI [of _ t'] exI [of _ ?rs]) (simp add: object_remove_assocations_def comp_def)
qed

end
