(* ===== verification/Associations_Balance.thy ===== *)
theory Associations_Balance
  imports Associations
begin

text \<open>
  Sequences of operations on associated references.  A run answers as a partial
  map from pairs of object and key does, and its trace is balanced: the values
  that setting retains or copies, and those a getter retains, are the values
  released or autoreleased together with those the table still holds.  The
  balance needs the policies the API documents; a policy whose low byte is odd
  but neither \<open>RETAIN\<close> nor \<open>COPY\<close> would be released without being retained.
\<close>

section \<open>Operations\<close>

datatype assoc_op =
    SetAssociation u64 u64 u64 u64
  | GetAssociation u64 u64
  | RemoveAssociations u64 bool

fun assoc_step ::
  "assoc_storage \<Rightarrow> assoc_env \<Rightarrow> assoc_op \<Rightarrow> AssociationsHashMap \<Rightarrow>
    fault + (AssociationsHashMap \<times> u64 list \<times> assoc_event list)" where
  "assoc_step s env (SetAssociation object key val pol) t =
     bindE (object_set_associative_reference s env object key val pol t) (\<lambda>(t, ev). Inr (t, [], ev))"
| "assoc_step s env (GetAssociation object key) t =
     bindE (object_get_associative_reference s env object key t) (\<lambda>(r, ev). Inr (t, [r], ev))"
| "assoc_step s env (RemoveAssociations object d) t =
     bindE (object_remove_assocations s object d t) (\<lambda>(t, ev). Inr (t, [], ev))"

fun assoc_run ::
  "assoc_storage \<Rightarrow> assoc_env \<Rightarrow> assoc_op list \<Rightarrow> AssociationsHashMap \<Rightarrow>
    fault + (AssociationsHashMap \<times> u64 list \<times> assoc_event list)" where
  "assoc_run s env [] t = Inr (t, [], [])"
| "assoc_run s env (op # ops) t =
     bindE (assoc_step s env op t) (\<lambda>(t, r, ev).
     bindE (assoc_run s env ops t) (\<lambda>(t, rs, evs). Inr (t, r @ rs, ev @ evs)))"

section \<open>The specification\<close>

type_synonym association_map = "u64 \<times> u64 \<Rightarrow> ObjcAssociation option"

definition spec_remove :: "u64 \<Rightarrow> bool \<Rightarrow> association_map \<Rightarrow> association_map" where
  "spec_remove object d f = (\<lambda>(x, key).
     if x \<noteq> object then f (x, key)
     else if d then None
     else preserved (\<lambda>k. f (object, k)) key)"

fun assoc_spec :: "assoc_env \<Rightarrow> assoc_op \<Rightarrow> association_map \<Rightarrow> association_map \<times> u64 list" where
  "assoc_spec env (SetAssociation object key val pol) f =
     (if object = nil then f
      else f((object, key) := if val = nil then None else Some (fst (acquireValue env (ObjcAssociation_new pol val)))), [])"
| "assoc_spec env (GetAssociation object key) f =
     (f, [case f (object, key) of None \<Rightarrow> nil | Some a \<Rightarrow> fst (autoreleaseReturnedValue env a)])"
| "assoc_spec env (RemoveAssociations object d) f = (spec_remove object d f, [])"

fun assoc_spec_run :: "assoc_env \<Rightarrow> assoc_op list \<Rightarrow> association_map \<Rightarrow> association_map \<times> u64 list" where
  "assoc_spec_run env [] f = (f, [])"
| "assoc_spec_run env (op # ops) f =
     (let (f', r) = assoc_spec env op f; (f'', rs) = assoc_spec_run env ops f' in (f'', r @ rs))"

text \<open>What a caller must respect: no reserved pointer, no value on a nil object,
  no object whose class forbids associations.\<close>

fun assoc_op_ok :: "assoc_env \<Rightarrow> assoc_op \<Rightarrow> bool" where
  "assoc_op_ok env (SetAssociation object key val pol) \<longleftrightarrow> pointer_ok object \<and> pointer_ok key \<and>
     (if object = nil then val = nil else \<not> forbidsAssociatedObjects (class_of env object))"
| "assoc_op_ok env (GetAssociation object key) \<longleftrightarrow> pointer_ok object \<and> pointer_ok key"
| "assoc_op_ok env (RemoveAssociations object d) \<longleftrightarrow> pointer_ok object"

definition policy_ok :: "u64 \<Rightarrow> bool" where
  "policy_ok pol \<longleftrightarrow> pol AND 0xFF \<in> {OBJC_ASSOCIATION_SETTER_ASSIGN, OBJC_ASSOCIATION_SETTER_RETAIN, OBJC_ASSOCIATION_SETTER_COPY} \<and>
     (pol AND OBJC_ASSOCIATION_GETTER_RETAIN = 0 \<longleftrightarrow> pol AND OBJC_ASSOCIATION_GETTER_AUTORELEASE = 0)"

fun op_policy_ok :: "assoc_op \<Rightarrow> bool" where
  "op_policy_ok (SetAssociation object key val pol) \<longleftrightarrow> policy_ok pol"
| "op_policy_ok _ \<longleftrightarrow> True"

section \<open>The count of references\<close>

fun acquired_by :: "assoc_event \<Rightarrow> u64 multiset" where
  "acquired_by (ObjcRetain v) = {#v#}"
| "acquired_by (SendCopy v r) = (if r = nil then {#} else {#r#})"
| "acquired_by _ = {#}"

fun released_by :: "assoc_event \<Rightarrow> u64 multiset" where
  "released_by (ObjcRelease v) = {#v#}"
| "released_by (ObjcAutorelease v) = {#v#}"
| "released_by _ = {#}"

definition acquired :: "assoc_event list \<Rightarrow> u64 multiset" where
  "acquired ev = sum_list (map acquired_by ev)"

definition released :: "assoc_event list \<Rightarrow> u64 multiset" where
  "released ev = sum_list (map released_by ev)"

definition holds :: "ObjcAssociation option \<Rightarrow> u64 multiset" where
  "holds x = (case x of None \<Rightarrow> {#} | Some a \<Rightarrow> released (releaseHeldValue a))"

definition still_held :: "association_map \<Rightarrow> u64 multiset" where
  "still_held f = (\<Sum>x \<in> dom f. holds (f x))"

lemma trace_simps [simp]:
  "acquired [] = {#}" "acquired (x # ev) = acquired_by x + acquired ev" "acquired (ev @ ev') = acquired ev + acquired ev'"
  "released [] = {#}" "released (x # ev) = released_by x + released ev" "released (ev @ ev') = released ev + released ev'"
  by (simp_all add: acquired_def released_def)

lemma holds_simps [simp]: "holds None = {#}" "holds (Some a) = released (releaseHeldValue a)"
  by (simp_all add: holds_def)

lemma held_upd:
  assumes "finite (dom f)"
  shows "still_held (f(x := y)) + holds (f x) = still_held f + holds y"
proof -
  have rest: "still_held g = holds (g x) + (\<Sum>z \<in> dom f - {x}. holds (f z))" if "g = f(x := w)" for g w
  proof -
    have "(\<Sum>z \<in> dom f - {x}. holds (g z)) = (\<Sum>z \<in> dom f - {x}. holds (f z))"
      by (rule sum.cong) (simp_all add: that)
    moreover have "still_held g = holds (g x) + (\<Sum>z \<in> dom f - {x}. holds (g z))"
    proof (cases w)
      case None
      then have "dom g = dom f - {x}" "g x = None" using that by auto
      then show ?thesis by (simp add: still_held_def)
    next
      case (Some v)
      then have "dom g = insert x (dom f - {x})" using that by auto
      then show ?thesis using sum.insert_remove [OF assms, of "\<lambda>z. holds (g z)" x] by (simp add: still_held_def)
    qed
    ultimately show ?thesis by simp
  qed
  show ?thesis using rest [of "f(x := y)" y] rest [of f "f x"] by (simp add: ac_simps)
qed

lemma released_concat: "released (concat (map g xs)) = sum_list (map (\<lambda>x. released (g x)) xs)"
  by (induction xs) simp_all

lemma sum_list_split:
  fixes g :: "'a \<Rightarrow> 'b multiset"
  shows "sum_list (map g (filter (\<lambda>x. \<not> P x) xs)) + sum_list (map g (filter P xs)) = sum_list (map g xs)"
  by (induction xs) (auto simp: ac_simps)

lemma holds_removed:
  assumes "distinct (map fst rs)" "\<forall>r\<in>set rs. f (object, fst r) = Some (snd r)"
  shows "(\<Sum>x \<in> (\<lambda>r. (object, fst r)) ` set rs. holds (f x)) = sum_list (map (\<lambda>r. released (releaseHeldValue (snd r))) rs)"
proof -
  have inj: "inj_on (\<lambda>r. (object, fst r)) (set rs)"
    using assms(1) by (auto simp: inj_on_def distinct_map)
  have "(\<Sum>x \<in> (\<lambda>r. (object, fst r)) ` set rs. holds (f x)) = (\<Sum>r\<in>set rs. holds (f (object, fst r)))"
    by (simp add: sum.reindex [OF inj])
  also have "\<dots> = (\<Sum>r\<in>set rs. released (releaseHeldValue (snd r)))"
    using assms(2) by (intro sum.cong) simp_all
  also have "\<dots> = sum_list (map (\<lambda>r. released (releaseHeldValue (snd r))) rs)"
    using assms(1) by (simp add: distinct_map sum_list_distinct_conv_sum_set)
  finally show ?thesis .
qed

lemma held_remove:
  assumes "finite (dom f)" "distinct (map fst rs)" "set rs = {(k, a). f (object, k) = Some a}"
  shows "still_held f = still_held (spec_remove object d f) +
    sum_list (map (\<lambda>r. released (releaseHeldValue (snd r))) (filter (\<lambda>r. d \<or> \<not> system_object (snd r)) rs))"
proof -
  let ?f' = "spec_remove object d f" and ?rs = "filter (\<lambda>r. d \<or> \<not> system_object (snd r)) rs"
  let ?D = "(\<lambda>r. (object, fst r)) ` set ?rs"
  have mem: "(k, a) \<in> set rs \<longleftrightarrow> f (object, k) = Some a" for k a using assms(3) by auto
  have keep: "?f' x = (if x \<in> ?D then None else f x)" for x
  proof (cases x)
    case (Pair y k)
    show ?thesis
    proof (cases "f (y, k)")
      case None
      then show ?thesis by (auto simp: Pair spec_remove_def preserved_def)
    next
      case (Some a)
      have "(y, k) \<in> ?D \<longleftrightarrow> y = object \<and> (d \<or> \<not> system_object a)"
        using Some mem [of k] by (force simp: image_iff)
      then show ?thesis using Some by (auto simp: Pair spec_remove_def preserved_def)
    qed
  qed
  have D: "?D \<subseteq> dom f" using assms(3) by auto
  then have un: "dom f = dom ?f' \<union> ?D" "dom ?f' \<inter> ?D = {}" using keep by (auto simp: dom_def split: if_splits)
  then have "still_held f = (\<Sum>x \<in> dom ?f'. holds (f x)) + (\<Sum>x \<in> ?D. holds (f x))"
    unfolding still_held_def using assms(1) by (metis finite_Un sum.union_disjoint)
  also have "(\<Sum>x \<in> dom ?f'. holds (f x)) = still_held ?f'"
    unfolding still_held_def
  proof (rule sum.cong)
    fix x assume "x \<in> dom ?f'"
    then have "x \<notin> ?D" using un(2) by blast
    then show "holds (f x) = holds (?f' x)" by (simp only: keep if_False)
  qed simp
  also have "(\<Sum>x \<in> ?D. holds (f x)) = sum_list (map (\<lambda>r. released (releaseHeldValue (snd r))) ?rs)"
    by (rule holds_removed) (use assms(2,3) in \<open>auto simp: distinct_map_filter\<close>)
  finally show ?thesis .
qed

section \<open>Each operation\<close>

definition retains_itself :: "assoc_env \<Rightarrow> bool" where
  "retains_itself env \<longleftrightarrow> (\<forall>v. retain_result env v = v)"

definition stored_ok :: "association_map \<Rightarrow> bool" where
  "stored_ok f \<longleftrightarrow> finite (dom f) \<and> (\<forall>x a. f x = Some a \<longrightarrow> policy_ok (policy a))"

definition balanced :: "association_map \<Rightarrow> assoc_event list \<Rightarrow> association_map \<Rightarrow> bool" where
  "balanced f ev f' \<longleftrightarrow> acquired ev + still_held f = released ev + still_held f'"

lemma balanced_trans:
  assumes "balanced f ev g" "balanced g ev' h"
  shows "balanced f (ev @ ev') h"
proof -
  have "acquired (ev @ ev') + still_held f = acquired ev' + (acquired ev + still_held f)" by (simp only: trace_simps ac_simps)
  also have "\<dots> = released ev + (acquired ev' + still_held g)"
    using assms(1) by (simp only: balanced_def ac_simps)
  also have "\<dots> = released (ev @ ev') + still_held h"
    using assms(2) by (simp only: balanced_def trace_simps ac_simps)
  finally show ?thesis by (simp only: balanced_def)
qed

lemma low_bit:
  "pol AND 0xFF = c \<Longrightarrow> pol AND (1 :: u64) = c AND 1"
  by (auto simp: and.assoc)

lemma acquire_balanced:
  assumes "policy_ok pol" "retains_itself env"
  shows "case acquireValue env (ObjcAssociation_new pol val) of (a, ev) \<Rightarrow> policy a = pol \<and>
    released ev = {#} \<and> acquired ev = released (releaseHeldValue a)"
proof -
  consider "pol AND 0xFF = 0" | "pol AND 0xFF = 1" | "pol AND 0xFF = 3"
    using assms(1) by (auto simp: policy_ok_def assoc_policies)
  then show ?thesis
    using assms(2) by cases (auto dest!: low_bit simp: acquireValue_def ObjcAssociation_new_def releaseHeldValue_def
        assoc_policies retains_itself_def)
qed

lemma release_acquires [simp]: "acquired (releaseHeldValue a) = {#}"
  by (simp add: releaseHeldValue_def)

lemma releases_acquire [simp]: "acquired (concat (map (\<lambda>r. releaseHeldValue (g r)) rs)) = {#}"
  by (induction rs) simp_all

lemma stored_ok_upd: "stored_ok f \<Longrightarrow> (\<And>a. y = Some a \<Longrightarrow> policy_ok (policy a)) \<Longrightarrow> stored_ok (f(x := y))"
  by (cases y) (auto simp: stored_ok_def)

lemma spec_remove_le: "spec_remove object d f x = Some a \<Longrightarrow> f x = Some a"
  by (auto simp: spec_remove_def preserved_def split: if_splits option.splits prod.splits)

lemma stored_ok_remove: "stored_ok f \<Longrightarrow> stored_ok (spec_remove object d f)"
proof -
  assume f: "stored_ok f"
  have "dom (spec_remove object d f) \<subseteq> dom f" using spec_remove_le [of object d f] by (auto simp: dom_def)
  then show ?thesis using f spec_remove_le [of object d f] unfolding stored_ok_def by (metis finite_subset)
qed

lemma stored_ok_step:
  assumes "stored_ok f" "op_policy_ok op" "retains_itself env"
  shows "stored_ok (fst (assoc_spec env op f))"
proof (cases op)
  case (SetAssociation object key val pol)
  then show ?thesis using assms acquire_balanced [of pol env val] by (auto intro!: stored_ok_upd)
qed (use assms(1) stored_ok_remove in auto)

lemma remove_refs_of:
  assumes "refs_of s t' = (refs_of s t)(object := if d then Map.empty else preserved (refs_of s t object))"
  shows "assoc_map s t' = spec_remove object d (assoc_map s t)"
  by (auto simp: assoc_map_def spec_remove_def fun_eq_iff assms)

lemma set_step:
  assumes "assoc_inv s e t" "e < 2 ^ 24" "assoc_op_ok env op" "op = SetAssociation object key val pol"
  shows "\<exists>t' r ev. assoc_step s env op t = Inr (t', r, ev) \<and> assoc_inv s (e + 1) t' \<and>
    assoc_spec env op (assoc_map s t) = (assoc_map s t', r) \<and>
    (stored_ok (assoc_map s t) \<and> op_policy_ok op \<and> retains_itself env \<longrightarrow> balanced (assoc_map s t) ev (assoc_map s t'))"
proof (cases "object = nil")
  case True
  have "assoc_inv s (e + 1) t" using assms(1) by (rule assoc_inv_mono) simp
  then show ?thesis using True assms(3,4) by (simp add: object_set_associative_reference_def balanced_def)
next
  case False
  obtain a ev where a: "acquireValue env (ObjcAssociation_new pol val) = (a, ev)" by fastforce
  define y where "y = (if val = nil then None else Some a)"
  obtain t' where t': "object_set_associative_reference s env object key val pol t =
      Inr (t', ev @ [ManagerLock, ManagerUnlock] @
        (if val \<noteq> nil \<and> refs_of s t object = Map.empty then [SetHasAssociatedObjects object] else []) @
        (case assoc_map s t (object, key) of None \<Rightarrow> [] | Some old \<Rightarrow> releaseHeldValue old))"
    "assoc_inv s (e + 1) t'" "assoc_map s t' = (assoc_map s t)((object, key) := y)"
    using set_spec [OF assms(1,2) _ _ False _ a] assms(3,4) False by (auto simp: y_def)
  have "balanced (assoc_map s t) (ev @ [ManagerLock, ManagerUnlock] @
        (if val \<noteq> nil \<and> refs_of s t object = Map.empty then [SetHasAssociatedObjects object] else []) @
        (case assoc_map s t (object, key) of None \<Rightarrow> [] | Some old \<Rightarrow> releaseHeldValue old)) (assoc_map s t')"
    if "stored_ok (assoc_map s t)" "policy_ok pol" "retains_itself env"
  proof -
    have ev: "released ev = {#}" "acquired ev = holds y"
      using acquire_balanced [OF that(2,3), of val] a by (auto simp: y_def acquireValue_def ObjcAssociation_new_def)
    have mark: "acquired (if c then [SetHasAssociatedObjects object] else []) = {#}"
      "released (if c then [SetHasAssociatedObjects object] else []) = {#}" for c by simp_all
    have "finite (dom (assoc_map s t))" using that(1) by (simp add: stored_ok_def)
    from held_upd [OF this, of "(object, key)" y] show ?thesis
      unfolding balanced_def t'(3) by (cases "assoc_map s t (object, key)") (simp_all add: ev mark ac_simps del: fun_upd_apply)
  qed
  then show ?thesis using t' a False assms(4) by (simp add: y_def)
qed

lemma get_step:
  assumes "assoc_inv s e t" "assoc_op_ok env op" "op = GetAssociation object key"
  shows "\<exists>t' r ev. assoc_step s env op t = Inr (t', r, ev) \<and> assoc_inv s (e + 1) t' \<and>
    assoc_spec env op (assoc_map s t) = (assoc_map s t', r) \<and>
    (stored_ok (assoc_map s t) \<and> op_policy_ok op \<and> retains_itself env \<longrightarrow> balanced (assoc_map s t) ev (assoc_map s t'))"
proof -
  let ?a = "lookup_association s t object key"
  let ?ev = "ManagerLock # retainReturnedValue ?a @ ManagerUnlock # snd (autoreleaseReturnedValue env ?a)"
  have "assoc_inv s (e + 1) t" using assms(1) by (rule assoc_inv_mono) simp
  moreover have "assoc_step s env op t = Inr (t, [fst (autoreleaseReturnedValue env ?a)], ?ev)"
    using get_spec [OF assms(1)] assms(2,3) by (simp add: Let_def)
  moreover have "balanced (assoc_map s t) ?ev (assoc_map s t)" if "stored_ok (assoc_map s t)"
    using that unfolding balanced_def stored_ok_def lookup_association_def
    by (cases "assoc_map s t (object, key)")
      (auto simp: policy_ok_def retainReturnedValue_def autoreleaseReturnedValue_def)
  ultimately show ?thesis using assms(3) by (auto simp: lookup_association_def split: option.split)
qed

lemma remove_step:
  assumes "assoc_inv s e t" "e < 2 ^ 24" "assoc_op_ok env op" "op = RemoveAssociations object d"
  shows "\<exists>t' r ev. assoc_step s env op t = Inr (t', r, ev) \<and> assoc_inv s (e + 1) t' \<and>
    assoc_spec env op (assoc_map s t) = (assoc_map s t', r) \<and>
    (stored_ok (assoc_map s t) \<and> op_policy_ok op \<and> retains_itself env \<longrightarrow> balanced (assoc_map s t) ev (assoc_map s t'))"
proof -
  let ?rel = "\<lambda>rs. concat (map (\<lambda>r. releaseHeldValue (snd r)) rs)"
  have "pointer_ok object" using assms(3,4) by simp
  from remove_spec [OF assms(1,2) this, of d] obtain t' rs where
    r: "object_remove_assocations s object d t = Inr (t', [ManagerLock, ManagerUnlock] @
        ?rel (filter (\<lambda>r. \<not> system_object (snd r)) rs) @ (if d then ?rel (filter (\<lambda>r. system_object (snd r)) rs) else []))"
    "assoc_inv s e t'" "distinct (map fst rs)" "set rs = {(k, a). refs_of s t object k = Some a}"
    "refs_of s t' = (refs_of s t)(object := if d then Map.empty else preserved (refs_of s t object))"
    by blast
  have inv: "assoc_inv s (e + 1) t'" using r(2) by (rule assoc_inv_mono) simp
  have map': "assoc_map s t' = spec_remove object d (assoc_map s t)" using r(5) by (rule remove_refs_of)
  have "balanced (assoc_map s t) ([ManagerLock, ManagerUnlock] @ ?rel (filter (\<lambda>r. \<not> system_object (snd r)) rs) @
      (if d then ?rel (filter (\<lambda>r. system_object (snd r)) rs) else [])) (assoc_map s t')"
    if "stored_ok (assoc_map s t)"
  proof -
    have f: "finite (dom (assoc_map s t))" "set rs = {(k, a). assoc_map s t (object, k) = Some a}"
      using that r(4) by (simp_all add: stored_ok_def assoc_map_def)
    show ?thesis
      using held_remove [OF f(1) r(3) f(2), of d] sum_list_split [of "\<lambda>r. released (releaseHeldValue (snd r))" _ rs]
      unfolding balanced_def map' by (cases d) (simp_all add: released_concat ac_simps)
  qed
  then show ?thesis using r(1) inv map' assms(4) by simp
qed

section \<open>Sequences\<close>

lemma assoc_step_refines:
  assumes "assoc_inv s e t" "e < 2 ^ 24" "assoc_op_ok env op"
  shows "\<exists>t' r ev. assoc_step s env op t = Inr (t', r, ev) \<and> assoc_inv s (e + 1) t' \<and>
    assoc_spec env op (assoc_map s t) = (assoc_map s t', r) \<and>
    (stored_ok (assoc_map s t) \<and> op_policy_ok op \<and> retains_itself env \<longrightarrow> balanced (assoc_map s t) ev (assoc_map s t'))"
  by (cases op) (rule set_step [OF assms] get_step [OF assms(1,3)] remove_step [OF assms], assumption)+

lemma assoc_run_refines:
  assumes "assoc_inv s e t" "e + length ops < 2 ^ 24" "list_all (assoc_op_ok env) ops"
  shows "\<exists>t' rs ev. assoc_run s env ops t = Inr (t', rs, ev) \<and> assoc_inv s (e + length ops) t' \<and>
    assoc_spec_run env ops (assoc_map s t) = (assoc_map s t', rs) \<and>
    (stored_ok (assoc_map s t) \<and> list_all op_policy_ok ops \<and> retains_itself env \<longrightarrow>
      balanced (assoc_map s t) ev (assoc_map s t'))"
  using assms
proof (induction ops arbitrary: e t)
  case Nil
  then show ?case by (simp add: balanced_def)
next
  case (Cons op ops)
  have "e < 2 ^ 24" "assoc_op_ok env op" using Cons.prems(2,3) by simp_all
  then obtain t1 r ev where st: "assoc_step s env op t = Inr (t1, r, ev)" "assoc_inv s (e + 1) t1"
    "assoc_spec env op (assoc_map s t) = (assoc_map s t1, r)"
    "stored_ok (assoc_map s t) \<and> op_policy_ok op \<and> retains_itself env \<Longrightarrow> balanced (assoc_map s t) ev (assoc_map s t1)"
    using assoc_step_refines [OF Cons.prems(1)] by blast
  obtain t2 rs evs where r: "assoc_run s env ops t1 = Inr (t2, rs, evs)" "assoc_inv s (e + 1 + length ops) t2"
    "assoc_spec_run env ops (assoc_map s t1) = (assoc_map s t2, rs)"
    "stored_ok (assoc_map s t1) \<and> list_all op_policy_ok ops \<and> retains_itself env \<Longrightarrow>
      balanced (assoc_map s t1) evs (assoc_map s t2)"
    using Cons.IH [OF st(2)] Cons.prems(2,3) by auto
  have "balanced (assoc_map s t) (ev @ evs) (assoc_map s t2)"
    if b: "stored_ok (assoc_map s t)" "list_all op_policy_ok (op # ops)" "retains_itself env"
  proof -
    have "stored_ok (assoc_map s t1)" using stored_ok_step [OF b(1) _ b(3), of op] b(2) st(3) by simp
    then show ?thesis using st(4) r(4) b by (intro balanced_trans) simp_all
  qed
  then show ?case using st(1,3) r(1-3) by simp
qed

lemma manager_init: "\<exists>t. AssociationsManager_init s = Inr t \<and> assoc_inv s 0 t \<and> assoc_map s t = Map.empty"
proof -
  obtain t where t: "AssociationsManager_init s = Inr t" "dm_inv (associations_params s) t"
    "dm_map (associations_params s) t = Map.empty" "dm_sized 0 t"
    unfolding AssociationsManager_init_def using associations.new_exact by blast
  then have "assoc_inv s 0 t" "assoc_map s t = Map.empty"
    by (simp_all add: assoc_inv_def assoc_map_def refs_of_def fun_eq_iff)
  with t(1) show ?thesis by blast
qed

lemma empty_balance [simp]: "stored_ok Map.empty" "still_held Map.empty = {#}"
  by (simp_all add: stored_ok_def still_held_def)

end
