(* ===== verification/Spec2Isabelle.thy ===== *)
theory Spec2Isabelle
  imports DenseSet TaggedPointer ReturnValue StripedMap ClassData SampleImage Associations_Balance
begin

text \<open>
  A verification development for the Objective-C runtime objc4-824.  All sources
  are under \<^verbatim>\<open>src/objc4-824/runtime\<close>; the names below are files and functions
  there.

  \<^bold>\<open>The program.\<close>  An object is a block of memory whose first word, the isa, holds
  its class and, in builds with nonpointer isa, part of its retain count and
  some flags.  What does not fit goes to side tables, which are hash tables
  (\<open>DenseMap\<close>) chosen by the object's address and guarded by striped locks.
  Small values are not objects at all but tagged pointers.  A class points to
  its data, and through that to arrays of method, property and protocol lists,
  to which categories add; a message looks its method up there.

  \<^bold>\<open>The model.\<close>  Machine integers are words of their width, so that wrap-around is
  the machine's.  Failed assertions and fatal errors are values of the type
  \<open>fault\<close>, sequenced with \<open>bindE\<close>.  State is passed explicitly, as records or as
  byte memory.  A loop that retries an atomic access runs against a list of
  what other threads do between its accesses; a loop whose end is to be
  proved is a \<open>partial_function\<close> into \<open>option\<close>, where \<open>None\<close> stands for not
  ending, and the theorems give \<open>Some\<close>.

  \<^bold>\<open>Foundations.\<close>
  \<^item> \<open>Prelude\<close>: word types, faults, facts on powers of two and lists.
  \<^item> \<open>MathExtras\<close> (\<^verbatim>\<open>llvm-MathExtras.h\<close>): masks, bit counts, logarithms, alignment;
    portable bit counts equal the builtins, \<open>NextPowerOf2\<close> is the next power.
  \<^item> \<open>Pointers\<close> (\<^verbatim>\<open>objc-private.h\<close>, \<^verbatim>\<open>objc-ptrauth.h\<close>, \<^verbatim>\<open>PointerUnion.h\<close>,
    \<^verbatim>\<open>DenseMapExtras.h\<close>): disguised, signed and tagged-union pointers, small
    vectors, lazy initialization.  Signing is a parameter with the law that
    authentication undoes it (locale \<open>ptrauth\<close>).
  \<^item> \<open>Bitfields\<close>: C bit-fields of a word, addition and subtraction with carry.
  \<^item> \<open>Memory\<close>: bytes, little-endian words, disjoint accesses, copies of words.

  \<^bold>\<open>Hash tables\<close> (\<^verbatim>\<open>llvm-DenseMapInfo.h\<close>, \<^verbatim>\<open>llvm-DenseMap.h\<close>, \<^verbatim>\<open>llvm-DenseSet.h\<close>).
  \<open>DenseMapInfo\<close> has the key traits and the locale \<open>key_info\<close> of their laws;
  \<open>DenseMap\<close> every operation on the bucket array; \<open>Probing\<close> shows that the
  triangular probe sequence reaches every bucket; \<open>DenseMap_Lookup\<close>, \<open>_Update\<close>,
  \<open>_Rehash\<close>, \<open>_Correct\<close> and \<open>_Iterate\<close> prove the invariant and the effect of each
  operation on the finite map it stands for, inside \<open>dense_map_laws\<close>;
  \<open>DenseMap_Refine\<close> composes them to runs of operations; \<open>DenseMap_Exact\<close> restates
  them for callers that work on the bucket \<open>find\<close> gave them (locale
  \<open>exact_map_laws\<close>); \<open>DenseSet\<close> is the instance without values.  The tables stay below \<open>2 ^ 29\<close> buckets, where the
  32-bit counters cannot wrap.

  \<^bold>\<open>Objects\<close> (\<^verbatim>\<open>isa.h\<close>, \<^verbatim>\<open>objc-object.h\<close>, \<^verbatim>\<open>objc-os.h\<close>, \<^verbatim>\<open>NSObject.mm\<close>).  \<open>Isa\<close> has the
  three packed layouts (locale \<open>packed_isa\<close>), \<open>SideTable\<close> the \<open>sidetable_\<close>
  functions, \<open>ObjcObject\<close> the operations with their compare-and-swap loops.
  \<open>ObjcObject_Correct\<close> shows that retain and release take effect at one moment
  whatever other threads do, \<open>ObjcObject_Lifecycle\<close> that a thread's retains and
  releases follow a counter and send \<open>-dealloc\<close> once.  \<open>RefCounter\<close> states that
  contract as a locale, which \<open>RawObject\<close> (the build without nonpointer isa)
  fulfils too; \<open>ReturnValue\<close> builds the handshake for returned objects on it.
  The loops recurse on the list of other threads' steps, so they need no fuel:
  the list bounds how often an exclusive store can fail.

  \<^bold>\<open>Tagged pointers\<close> (\<^verbatim>\<open>objc-internal.h\<close>): \<open>TaggedPointer\<close>, for the three layouts, with
  obfuscation and the class tables.  \<^bold>\<open>Locks\<close> (\<^verbatim>\<open>objc-private.h\<close>, \<^verbatim>\<open>objc-os.h\<close>):
  \<open>StripedMap\<close>, whose index spreads neighbouring objects over the stripes; the
  functions that lock are the sequences of their lock operations, and threads
  that run them are a step relation that can neither abort nor deadlock.

  \<^bold>\<open>Classes and methods\<close> (\<^verbatim>\<open>objc-runtime-new.h\<close>, \<^verbatim>\<open>objc-runtime-new.mm\<close>).
  \<^item> \<open>ClassData\<close>: flag words and instance sizes of a class.
  \<^item> \<open>EntsizeList\<close>: \<open>entsize_list_tt\<close> and its iterators; the locale \<open>entsize_lists\<close>
    gives the addresses of the elements for method, ivar and property lists.
  \<^item> \<open>MethodList\<close>: \<open>method_t\<close> in its big and small forms, the map of replaced
    implementations, \<open>method_list_t\<close> with \<open>duplicate\<close>.
  \<^item> \<open>ListArray\<close>: \<open>list_array_tt\<close>; \<open>attachLists\<close> prepends, iteration visits all.
  \<^item> \<open>MethodLookup\<close>: bisection and linear search of a list find the same method.
  \<^item> \<open>ClassLookup\<close>: \<open>class_rw_t\<close> with or without an extension, and lookup along the
    superclasses.
  \<^item> \<open>SampleImage\<close>: a small class in memory for the witnesses.
  These are over byte memory at the offsets of a 64-bit build without pointer
  signing; blocks that \<open>malloc\<close> returns are arguments, assumed apart from what
  is in use.

  \<^bold>\<open>Associated references\<close> (\<^verbatim>\<open>objc-references.mm\<close>).  \<open>Associations\<close> has the policies, the
  two-level table and the three operations, which return the table and the
  trace of lock operations and of calls to client code; the answers of that
  code are the record \<open>assoc_env\<close>.  \<open>Associations_Balance\<close> shows that runs of
  operations answer as one partial map and that acquired and released values
  balance.  The bound of \<open>2 ^ 24\<close> operations keeps both tables within their
  counters.

  \<^bold>\<open>Not modelled.\<close>
  \<^item> Registration of images, realization and category loading: they work on the
    binary images that dyld maps.
  \<^item> \<open>objc_msgSend\<close> and its variants: assembly.  The method cache is read there
    without a lock.
  \<^item> Weak references and autorelease pools, but for the flags of an object and
    the event of adding to a pool.
  \<^item> \<open>+initialize\<close>, \<open>+load\<close>, exceptions, \<open>@synchronized\<close>, block trampolines: they
    call user code, the unwinder or the kernel.
  \<^item> The legacy runtime, and the copies of other projects that the repository
    keeps for reading.
\<close>

section \<open>Reference counting under interference\<close>

text \<open>C1: \<open>objc_object::rootRetain\<close> on an object with a nonpointer isa, whatever other
  threads do between its accesses to the isa (retains, releases, flag changes,
  spurious failures of the exclusive store): the call returns the object, fails
  no assertion, and takes effect at one moment.  There is a state that the
  other threads' steps alone reach, and the final state is that one with the
  retain count (inline part plus side table part) one higher and nothing else
  changed; if the object was being deallocated at that moment, the state is
  left as it was.\<close>

theorem rootRetain_linearizable:
  assumes "layout cfg = arm64e_layout \<or> layout cfg = arm64_layout \<or> layout cfg = x86_64_layout"
    "obj_inv cfg this st" "\<not> slock (table st)" "list_all (keeps_object cfg this) env"
    "variant = FastOrMsgSend \<longrightarrow> (\<forall>c. \<not> hasCustomRR (classes cfg) c)"
  shows "\<exists>env' st1 st'. rootRetain cfg this False variant env st = Inr (this, env', st') \<and>
    env_reach (set env) st st1 \<and> obj_inv cfg this st1 \<and> retain_effect cfg this st1 st'"
  using counted_object.rootRetain_correct [OF counted_objectI [OF assms(1)], of this st env variant] assms(2-)
  by (auto simp: list_all_iff)

lemma x86_keeps: "list_all (keeps_object x86_config this) [Quiet, Spurious, other_retain x86_64_layout, other_release x86_64_layout]"
  using x86_64_object.other_retain_keeps [of x86_config this] x86_64_object.other_release_keeps [of x86_config this]
  by (simp add: keeps_object_simple x86_config_def)

theorem rootRetain_linearizable_witness:
  "\<exists>env' st1 st'. rootRetain x86_config 16 False Fast [Quiet, Spurious, other_retain x86_64_layout, other_release x86_64_layout]
      (x86_object 255) = Inr (16, env', st') \<and>
    env_reach (set [Quiet, Spurious, other_retain x86_64_layout, other_release x86_64_layout]) (x86_object 255) st1 \<and>
    obj_inv x86_config 16 st1 \<and> retain_effect x86_config 16 st1 st'"
  by (rule rootRetain_linearizable) (use x86_keeps in simp_all)

text \<open>C2: \<open>objc_object::rootRelease\<close> under the same interference, including the path
  that borrows counts back from the side table: the call returns, fails no
  assertion, and takes effect at one moment, where the retain count goes down
  by one.  The answer is true exactly when the count came to zero, and exactly
  then \<open>-dealloc\<close> is sent, if the caller asked for it; an object that is already
  being deallocated is left alone.\<close>

theorem rootRelease_linearizable:
  assumes "layout cfg = arm64e_layout \<or> layout cfg = arm64_layout \<or> layout cfg = x86_64_layout"
    "obj_inv cfg this st" "\<not> slock (table st)" "list_all (keeps_object cfg this) env"
    "variant = FastOrMsgSend \<longrightarrow> (\<forall>c. \<not> hasCustomRR (classes cfg) c)"
  shows "\<exists>answer env' st1 st'. rootRelease cfg this performDealloc variant env st = Inr (answer, env', st') \<and>
    env_reach (set env) st st1 \<and> obj_inv cfg this st1 \<and> release_effect cfg this performDealloc answer st1 st'"
  using counted_object.rootRelease_correct [OF counted_objectI [OF assms(1)], of this st env variant performDealloc] assms(2-)
  by (auto simp: list_all_iff)

theorem rootRelease_linearizable_witness:
  "\<exists>answer env' st1 st'. rootRelease x86_config 16 True Fast [Quiet, Spurious, other_retain x86_64_layout, other_release x86_64_layout]
      (x86_object 1) = Inr (answer, env', st') \<and>
    env_reach (set [Quiet, Spurious, other_retain x86_64_layout, other_release x86_64_layout]) (x86_object 1) st1 \<and>
    obj_inv x86_config 16 st1 \<and> release_effect x86_config 16 True answer st1 st'"
  by (rule rootRelease_linearizable) (use x86_keeps in simp_all)

text \<open>C23: Setting the weakly-referenced bit of the isa under interference: the loop of
  \<open>setWeaklyReferenced_nolock\<close> ends without a fault, and the result is a state
  that the other threads reach, with only that bit of the isa set.\<close>

theorem setWeaklyReferenced_linearizable:
  assumes "layout cfg = arm64e_layout \<or> layout cfg = arm64_layout \<or> layout cfg = x86_64_layout"
    "obj_inv cfg this st" "list_all (keeps_object cfg this) env"
  shows "\<exists>env' s. setWeaklyReferenced_loop cfg this (isa st) env st =
      Inr (env', s\<lparr>isa := set_weakly_referenced (layout cfg) True (isa s)\<rparr>) \<and>
    env_reach (set env) (set_lock False st) (set_lock False s) \<and> obj_inv cfg this s \<and> slock (table s) = slock (table st)"
  using counted_object.setWeaklyReferenced_loop_correct [OF counted_objectI [OF assms(1)], of this st env "isa st"] assms
  by (auto simp: list_all_iff counted_object.flag_set_def [OF counted_objectI [OF assms(1)]])

theorem setWeaklyReferenced_linearizable_witness:
  "\<exists>env' s. setWeaklyReferenced_loop x86_config 16 (isa (x86_object 1))
      [Quiet, Spurious, other_retain x86_64_layout, other_release x86_64_layout] (x86_object 1) =
      Inr (env', s\<lparr>isa := set_weakly_referenced (layout x86_config) True (isa s)\<rparr>) \<and>
    env_reach (set [Quiet, Spurious, other_retain x86_64_layout, other_release x86_64_layout])
      (set_lock False (x86_object 1)) (set_lock False s) \<and> obj_inv x86_config 16 s \<and>
    slock (table s) = slock (table (x86_object 1))"
  by (rule setWeaklyReferenced_linearizable) (use x86_keeps in simp_all)

section \<open>The life of an object\<close>


lemma x86_object_wf: "obj_wf x86_config 16 (x86_object n)" "obj_room x86_config 16 (x86_object n)"
  using x86_object_inv [of 16 n] by (simp_all add: obj_inv_def)

lemma x86_object_count: "n < 256 \<Longrightarrow> retain_count x86_config 16 (x86_object n) = n"
  by (simp add: retain_count_def)



text \<open>C8: The same contract holds for an object whose count is kept in the side table
  alone (the build without nonpointer isa): running any legal sequence of
  \<open>rootRetain\<close> and \<open>rootRelease\<close> refines the abstract counter that may not be used
  once it is at zero, and the deallocation message is sent exactly at the end.\<close>

theorem raw_run_refines_counter:
  assumes "raw_inv cfg this s" "0 < raw_count cfg this s" "live_run ops (raw_count cfg this s) = Some n"
    "run_ops (obj_room cfg this) (raw_do_retain cfg this) (raw_do_release cfg this) ops s = Some r"
  shows "\<exists>s'. r = Inr s' \<and> raw_inv cfg this s' \<and> raw_count cfg this s' = n \<and>
    events s' = events s @ (if n = 0 then [MsgDealloc] else [])"
  using assms by (rule raw_counter.run_counts)

lemma x86_raw_object: "raw_inv x86_config 16 (x86_object n)" "raw_count x86_config 16 (x86_object n) = 1"
  by (simp_all add: raw_inv_def raw_count_def valid_object_def Let_def)

theorem raw_run_refines_counter_witness:
  "\<exists>r s'. run_ops (obj_room x86_config 16) (raw_do_retain x86_config 16) (raw_do_release x86_config 16) [Release] (x86_object 0) =
      Some r \<and> r = Inr s' \<and> raw_inv x86_config 16 s' \<and> raw_count x86_config 16 s' = 0 \<and> events s' = [MsgDealloc]"
proof -
  obtain s' where "raw_do_release x86_config 16 (x86_object 0) = Inr s'"
    using raw_counter.release_law [of x86_config 16 "x86_object 0"] x86_raw_object x86_object_wf(2) by auto
  then have "run_ops (obj_room x86_config 16) (raw_do_retain x86_config 16) (raw_do_release x86_config 16) [Release]
      (x86_object 0) = Some (Inr s')"
    using x86_object_wf(2) by simp
  then show ?thesis using raw_run_refines_counter [of x86_config 16 "x86_object 0" "[Release]" 0] x86_raw_object by simp
qed

text \<open>C24: \<open>rootRetainCount\<close> reads the count: for a well-formed object it returns the
  inline count plus the side table's count, takes and gives back the lock, and
  changes nothing.\<close>

theorem rootRetainCount_reads:
  assumes "layout cfg = arm64e_layout \<or> layout cfg = arm64_layout \<or> layout cfg = x86_64_layout"
    "obj_wf cfg this st" "unat (rc_word (junk cfg) (table st) this) < 2 ^ 62" "\<not> slock (table st)"
  shows "\<exists>n. rootRetainCount cfg this st = Inr (n, st) \<and> unat n = retain_count cfg this st"
  using counted_object.rootRetainCount_correct [OF counted_objectI [OF assms(1)] assms(2-)] .

theorem rootRetainCount_reads_witness:
  "\<exists>n. rootRetainCount x86_config 16 (x86_object 7) = Inr (n, x86_object 7) \<and> unat n = retain_count x86_config 16 (x86_object 7)"
  by (rule rootRetainCount_reads) (simp_all add: x86_object_wf)

text \<open>C10: \<open>initIsa\<close> with a nonpointer isa makes a well-formed object of that class with
  retain count one, no associated objects and no weak references.\<close>

theorem initIsa_makes_object:
  assumes "layout cfg = arm64e_layout \<or> layout cfg = arm64_layout \<or> layout cfg = x86_64_layout"
    "\<not> isTaggedPointer cfg this" "valid_object this" "\<not> DisableNonpointerIsa cfg"
    "\<not> instancesRequireRawIsa (classes cfg) cls" "class_fits (layout cfg) cls" "sign_cls cfg cls this = cls"
    "table_ok (junk cfg) (table st)" "rc_word (junk cfg) (table st) this = 0"
  shows "\<exists>w. initIsa cfg this cls True cxx st = Inr (st\<lparr>isa := w\<rparr>) \<and> obj_wf cfg this (st\<lparr>isa := w\<rparr>) \<and>
    retain_count cfg this (st\<lparr>isa := w\<rparr>) = 1 \<and> getClass (layout cfg) w = cls \<and>
    \<not> isa_has_assoc w \<and> \<not> isa_weakly_referenced (layout cfg) w"
  using counted_object.initIsa_nonpointer [OF counted_objectI [OF assms(1)] assms(2-)] .

lemma x86_class_fits: "class_fits x86_64_layout 4096" "class_fits x86_64_layout 8192"
  by (simp_all add: class_fits_def x86_64_layout_def)

theorem initIsa_makes_object_witness:
  "\<exists>w. initIsa x86_config 16 4096 True False (x86_object 0) = Inr ((x86_object 0)\<lparr>isa := w\<rparr>) \<and>
    obj_wf x86_config 16 ((x86_object 0)\<lparr>isa := w\<rparr>) \<and> retain_count x86_config 16 ((x86_object 0)\<lparr>isa := w\<rparr>) = 1 \<and>
    getClass (layout x86_config) w = 4096 \<and> \<not> isa_has_assoc w \<and> \<not> isa_weakly_referenced (layout x86_config) w"
  by (rule initIsa_makes_object) (simp_all add: valid_object_def x86_class_fits)

text \<open>C9: \<open>changeIsa\<close> to a class whose instances need a raw isa, for an object with
  part of its count inline (an inline count above zero), a class pointer that
  signing leaves alone and no other thread at work, moves the whole count into
  the side table: the isa becomes the class pointer, the side table word of the
  object holds the count minus one (a raw object counts from one) with the weak
  flag, the lock is free again, and no other object's word changes.\<close>

theorem changeIsa_moves_count:
  assumes "layout cfg = arm64e_layout \<or> layout cfg = arm64_layout \<or> layout cfg = x86_64_layout"
    "obj_inv cfg this st" "\<not> slock (table st)" "\<not> canAllocNonpointer (classes cfg) newCls"
    "class_fits (layout cfg) newCls" "sign_cls cfg newCls this = newCls" "0 < isa_extra_rc (layout cfg) (isa st)"
  shows "\<exists>st'. changeIsa cfg this newCls [] st = Inr (getClass (layout cfg) (isa st), [], st') \<and>
    \<not> isa_nonpointer (isa st') \<and> getClass (layout cfg) (isa st') = newCls \<and> \<not> slock (table st') \<and>
    unat (rc_word (junk cfg) (table st') this) =
      4 * (retain_count cfg this st - 1) + flags_word False (isa_weakly_referenced (layout cfg) (isa st)) \<and>
    (\<forall>obj. obj \<noteq> this \<longrightarrow> rc_word (junk cfg) (table st') obj = rc_word (junk cfg) (table st) obj)"
  using counted_object.changeIsa_raw [OF counted_objectI [OF assms(1)] assms(2-)] .

theorem changeIsa_moves_count_witness:
  "\<exists>st'. changeIsa x86_config 16 8192 [] (x86_object 5) = Inr (getClass (layout x86_config) (isa (x86_object 5)), [], st') \<and>
    \<not> isa_nonpointer (isa st') \<and> getClass (layout x86_config) (isa st') = 8192 \<and> \<not> slock (table st') \<and>
    unat (rc_word (junk x86_config) (table st') 16) = 4 * (retain_count x86_config 16 (x86_object 5) - 1) +
      flags_word False (isa_weakly_referenced (layout x86_config) (isa (x86_object 5))) \<and>
    (\<forall>obj. obj \<noteq> 16 \<longrightarrow> rc_word (junk x86_config) (table st') obj = rc_word (junk x86_config) (table (x86_object 5)) obj)"
  by (rule changeIsa_moves_count) (simp_all add: x86_class_fits)

text \<open>C38: The same call on an object all of whose counts are in the side table (the
  inline count is zero) goes wrong: \<open>sidetable_moveExtraRC_nolock\<close> subtracts one
  from zero before it adds the side table's count, the addition overflows, and
  the word is pinned, so that the object is never deallocated.\<close>

theorem changeIsa_pins_count:
  assumes "layout cfg = arm64e_layout \<or> layout cfg = arm64_layout \<or> layout cfg = x86_64_layout"
    "obj_inv cfg this st" "\<not> slock (table st)" "\<not> canAllocNonpointer (classes cfg) newCls"
    "isa_extra_rc (layout cfg) (isa st) = 0" "isa_has_sidetable_rc (layout cfg) (isa st)"
  shows "\<exists>st'. changeIsa cfg this newCls [] st = Inr (getClass (layout cfg) (isa st), [], st') \<and>
    bit (rc_word (junk cfg) (table st') this) 63"
  using counted_object.changeIsa_raw_pins [OF counted_objectI [OF assms(1)] assms(2-)] .

theorem changeIsa_pins_count_witness:
  "\<exists>st'. changeIsa x86_config 16 8192 [] x86_side_object = Inr (getClass (layout x86_config) (isa x86_side_object), [], st') \<and>
    bit (rc_word (junk x86_config) (table st') 16) 63"
  by (rule changeIsa_pins_count) (simp_all add: x86_side_object_ok)

text \<open>C25: \<open>rootTryRetain\<close>, called with the side table locked and without
  interference, returns nil exactly when the object is being deallocated, and
  otherwise the object with its count one higher; the lock stays with the
  caller.\<close>

theorem tryRetain_functional:
  assumes "layout cfg = arm64e_layout \<or> layout cfg = arm64_layout \<or> layout cfg = x86_64_layout"
    "obj_inv cfg this st" "slock (table st)"
  shows "\<exists>env' st'. rootRetain cfg this True Fast [] st =
      Inr (if isDeallocating (layout cfg) (isa st) then nil else this, env', st') \<and>
    retain_effect cfg this st st' \<and> slock (table st')"
  using counted_object.tryRetain_alone [OF counted_objectI [OF assms(1)] assms(2,3)] assms(3)
  by (fastforce simp: retain_effect_def retained_def rest_kept_def split: if_splits)

theorem tryRetain_functional_witness:
  "\<exists>env' st'. rootRetain x86_config 16 True Fast [] (set_lock True (x86_object 255)) =
      Inr (if isDeallocating (layout x86_config) (isa (set_lock True (x86_object 255))) then nil else 16, env', st') \<and>
    retain_effect x86_config 16 (set_lock True (x86_object 255)) st' \<and> slock (table st')"
  by (rule tryRetain_functional) simp_all

text \<open>C39: With interference the last part fails.  If the inline count overflows, the
  store fails, and the object has begun to be deallocated when it is looked at
  again, \<open>rootRetain\<close> returns nil and unlocks a side table lock that it did not
  take: the caller's lock is gone.\<close>

theorem tryRetain_drops_caller_lock:
  assumes "layout cfg = arm64e_layout \<or> layout cfg = arm64_layout \<or> layout cfg = x86_64_layout"
    "obj_wf cfg this st" "slock (table st)" "isa_extra_rc (layout cfg) (isa st) + 1 = 2 ^ extra_rc_width (layout cfg)"
    "isa_nonpointer w" "isDeallocating (layout cfg) w"
  shows "\<exists>st'. rootRetain cfg this True Fast [Quiet, Quiet, Interfere (\<lambda>_. w) f] st = Inr (nil, [], st') \<and>
    \<not> slock (table st') \<and> isa st' = w"
  using counted_object.tryRetain_race [OF counted_objectI [OF assms(1)] assms(2-)] by simp

theorem tryRetain_drops_caller_lock_witness:
  "\<exists>st'. rootRetain x86_config 16 True Fast [Quiet, Quiet, Interfere (\<lambda>_. isa (x86_object 0)) (\<lambda>w m. (w, m))]
      (set_lock True (x86_object 255)) = Inr (nil, [], st') \<and> \<not> slock (table st') \<and> isa st' = isa (x86_object 0)"
  by (rule tryRetain_drops_caller_lock) (simp_all add: x86_object_wf isDeallocating_def,
    simp add: x86_64_layout_def [THEN arg_cong [of _ _ extra_rc_width]])

section \<open>Returned objects\<close>

text \<open>C22: The handshake between a callee that returns an autoreleased object and its
  caller, on an object with a nonpointer isa: whichever of the two functions
  the callee ends with, whichever of the two the caller begins with, and
  whether or not the runtime recognises the caller and skips the pool, the
  references the object has beyond those promised to the pool change by the
  same amount, no call fails, and the thread's disposition is reset.\<close>

theorem return_handshake:
  assumes "layout cfg = arm64e_layout \<or> layout cfg = arm64_layout \<or> layout cfg = x86_64_layout"
    "np_inv cfg this s" "obj_room cfg this s" "0 < retain_count cfg this s"
    "\<forall>s'. np_retain cfg this s = Inr s' \<longrightarrow> obj_room cfg this s'"
  shows "\<exists>st1 st2. run_callee (rv_ops (np_retain cfg this) (np_release cfg this) (emit PoolAdd) msg) accepts accepts'
      callee \<lparr>return_disposition = ReturnAtPlus0, object = s\<rparr> = Inr st1 \<and>
    run_caller (rv_ops (np_retain cfg this) (np_release cfg this) (emit PoolAdd) msg) caller st1 = Inr st2 \<and>
    return_disposition st2 = ReturnAtPlus0 \<and> np_inv cfg this (object st2) \<and>
    owed (retain_count cfg this) events (object st2) = owed (retain_count cfg this) events s + rv_delta callee caller"
  using autoreleased.handshake [OF np_autoreleased [OF counted_objectI [OF assms(1)]], of this s] assms(2-) by blast

lemma x86_object_retain_room:
  assumes "np_retain x86_config 16 (x86_object 1) = Inr s'"
  shows "obj_room x86_config 16 s'"
proof -
  obtain v carry where a: "addc (isa (x86_object 1)) (RC_ONE x86_64_layout) 0 = (v, carry)" by fastforce
  have "\<not> carry" using x86_64.addc_one(1) [OF a] by (simp add: x86_64_layout_def [THEN arg_cong [of _ _ extra_rc_width]])
  then have "rootRetain_loop x86_config 16 False Fast False (isa (x86_object 1)) [] (x86_object 1) =
      Inr (Returned 16, [], (x86_object 1)\<lparr>isa := v\<rparr>)"
    using a by (subst rootRetain_loop.simps) (simp add: isDeallocating_def compare_store_def)
  then have "s' = (x86_object 1)\<lparr>isa := v\<rparr>"
    using assms by (simp add: np_retain_def rootRetain_def rootRetain_once_def)
  then show ?thesis by (simp add: obj_room_def)
qed

theorem return_handshake_witness:
  "\<exists>st1 st2. run_callee (rv_ops (np_retain x86_config 16) (np_release x86_config 16) (emit PoolAdd) Inr) True False
      AutoreleaseReturnValue \<lparr>return_disposition = ReturnAtPlus0, object = x86_object 1\<rparr> = Inr st1 \<and>
    run_caller (rv_ops (np_retain x86_config 16) (np_release x86_config 16) (emit PoolAdd) Inr) RetainAutoreleasedReturnValue st1 =
      Inr st2 \<and>
    return_disposition st2 = ReturnAtPlus0 \<and> np_inv x86_config 16 (object st2) \<and>
    owed (retain_count x86_config 16) events (object st2) =
      owed (retain_count x86_config 16) events (x86_object 1) + rv_delta AutoreleaseReturnValue RetainAutoreleasedReturnValue"
  by (rule return_handshake)
    (use x86_object_retain_room in \<open>auto simp: np_inv_def x86_object_wf x86_object_count\<close>)

section \<open>Methods and their lookup\<close>

text \<open>C11: \<open>search_method_list_inline\<close> returns the first method of the list that has the
  name, or \<open>nil\<close>, whichever of its two searches it takes: for a list that is
  marked as fixed up it bisects and rewinds, and that gives the same result as
  the search from the start, as long as such a list is sorted by name.\<close>

theorem search_finds_first:
  assumes "list_ok method_lists (mem st) mlist" "isSmallList mlist st \<longrightarrow> one_place E mlist st"
  shows "((isFixedUp mlist st \<longrightarrow> sorted_names (mem st) mlist (list_names E mlist st)) \<longrightarrow>
      search_method_list_inline E mlist sel st =
        Some (Inr (case find (\<lambda>meth. method_name E meth st = Inr sel) (list_contents method_lists (mem st) mlist) of
          None \<Rightarrow> nil | Some meth \<Rightarrow> meth))) \<and>
    (sorted_names (mem st) mlist (list_names E mlist st) \<longrightarrow>
      findMethodInSortedMethodList E sel mlist st = findMethodInUnsortedMethodList E sel mlist st)"
  using search_method_list_first [OF assms] sorted_search [OF assms(1) getName_for_names [OF assms]]
    unsorted_search [OF assms(1) getName_for_names [OF assms]]
  by (simp add: first_method_named first_named_def findMethodInSortedMethodList_def findMethodInUnsortedMethodList_def)

theorem search_finds_first_witness:
  "search_method_list_inline sample_env 0x1000 7 sample_state = Some (Inr 0x1020) \<and>
   findMethodInSortedMethodList sample_env 6 0x1000 sample_state = findMethodInUnsortedMethodList sample_env 6 0x1000 sample_state"
proof -
  have s: "list_ok method_lists (mem sample_state) 0x1000" "isSmallList 0x1000 sample_state \<longrightarrow> one_place sample_env 0x1000 sample_state"
    and "sorted_names (mem sample_state) 0x1000 (list_names sample_env 0x1000 sample_state)"
    using sample_searchable(1) [of sample_env] sample_fixed_up by (simp_all add: list_searchable_def)
  then show ?thesis
    using search_finds_first [OF s, of 7] search_finds_first [OF s, of 6] by (simp add: sample_contents sample_method_names)
qed

text \<open>C12: \<open>getMethod_nolock\<close> on a realized class: the lookup ends and returns the first
  method of that name, where the methods are in the order of the superclass
  chain, within a class in the order of its lists, and within a list in the
  order of the list; or \<open>nil\<close> if there is none.\<close>

theorem lookup_order:
  assumes "superchain (mem st) cls cs" "cls \<noteq> nil" "\<forall>c\<in>set cs. class_searchable E local st c"
  shows "getMethod_nolock E local cls sel st =
    Some (Inr (case find (\<lambda>meth. method_name E meth st = Inr sel)
        (concat (map (list_contents method_lists (mem st)) (concat (map (class_lists (mem st)) cs)))) of
      None \<Rightarrow> nil | Some meth \<Rightarrow> meth))"
proof -
  have "concat (map (list_contents method_lists (mem st)) (concat (map (class_lists (mem st)) cs))) =
      concat (map (\<lambda>c. methods_of (mem st) (class_lists (mem st) c)) cs)"
    by (induction cs) (simp_all add: methods_of_def)
  then show ?thesis using getMethod_first [OF assms, of sel] by (simp add: first_named_def)
qed

theorem lookup_order_witness: "getMethod_nolock sample_env 0x6000 0x2000 7 sample_state = Some (Inr 0x1020)"
proof -
  have c: "superchain (mem sample_state) 0x2000 [0x2000]" by (simp add: sample_class_fields)
  have "\<forall>c\<in>set [0x2000]. class_searchable sample_env 0x6000 sample_state c" by (simp add: sample_class_searchable)
  from lookup_order [OF c _ this, of 7] show ?thesis
    using sample_contents sample_method_names by (simp add: sample_class_lists)
qed

text \<open>C13: attaching lists to a class that has an extension makes them the first lists of
  the class: a lookup in the new state finds a method of the attached lists if
  they have one of that name, and otherwise what the class's former lists have.\<close>

theorem attached_methods_override:
  assumes "get_ro_or_rwe m (class_data m cls) = rwe OR 1" "even (unat rwe)"
    and "la_ok m (ext_methods rwe)" "la_room m (ext_methods rwe) addedLists addedCount newArray"
    and "bytes_at cls 40 \<inter> attach_bytes m (ext_methods rwe) addedCount newArray = {}"
      "bytes_at (class_data m cls) 16 \<inter> attach_bytes m (ext_methods rwe) addedCount newArray = {}"
    and "mem st = fst (attachLists (ext_methods rwe) addedLists addedCount newArray m)"
    and "class_searchable E local st cls"
  shows "getMethodNoSuper_nolock E local cls sel st =
    Some (Inr (let meth = first_named E st sel (methods_of (mem st) (words_at m addedLists (unat addedCount)))
      in if meth \<noteq> nil then meth else first_named E st sel (methods_of (mem st) (class_lists m cls))))"
proof -
  have l: "class_lists (mem st) cls = words_at m addedLists (unat addedCount) @ class_lists m cls"
    using attached_class_lists [of m cls rwe addedLists addedCount newArray] assms by (simp add: ext_methods_def)
  have "\<forall>l\<in>set (class_lists (mem st) cls). list_searchable E st l"
    using assms(8) by (auto simp: class_searchable_def class_lists_def split: sum.splits)
  then have "nil \<notin> set (methods_of (mem st) (words_at m addedLists (unat addedCount)))"
    using methods_of_not_nil [of "words_at m addedLists (unat addedCount)" E st] l by simp
  from first_named_append [OF this] show ?thesis
    using getMethodNoSuper_first [OF assms(8), of sel] l by (simp add: methods_of_def Let_def)
qed

theorem attached_methods_override_witness:
  "getMethodNoSuper_nolock sample_env 0x6000 0x2000 7 attached_state = Some (Inr 0x1108) \<and>
   getMethodNoSuper_nolock sample_env 0x6000 0x2000 5 attached_state = Some (Inr 0x1008)"
proof -
  have "mem attached_state = fst (attachLists (ext_methods 0x3200) 0x4000 1 0x5000 sample_memory)"
    by (simp add: attached_state_def)
  note o = attached_methods_override [OF _ _ sample_room this attached_class_searchable, of sample_env]
  show ?thesis
    using o [of 7] o [of 5]
    by (simp add: sample_class_fields sample_class_lists sample_added methods_of_def attached_contents attached_method_names first_named_def Let_def)
qed

text \<open>C14: \<open>attachLists\<close> on a list array in any of its three forms (empty, one list, an
  array of lists): afterwards its lists are the added ones followed by those it
  had, the array is again well-formed, and no byte outside the field, its old
  array and the new array has changed.\<close>

theorem attachLists_prepends:
  assumes "la_ok m this" "la_room m this addedLists addedCount newArray"
  shows "let m' = fst (attachLists this addedLists addedCount newArray m) in
    la_lists m' this = words_at m addedLists (unat addedCount) @ la_lists m this \<and> la_ok m' this \<and>
    (\<forall>x. x \<notin> attach_bytes m this addedCount newArray \<longrightarrow> m' x = m x) \<and>
    lists_loop m' (beginLists m' this) (endLists m' this) = Some (la_lists m' this)"
  using attachLists_spec [OF assms] attachLists_frame [OF assms(2)] lists_loop_lists
  by (simp add: Let_def attach_bytes_def)

theorem attachLists_prepends_witness:
  "la_lists (fst (attachLists 0x3208 0x4000 1 0x5000 sample_memory)) 0x3208 = [0x1100, 0x1000]"
proof -
  have "la_ok sample_memory 0x3208" "la_room sample_memory 0x3208 0x4000 1 0x5000" using sample_room by (simp_all add: ext_methods_def)
  from attachLists_prepends [OF this] show ?thesis
    by (simp add: Let_def sample_added la_lists_word word_lists_def sample_class_fields)
qed

text \<open>C15: \<open>extAllocIfNeeded\<close> on a class that has no extension returns the new extension,
  and the class still answers as before: its \<open>ro()\<close>, and the words of its
  methods, properties and protocols, which the accessors now read from the
  extension.\<close>

theorem extension_keeps_class:
  assumes "get_ro_or_rwe (mem st) rw = ro" "even (unat ro)" "ext_room rw ro rwe local"
  shows "\<exists>st'. extAllocIfNeeded E rw rwe dup local st = Inr (Some (rwe, st')) \<and> rw_ext (mem st') rw = Inr rwe \<and>
    rw_ro (mem st') rw = rw_ro (mem st) rw \<and> rw_methods (mem st') rw = rw_methods (mem st) rw \<and>
    rw_properties (mem st') rw = rw_properties (mem st) rw \<and> rw_protocols (mem st') rw = rw_protocols (mem st) rw"
  by (rule extAllocIfNeeded_keeps [OF assms, of E dup]) blast

theorem extension_keeps_class_witness:
  "\<exists>st'. extAllocIfNeeded sample_env 0x3400 0x3600 0 0x6000 sample_state = Inr (Some (0x3600, st')) \<and>
    rw_methods (mem st') 0x3400 = Inr 0x1000"
proof -
  have ro: "get_ro_or_rwe (mem sample_state) 0x3400 = 0x3500" "even (unat (0x3500 :: u64))" by (simp_all add: sample_class_fields)
  moreover have "ext_room 0x3400 0x3500 0x3600 0x6000" by (simp add: ext_room_def bytes_at_apart)
  moreover have "rw_methods (mem sample_state) 0x3400 = Inr 0x1000" using union_ro(2) [OF ro] by (simp add: sample_class_fields)
  ultimately show ?thesis using extension_keeps_class [of sample_state "0x3400" "0x3500" "0x3600" "0x6000" sample_env 0] by auto
qed

text \<open>C16: \<open>method_list_t::duplicate\<close> of a list of big or of small methods ends, and the copy
  is a list of big methods with as many methods, each with the name, the types
  and the implementation of its original, replaced implementations of small
  methods included.\<close>

theorem duplicate_copies:
  assumes "list_ok method_lists (mem st) mlist" "isExpectedSize mlist st" "imps_inv st" "dup_room E mlist dup st"
  shows "\<exists>st'. method_list_duplicate E mlist dup st = Inr (Some st') \<and>
    list_ok method_lists (mem st') dup \<and> \<not> isSmallList dup st' \<and>
    map (\<lambda>meth. (method_name E meth st', method_types meth st', method_imp E meth st')) (list_contents method_lists (mem st') dup) =
    map (\<lambda>meth. (method_name E meth st, method_types meth st, method_imp E meth st)) (list_contents method_lists (mem st) mlist)"
  using method_list_duplicate_copies [OF assms] by (auto simp: list_contents_def method_reads_def)

theorem duplicate_copies_witness:
  "\<exists>st'. method_list_duplicate sample_env 0x1000 0x7000 sample_state = Inr (Some st') \<and>
    map (\<lambda>meth. method_name sample_env meth st') (list_contents method_lists (mem st') 0x7000) = [Inr 5, Inr 7]"
proof -
  have "isExpectedSize 0x1000 sample_state" "list_ok method_lists (mem sample_state) 0x1000"
    using sample_big_lists(1) big_list_ok(1) [OF sample_big_lists(1)]
    by (simp_all add: isExpectedSize_def isSmallList_def big_list_def)
  from duplicate_copies [OF this(2,1) imps_ok_inv [OF imps_ok_sample] sample_dup_room]
  obtain st' where st': "method_list_duplicate sample_env 0x1000 0x7000 sample_state = Inr (Some st')"
    "map (\<lambda>meth. (method_name sample_env meth st', method_types meth st', method_imp sample_env meth st')) (list_contents method_lists (mem st') 0x7000) =
     map (\<lambda>meth. (method_name sample_env meth sample_state, method_types meth sample_state, method_imp sample_env meth sample_state)) [0x1008, 0x1020]"
    by (auto simp: sample_contents)
  from arg_cong [OF st'(2), of "map fst"] st'(1) show ?thesis by (auto simp: comp_def sample_method_names)
qed

text \<open>C17: \<open>method_t::setImp\<close> and \<open>imp\<close>: an implementation that is set (not nil, if the
  method is small) is the one that is read, for a big method and for a small
  one, whose implementation goes into the map of replaced implementations; the
  name and the types of the method stay.  In memory only the eight bytes of a
  big method's implementation may change, and every other method that does not
  lie over them says what it said before.\<close>

theorem setImp_roundtrip:
  assumes "imps_ok st" "m \<noteq> - 1" "method_isSmall m \<longrightarrow> imp \<noteq> nil"
  shows "\<exists>st'. setImp m imp st = Inr st' \<and> imps_inv st' \<and> method_imp E m st' = Inr imp \<and>
    method_name E m st' = method_name E m st \<and> method_types m st' = method_types m st \<and>
    (\<forall>x. method_isSmall m \<or> x \<notin> bytes_at (m + 16) 8 \<longrightarrow> mem st' x = mem st x) \<and>
    (\<forall>n. n \<noteq> m \<and> n \<noteq> - 1 \<and> (method_isSmall m \<or> method_bytes E (mem st) n \<inter> bytes_at (m + 16) 8 = {}) \<longrightarrow>
      method_name E n st' = method_name E n st \<and> method_types n st' = method_types n st \<and> method_imp E n st' = method_imp E n st)"
proof -
  obtain st' where "setImp m imp st = Inr st'" "imps_inv st'"
    "method_reads E m st' = (method_name E m st, method_types m st, Inr imp)"
    "\<forall>x. x \<notin> imp_slot m \<longrightarrow> mem st' x = mem st x"
    "\<forall>n. n \<noteq> m \<and> n \<noteq> - 1 \<and> method_bytes E (mem st) n \<inter> imp_slot m = {} \<longrightarrow> method_reads E n st' = method_reads E n st"
    using setImp_spec [of st m imp E] assms by blast
  then show ?thesis
    by (intro exI [of _ st'], cases "method_isSmall m") (simp_all add: method_reads_def imp_slot_def)
qed

theorem setImp_roundtrip_witness:
  "\<exists>st'. setImp 0x1108 0x9000 sample_state = Inr st' \<and> method_imp sample_env 0x1108 st' = Inr 0x9000 \<and>
    method_name sample_env 0x1108 st' = method_name sample_env 0x1108 sample_state \<and>
    method_imp sample_env 0x1120 st' = method_imp sample_env 0x1120 sample_state"
proof -
  have big: "\<not> method_isSmall 0x1108" "\<not> method_isSmall 0x1120" by (simp_all add: method_isSmall_def)
  have "bytes_at 0x1120 24 \<inter> bytes_at (0x1108 + 16) 8 = {}" by (rule bytes_at_apart) simp_all
  then have "method_bytes sample_env (mem sample_state) 0x1120 \<inter> bytes_at (0x1108 + 16) 8 = {}"
    using big(2) by (simp add: method_bytes_def)
  then show ?thesis using setImp_roundtrip [OF imps_ok_sample, where m = "0x1108" and imp = "0x9000" and E = sample_env] big(1) by fastforce
qed

section \<open>Associated references\<close>

definition sample_assoc_env :: assoc_env where
  "sample_assoc_env = \<lparr>class_of = (\<lambda>_. sample_class), retain_result = (\<lambda>v. v), copy_result = (\<lambda>v. v + 64),
     autorelease_result = (\<lambda>v. v)\<rparr>"

definition sample_storage :: assoc_storage where
  "sample_storage = \<lparr>refs_junk = (7, ObjcAssociation_default), associations_junk = (9, empty_refs)\<rparr>"

lemma sample_assoc_env_allows:
  "forbidsAssociatedObjects (class_of sample_assoc_env obj) = False" "retains_itself sample_assoc_env"
  by (simp_all add: sample_assoc_env_def retains_itself_def forbidsAssociatedObjects_def sample_class_def
      RW_FORBIDS_ASSOCIATED_OBJECTS_def RW_REALIZED_def RW_REALIZING_def RW_COPIED_RO_def)

text \<open>C5: Associated references behave as one partial map from pairs of object and
  key.  From the initialised table, any sequence of sets, gets and removals by
  callers that respect the contract runs without a fault, every get answers
  what the map holds at that moment, and the two-level table represents the
  map at the end.\<close>

theorem associations_refine:
  assumes "length ops < 2 ^ 24" "list_all (assoc_op_ok env) ops"
  shows "\<exists>t t' rs ev. AssociationsManager_init s = Inr t \<and> assoc_run s env ops t = Inr (t', rs, ev) \<and>
    assoc_spec_run env ops Map.empty = (assoc_map s t', rs)"
proof -
  obtain t where t: "AssociationsManager_init s = Inr t" "assoc_inv s 0 t" "assoc_map s t = Map.empty"
    using manager_init by blast
  have "0 + length ops < 2 ^ 24" using assms(1) by simp
  from assoc_run_refines [OF t(2) this assms(2)] t show ?thesis by auto
qed

theorem associations_refine_witness:
  "\<exists>t t' ev. AssociationsManager_init sample_storage = Inr t \<and> assoc_run sample_storage sample_assoc_env
    [SetAssociation 4096 8 512 0x303, GetAssociation 4096 8, RemoveAssociations 4096 True, GetAssociation 4096 8] t =
    Inr (t', [576, 0], ev)"
proof -
  let ?ops = "[SetAssociation 4096 8 512 0x303, GetAssociation 4096 8, RemoveAssociations 4096 True, GetAssociation 4096 8]"
  have "list_all (assoc_op_ok sample_assoc_env) ?ops" by (simp add: sample_assoc_env_allows pointer_ok_def)
  then obtain t t' rs ev where r: "AssociationsManager_init sample_storage = Inr t" "assoc_run sample_storage sample_assoc_env ?ops t = Inr (t', rs, ev)"
    "assoc_spec_run sample_assoc_env ?ops Map.empty = (assoc_map sample_storage t', rs)"
    using associations_refine [of ?ops sample_assoc_env sample_storage] by auto
  have "snd (assoc_spec_run sample_assoc_env ?ops Map.empty) = [576, 0]"
    by (simp add: acquireValue_def autoreleaseReturnedValue_def ObjcAssociation_new_def assoc_policies
        sample_assoc_env_def spec_remove_def)
  then show ?thesis using r by simp
qed

text \<open>C6: Associated references neither leak nor over-release.  When every policy is
  one of the documented kinds and \<open>objc_retain\<close> returns its argument, after any
  such sequence the values retained or copied are exactly the values released
  or autoreleased together with the values the table still holds, each counted
  as often as it occurs.\<close>

theorem associations_balanced:
  assumes "length ops < 2 ^ 24" "list_all (assoc_op_ok env) ops" "list_all op_policy_ok ops" "retains_itself env"
  shows "\<exists>t t' rs ev. AssociationsManager_init s = Inr t \<and> assoc_run s env ops t = Inr (t', rs, ev) \<and>
    acquired ev = released ev + still_held (assoc_map s t')"
proof -
  obtain t where t: "AssociationsManager_init s = Inr t" "assoc_inv s 0 t" "assoc_map s t = Map.empty"
    using manager_init by blast
  have "0 + length ops < 2 ^ 24" using assms(1) by simp
  from assoc_run_refines [OF t(2) this assms(2)] t assms(3,4) show ?thesis by (auto simp: balanced_def)
qed

theorem associations_balanced_witness:
  "\<exists>t t' rs ev. AssociationsManager_init sample_storage = Inr t \<and> assoc_run sample_storage sample_assoc_env
    [SetAssociation 4096 8 512 1, SetAssociation 4096 8 1024 0x303, SetAssociation 4096 8 0 0] t = Inr (t', rs, ev) \<and>
    acquired ev = released ev + still_held (assoc_map sample_storage t')"
  using associations_balanced [of "[SetAssociation 4096 8 512 1, SetAssociation 4096 8 1024 0x303, SetAssociation 4096 8 0 0]"
      sample_assoc_env sample_storage]
  by (simp add: sample_assoc_env_allows pointer_ok_def policy_ok_def assoc_policies)

text \<open>C7: Removing an object's associations releases each value the object held once,
  after the table's lock is dropped and the ordinary associations before those
  of the system; the associations of other objects stay.  A deallocating object
  loses all its associations; otherwise those of the system stay and are not
  released.\<close>

theorem associations_removed:
  assumes "assoc_inv s e t" "e < 2 ^ 24" "pointer_ok obj"
  shows "\<exists>t' rs. object_remove_assocations s obj d t = Inr (t', [ManagerLock, ManagerUnlock] @
      concat (map (\<lambda>r. releaseHeldValue (snd r)) (filter (\<lambda>r. \<not> system_object (snd r)) rs)) @
      (if d then concat (map (\<lambda>r. releaseHeldValue (snd r)) (filter (\<lambda>r. system_object (snd r)) rs)) else [])) \<and>
    distinct (map fst rs) \<and> set rs = {(k, a). assoc_map s t (obj, k) = Some a} \<and>
    (\<forall>x k. x \<noteq> obj \<longrightarrow> assoc_map s t' (x, k) = assoc_map s t (x, k)) \<and>
    (\<forall>k a. assoc_map s t' (obj, k) = Some a \<longleftrightarrow> \<not> d \<and> assoc_map s t (obj, k) = Some a \<and> system_object a)"
proof -
  have pres: "preserved f k = Some a \<longleftrightarrow> f k = Some a \<and> system_object a" for f k a
    by (auto simp: preserved_def split: option.split)
  obtain t' rs where r: "object_remove_assocations s obj d t = Inr (t', [ManagerLock, ManagerUnlock] @
      concat (map (\<lambda>r. releaseHeldValue (snd r)) (filter (\<lambda>r. \<not> system_object (snd r)) rs)) @
      (if d then concat (map (\<lambda>r. releaseHeldValue (snd r)) (filter (\<lambda>r. system_object (snd r)) rs)) else []))"
    "distinct (map fst rs)" "set rs = {(k, a). refs_of s t obj k = Some a}"
    "refs_of s t' = (refs_of s t)(obj := if d then Map.empty else preserved (refs_of s t obj))"
    using remove_spec [OF assms, of d] by blast
  have "assoc_map s t' (obj, k) = Some a \<longleftrightarrow> \<not> d \<and> assoc_map s t (obj, k) = Some a \<and> system_object a" for k a
    using pres by (simp add: assoc_map_def r(4))
  moreover have "assoc_map s t' (x, k) = assoc_map s t (x, k)" if "x \<noteq> obj" for x k
    using that by (simp add: assoc_map_def r(4))
  moreover have "set rs = {(k, a). assoc_map s t (obj, k) = Some a}" using r(3) by (simp add: assoc_map_def)
  ultimately show ?thesis using r(1,2) by blast
qed

theorem associations_removed_witness:
  "\<exists>t0 t rs ev t'. AssociationsManager_init sample_storage = Inr t0 \<and>
    assoc_run sample_storage sample_assoc_env [SetAssociation 4096 8 512 1] t0 = Inr (t, rs, ev) \<and>
    object_remove_assocations sample_storage 4096 False t = Inr (t', [ManagerLock, ManagerUnlock, ObjcRelease 512])"
proof -
  let ?op = "SetAssociation 4096 8 512 1" and ?a = "\<lparr>policy = 1, value_of = 512\<rparr>"
  obtain t0 where t0: "AssociationsManager_init sample_storage = Inr t0" "assoc_inv sample_storage 0 t0"
    "assoc_map sample_storage t0 = Map.empty" using manager_init by blast
  have "list_all (assoc_op_ok sample_assoc_env) [?op]" by (simp add: sample_assoc_env_allows pointer_ok_def)
  from assoc_run_refines [OF t0(2) _ this] obtain t rs ev where
    run: "assoc_run sample_storage sample_assoc_env [?op] t0 = Inr (t, rs, ev)" "assoc_inv sample_storage 1 t"
    "assoc_spec_run sample_assoc_env [?op] Map.empty = (assoc_map sample_storage t, rs)"
    by (auto simp: t0(3) simp del: assoc_run.simps assoc_spec_run.simps)
  have spec: "assoc_spec_run sample_assoc_env [?op] Map.empty = ([(4096, 8) \<mapsto> ?a], [])"
    by (simp add: acquireValue_def ObjcAssociation_new_def assoc_policies sample_assoc_env_def)
  have "assoc_map sample_storage t = [(4096, 8) \<mapsto> ?a]" using run(3) unfolding spec by (simp only: prod.inject)
  then have map_t: "assoc_map sample_storage t (4096, k) = Some b \<longleftrightarrow> k = 8 \<and> b = ?a" for k b by auto
  obtain t' rs' where r: "object_remove_assocations sample_storage 4096 False t = Inr (t', [ManagerLock, ManagerUnlock] @
      concat (map (\<lambda>r. releaseHeldValue (snd r)) (filter (\<lambda>r. \<not> system_object (snd r)) rs')))"
    "distinct (map fst rs')" "set rs' = {(k, b). assoc_map sample_storage t (4096, k) = Some b}"
    using associations_removed [OF run(2), of 4096 False] by (auto simp: pointer_ok_def)
  have "set rs' = {(8, ?a)}" using r(3) map_t by auto
  moreover have "distinct rs'" using r(2) by (simp add: distinct_map)
  ultimately have "length rs' = 1" using distinct_card [of rs'] by simp
  with \<open>set rs' = {(8, ?a)}\<close> have "rs' = [(8, ?a)]" by (auto simp: length_Suc_conv)
  then show ?thesis using t0(1) run(1) r(1)
    by (auto simp: system_object_def assoc_policies releaseHeldValue_def)
qed

section \<open>Tagged pointers\<close>

text \<open>C18: For each of the three bit layouts, with any obfuscator and permutation that
  the layout allows: a tagged pointer made from a valid tag and a value is
  recognised as tagged, gives the tag back, and gives the value back, cut to
  60 or 52 bits, without sign and with sign.\<close>

theorem tagged_pointer_roundtrip:
  assumes "L = split_tags \<or> L = msb_tags \<or> L = lsb_tags" "tag_state_ok L s" "valid_tag tag"
  shows "is_tagged L (makeTaggedPointer L s tag v) \<and>
    (isExtTaggedPointer L s (makeTaggedPointer L s tag v) \<longleftrightarrow> 8 \<le> tag) \<and>
    getTaggedPointerTag L s (makeTaggedPointer L s tag v) = tag \<and>
    getTaggedPointerValue L s (makeTaggedPointer L s tag v) = take_bit (if tag \<le> 6 then 60 else 52) v \<and>
    getTaggedPointerSignedValue L s (makeTaggedPointer L s tag v) = signed_take_bit (if tag \<le> 6 then 59 else 51) v"
proof -
  note codec = tag_codecI [OF assms(1,2)]
  show ?thesis
    using tag_codec.make_tagged(1,2) [OF codec assms(3)] tag_codec.getTag_make [OF codec assms(3)]
      tag_codec.getValue_make [OF codec assms(3)] by (intro conjI)
qed

theorem tagged_pointer_roundtrip_witness:
  "is_tagged split_tags (makeTaggedPointer split_tags permuted_tags 3 42) \<and>
    (isExtTaggedPointer split_tags permuted_tags (makeTaggedPointer split_tags permuted_tags 3 42) \<longleftrightarrow> 8 \<le> (3 :: nat)) \<and>
    getTaggedPointerTag split_tags permuted_tags (makeTaggedPointer split_tags permuted_tags 3 42) = 3 \<and>
    getTaggedPointerValue split_tags permuted_tags (makeTaggedPointer split_tags permuted_tags 3 42) =
      take_bit (if (3 :: nat) \<le> 6 then 60 else 52) 42 \<and>
    getTaggedPointerSignedValue split_tags permuted_tags (makeTaggedPointer split_tags permuted_tags 3 42) =
      signed_take_bit (if (3 :: nat) \<le> 6 then 59 else 51) 42"
  by (rule tagged_pointer_roundtrip) (simp_all add: permuted_tags_ok valid_tag_def)

text \<open>C21: \<open>getIsa\<close> finds the class of a tagged pointer: once a class is registered for
  a tag, every tagged pointer made with that tag, whatever its value, leads to
  that class, although the table is indexed with obfuscated bits of the
  pointer and not with the tag.\<close>

theorem tagged_class_dispatch:
  assumes "L = split_tags \<or> L = msb_tags \<or> L = lsb_tags" "tag_state_ok L s" "valid_tag tag"
    "registerTaggedPointerClass L unrecognized tag cls s = Inr s'" "unrecognized \<noteq> nil" "cls \<noteq> unrecognized"
    "read_slot s (classSlotForBasicTagIndex L s OBJC_TAG_RESERVED_7) \<in> {nil, unrecognized}"
  shows "getIsa L s' unrecognized rawIsa (makeTaggedPointer L s' tag v) = cls"
  using assms by (rule getIsa_registered)

theorem tagged_class_dispatch_witness:
  "\<exists>s'. registerTaggedPointerClass msb_tags 8 20 4096 (initializeTaggedPointerObfuscator (boot_tags msb_tags)) = Inr s' \<and>
    getIsa msb_tags s' 8 0 (makeTaggedPointer msb_tags s' 20 99) = 4096"
proof -
  let ?s = "initializeTaggedPointerObfuscator (boot_tags msb_tags)"
  have "classSlotForTagIndex msb_tags ?s 20 = Some (ExtSlot 12)"
    by (simp add: classSlotForTagIndex_def boot_tags_def initializeTaggedPointerObfuscator_def OBJC_TAG_First52BitPayload_def
        OBJC_TAG_Last52BitPayload_def OBJC_TAG_Last60BitPayload_def TAG_EXT_INDEX_MASK_def)
  moreover have "read_slot ?s (ExtSlot 12) = nil" "taggedpointer_mask ?s \<noteq> 0"
    by (simp_all add: boot_tags_def initializeTaggedPointerObfuscator_def read_slot.simps)
  ultimately obtain s' where s': "registerTaggedPointerClass msb_tags 8 20 4096 ?s = Inr s'"
    by (simp add: registerTaggedPointerClass_def Let_def)
  have "read_slot ?s (classSlotForBasicTagIndex msb_tags ?s OBJC_TAG_RESERVED_7) \<in> {nil, 8}"
    by (simp add: classSlotForBasicTagIndex_def OBJC_TAG_RESERVED_7_def boot_tags_def initializeTaggedPointerObfuscator_def
        read_slot.simps msb_tags_def)
  then show ?thesis
    using s' tagged_class_dispatch [OF _ boot_tags_ok [of msb_tags] _ s'] by (auto simp: valid_tag_def)
qed

section \<open>Locks\<close>

text \<open>C26: Threads that each take two locks with \<open>mutex_tt::lockTwo\<close>, or all locks of a
  map with \<open>StripedMap::lockAll\<close>, and give them back, never deadlock: in every
  state that any schedule reaches, no thread aborts on a lock, and either some
  thread can go on or all are done and every lock is free.  From there the
  remaining operations of all threads can run, each once, to that end.\<close>

theorem ordered_locking_finishes:
  assumes "list_all job_ok jobs" "lock_step\<^sup>*\<^sup>* (\<lambda>_. None, map job_ops jobs) (own, ps)"
  shows "\<not> lock_aborts (own, ps) \<and>
    ((\<exists>s'. lock_step (own, ps) s') \<or> list_all (\<lambda>p. p = []) ps \<and> own = (\<lambda>_. None)) \<and>
    (\<exists>ps'. (lock_step ^^ sum_list (map length ps)) (own, ps) (\<lambda>_. None, ps') \<and> list_all (\<lambda>p. p = []) ps')"
proof -
  have inv: "lock_inv (own, ps)" by (rule lock_inv_run [OF assms(2) lock_inv_start [OF assms(1)]])
  show ?thesis
    using lock_inv_no_abort [OF inv] lock_progress [OF inv] lock_inv_done [OF inv] lock_run_finishes [OF inv]
    by (auto simp: lock_work_def)
qed

lemma two_threads_meet:
  "lock_step\<^sup>*\<^sup>* (\<lambda>_. None, map job_ops [TwoLocks 8 16, TwoLocks 16 8])
    ((\<lambda>_. None)(8 := Some 0), [[Lock 16, Unlock 8, Unlock 16], [Lock 8, Lock 16, Unlock 16, Unlock 8]])"
  using step [of 0 "map job_ops [TwoLocks 8 16, TwoLocks 16 8]" "Lock 8" "[Lock 16, Unlock 8, Unlock 16]" "\<lambda>_. None"]
  by (simp add: lockTwo_def unlockTwo_def)

theorem ordered_locking_finishes_witness:
  "\<exists>ps'. (lock_step ^^ 7) ((\<lambda>_. None)(8 := Some 0), [[Lock 16, Unlock 8, Unlock 16], [Lock 8, Lock 16, Unlock 16, Unlock 8]])
    (\<lambda>_. None, ps') \<and> list_all (\<lambda>p. p = []) ps'"
proof -
  let ?ps = "[[Lock 16, Unlock 8, Unlock 16], [Lock 8, Lock 16, Unlock 16, Unlock 8]]"
  have n: "sum_list (map length ?ps) = 7" and ok: "list_all job_ok [TwoLocks 8 16, TwoLocks 16 8]" by simp_all
  from ordered_locking_finishes [OF ok two_threads_meet] show ?thesis unfolding n by blast
qed

text \<open>C19: \<open>lockTwo\<close> takes its two locks in the order of their addresses, whichever comes
  first in the call, and only once if they are the same lock.  It succeeds at
  once exactly when both are free; otherwise it waits, or aborts if the thread
  itself owns the lock it comes to.  \<open>unlockTwo\<close> after it restores the owners.\<close>

theorem lockTwo_correct:
  "(\<exists>xs. lockTwo a b = map Lock xs \<and> lockTwo b a = map Lock xs \<and> set xs = {a, b} \<and> sorted_wrt (<) xs) \<and>
   (if own a = None \<and> own b = None
    then lock_run t (lockTwo a b) own = Goes (own(a := Some t, b := Some t)) \<and>
      lock_run t (lockTwo a b @ unlockTwo a b) own = Goes own
    else lock_run t (lockTwo a b) own =
      (if (if own (min a b) = None then own (max a b) else own (min a b)) = Some t then Aborts UnfairLockRecursion else Waits))"
  using lockTwo_sorted [of a b] lockTwo_unlockTwo_run [of own a b t] by (auto simp: lockTwo_run split: option.split)

text \<open>C27: \<open>StripedMap::lockAll\<close> takes every lock of a map that lies in the address space,
  in ascending order of address, and this is the order that \<open>defineLockOrder\<close>
  declares to the lock debugger pair by pair; \<open>succeedLock\<close> puts a lock before
  the first of them and \<open>precedeLock\<close> one after the last.\<close>

theorem lockAll_declared_order:
  assumes "stripes_fit tgt base sz"
  shows "\<exists>xs. lockAll tgt base sz = map Lock xs \<and> unlockAll tgt base sz = map Unlock xs \<and>
    length xs = StripeCount tgt \<and> sorted_wrt (<) xs \<and> defineLockOrder tgt base sz = zip (butlast xs) (List.tl xs) \<and>
    succeedLock base sz l = (l, hd xs) \<and> precedeLock tgt base sz l = (last xs, l)"
proof -
  let ?xs = "map (stripe_address base sz) [0..<StripeCount tgt]"
  have "hd ?xs = stripe_address base sz 0" "last ?xs = stripe_address base sz (StripeCount tgt - 1)"
    by (simp_all add: hd_map last_map)
  then show ?thesis using lockAll_sorted [OF assms] defineLockOrder_zip [of tgt base sz]
    by (intro exI [of _ ?xs]) (simp add: lockAll_def unlockAll_def succeedLock_def precedeLock_def)
qed

theorem lockAll_declared_order_witness:
  "\<exists>xs. lockAll TargetOther 0x4000 64 = map Lock xs \<and> sorted_wrt (<) xs \<and>
    defineLockOrder TargetOther 0x4000 64 = zip (butlast xs) (List.tl xs)"
  using lockAll_declared_order [of TargetOther "0x4000" 64 0] by (auto simp: stripes_fit_def)

text \<open>C35: \<open>StripedMap\<close> spreads neighbours: in a block of memory aligned to its size, as
  many objects of 16 bytes as there are stripes go to pairwise different
  stripes and use every one of them, so that what is stored for one object of
  the block is seen by that object only.\<close>

theorem striped_map_correct:
  assumes "length array = StripeCount tgt" "16 * StripeCount tgt dvd unat base" "i < StripeCount tgt" "j < StripeCount tgt"
  shows "bij_betw (\<lambda>k. indexForPointer tgt (base + 16 * of_nat k)) {..<StripeCount tgt} {..<StripeCount tgt} \<and>
    striped_get tgt (striped_set tgt (base + 16 * of_nat i) v array) (base + 16 * of_nat j) =
      (if i = j then v else striped_get tgt array (base + 16 * of_nat j))"
proof -
  have bij: "bij_betw (\<lambda>k. indexForPointer tgt (base + 16 * of_nat k)) {..<StripeCount tgt} {..<StripeCount tgt}"
    by (rule indexForPointer_bij [OF aligned_block [OF assms(2)]])
  then have "indexForPointer tgt (base + 16 * of_nat i) = indexForPointer tgt (base + 16 * of_nat j) \<longleftrightarrow> i = j"
    using assms(3,4) inj_on_eq_iff [OF bij_betw_imp_inj_on [OF bij], of i j] by simp
  with bij show ?thesis by (simp add: striped_get_set [OF assms(1)])
qed

theorem striped_map_correct_witness:
  "striped_get TargetOther (striped_set TargetOther (0x1000 + 16 * of_nat 3) (5 :: nat) (replicate 64 0)) (0x1000 + 16 * of_nat 35) =
    striped_get TargetOther (replicate 64 0) (0x1000 + 16 * of_nat 35)"
  using striped_map_correct [where array = "replicate 64 (0 :: nat)" and tgt = TargetOther and base = "0x1000" and i = 3 and j = 35 and v = 5]
  by simp

section \<open>Hash tables\<close>

text \<open>C3: Whatever sequence of insertions, assignments through \<open>operator[]\<close>, erasures,
  lookups, counts, emptiness tests, reservations and clears is run on a new
  \<open>DenseMap\<close> whose values are not purgeable, no call fails an assertion, finds
  the table corrupt or runs out of buckets, and every call answers what a plain
  finite map would answer; the table at the end satisfies its invariant and
  stands for that map.\<close>

theorem dense_map_refines_spec:
  assumes "key_info (KeyInfo p)" "isPurgeable p = DenseMapValueInfo_isPurgeable"
    "length ops < 2 ^ 24" "list_all (op_ok p) ops"
  shows "\<exists>m0 m rs. dm_new p 0 = Inr m0 \<and> dm_run p ops m0 = Inr (m, rs) \<and> dm_inv p m \<and>
    spec_run p ops Map.empty = (dm_map p m, rs)"
proof -
  have laws: "plain_map_laws p" using assms(1,2) by (rule plain_map_lawsI)
  then have dml: "dense_map_laws p" by (simp add: plain_map_laws_def)
  obtain m0 where m0: "dm_new p 0 = Inr m0" "dm_inv p m0" "dm_map p m0 = Map.empty" "dm_sized 0 m0"
    using dense_map_laws.dm_init_spec [OF dml, of 0] dense_map_laws.min_buckets_spec(1) [OF dml, of 0]
    unfolding dm_new_def dm_sized_def by fastforce
  show ?thesis
    using plain_map_laws.dm_run_refines [OF laws m0(2,4) _ assms(4)] assms(3) m0(1,3) by auto
qed

theorem dense_map_refines_spec_witness:
  "\<exists>m0 m rs. dm_new (map_params ptr_info (0::u64) (0, 0) True) 0 = Inr m0 \<and>
    dm_run (map_params ptr_info 0 (0, 0) True) [Emplace 16 1, Assign 32 2, Erase 16, Lookup 32] m0 = Inr (m, rs) \<and>
    dm_inv (map_params ptr_info 0 (0, 0) True) m \<and>
    spec_run (map_params ptr_info 0 (0, 0) True) [Emplace 16 1, Assign 32 2, Erase 16, Lookup 32] Map.empty =
      (dm_map (map_params ptr_info 0 (0, 0) True) m, rs)"
  by (rule dense_map_refines_spec)
    (simp add: map_params_def ptr_info.key_info_axioms, simp_all add: map_params_def
      is_live_key_def is_empty_key_def is_tombstone_key_def ptr_info_def)

text \<open>C28: Iterating over a \<open>DenseMap\<close> from \<open>begin()\<close> to \<open>end()\<close> visits each entry of the
  map it stands for exactly once: every visited pair is an entry under a key
  that is neither the empty nor the tombstone key, every entry is visited
  under an equal key, and there are \<open>size()\<close> of them.\<close>

theorem dense_map_iteration:
  assumes "key_info (KeyInfo p)" "dm_inv p m"
  shows "(\<forall>(k, v) \<in> set (dm_iterate p m). is_live_key p k \<and> dm_map p m k = Some v) \<and>
    (\<forall>k v. dm_map p m k = Some v \<longrightarrow> (\<exists>k'. isEqual (KeyInfo p) k k' \<and> (k', v) \<in> set (dm_iterate p m))) \<and>
    length (dm_iterate p m) = dm_size m"
proof -
  have laws: "dense_map_laws p" using assms(1) by (simp add: dense_map_laws_def)
  show ?thesis using dense_map_laws.dm_iterate_map [OF laws assms(2)] by blast
qed

lemma sample_map:
  "\<exists>m. dm_inv (map_params ptr_info (0::u64) (0, 0) True) m \<and> dm_map (map_params ptr_info 0 (0, 0) True) m 16 = Some 1"
proof -
  let ?p = "map_params ptr_info (0::u64) (0, 0) True"
  obtain m0 where m0: "dm_inv ?p m0" "dm_sized 0 m0" "dm_map ?p m0 = Map.empty"
    using ptr_map.dm_init_spec [of 0 0 "(0, 0)" True] ptr_map.min_buckets_spec(1) [of 0] unfolding dm_sized_def by fastforce
  have "list_all (op_ok ?p) [Emplace 16 1]"
    by (simp add: map_params_def is_live_key_def is_empty_key_def is_tombstone_key_def ptr_info_def)
  from ptr_map.dm_run_refines [OF m0(1,2) _ this] obtain m rs
    where m: "dm_inv ?p m" "spec_run ?p [Emplace 16 1] (dm_map ?p m0) = (dm_map ?p m, rs)" by auto
  have "dm_map ?p m = fst (spec_run ?p [Emplace 16 1] Map.empty)" using m(2) m0(3) by simp
  moreover have "fst (spec_run ?p [Emplace 16 1] Map.empty) 16 = Some 1" by (simp add: map_params_def upd_eq_def ptr_info_def)
  ultimately show ?thesis using m(1) by auto
qed

theorem dense_map_iteration_witness:
  "\<exists>m k'. dm_map (map_params ptr_info (0::u64) (0, 0) True) m 16 = Some 1 \<and>
    (k', 1) \<in> set (dm_iterate (map_params ptr_info 0 (0, 0) True) m)"
  using sample_map dense_map_iteration [of "map_params ptr_info (0::u64) (0, 0) True"]
  by (force simp: map_params_def ptr_info.key_info_axioms)

text \<open>C29: Copying a \<open>DenseMap\<close> and comparing two of them agree with the maps they stand
  for: \<open>operator==\<close> never fails and answers whether the maps are equal, and a
  copy satisfies the invariant and compares equal to its source, whatever the
  layout of the buckets.\<close>

theorem dense_map_equality:
  assumes "key_info (KeyInfo p)" "dm_inv p l" "dm_inv p r"
  shows "dm_equal p l r = Inr (dm_map p l = dm_map p r) \<and>
    dm_inv p (dm_copyFrom p l m) \<and> dm_equal p (dm_copyFrom p l m) l = Inr True"
proof -
  have laws: "dense_map_laws p" using assms(1) by (simp add: dense_map_laws_def)
  note copy = dense_map_laws.dm_copyFrom_spec [OF laws assms(2), of m]
  show ?thesis
    using dense_map_laws.dm_equal_spec [OF laws assms(2,3)] dense_map_laws.dm_equal_spec [OF laws copy(1) assms(2)] copy by simp
qed

theorem dense_map_equality_witness:
  "\<exists>m. dm_map (map_params ptr_info (0::u64) (0, 0) True) m 16 = Some 1 \<and>
    dm_equal (map_params ptr_info 0 (0, 0) True) (dm_copyFrom (map_params ptr_info 0 (0, 0) True) m m) m = Inr True"
  using sample_map dense_map_equality [of "map_params ptr_info (0::u64) (0, 0) True"]
  by (fastforce simp: map_params_def ptr_info.key_info_axioms)

text \<open>C30: \<open>DenseSet\<close> behaves as a set of keys up to the key type's equality:
  insertion adds the key and says whether it was new, erasure removes it and
  says whether it was there, \<open>count\<close> answers membership, and none of them
  fails.\<close>

theorem dense_set_correct:
  assumes "key_info I" "p = set_params I u" "dm_inv p s" "NumBuckets s \<le> 2 ^ 29" "is_live_key p V"
  shows "(\<exists>s' i. DenseSet_insert p V s = Inr (s', i, V \<notin> ds_set p s) \<and> dm_inv p s' \<and>
      ds_set p s' = {k. isEqual I k V} \<union> ds_set p s \<and> DenseSet_count p V s' = Inr 1) \<and>
    (\<exists>s'. DenseSet_erase p V s = Inr (s', V \<in> ds_set p s) \<and> dm_inv p s' \<and>
      ds_set p s' = ds_set p s - {k. isEqual I k V} \<and> DenseSet_count p V s' = Inr 0) \<and>
    DenseSet_count p V s = Inr (if V \<in> ds_set p s then 1 else 0)"
proof -
  have laws: "dense_set_laws p" unfolding assms(2) using assms(1) by (rule set_params_key_info)
  have I: "KeyInfo p = I" by (simp add: assms(2) set_params_def)
  note count = dense_set_laws.DenseSet_count_set [OF laws _ assms(5)]
  have V: "V \<in> {k. isEqual I k V}" using key_info.eq_refl [OF assms(1)] by simp
  obtain s1 i where s1: "DenseSet_insert p V s = Inr (s1, i, V \<notin> ds_set p s)" "dm_inv p s1"
    "ds_set p s1 = {k. isEqual I k V} \<union> ds_set p s"
    using dense_set_laws.DenseSet_insert_set [OF laws assms(3-5)] unfolding I by blast
  obtain s2 where s2: "DenseSet_erase p V s = Inr (s2, V \<in> ds_set p s)" "dm_inv p s2"
    "ds_set p s2 = ds_set p s - {k. isEqual I k V}"
    using dense_set_laws.DenseSet_erase_set [OF laws assms(3,5)] unfolding I by blast
  have "DenseSet_count p V s1 = Inr 1" "DenseSet_count p V s2 = Inr 0"
    using count [OF s1(2)] count [OF s2(2)] s1(3) s2(3) V by simp_all
  then show ?thesis using s1 s2 count [OF assms(3)] by blast
qed

lemma empty_set_inv:
  "dm_inv (set_params ptr_info 0) \<lparr>Buckets = [], NumEntries = 0, NumTombstones = 0, NumBuckets = 0\<rparr>"
  by (simp add: dm_inv_def dm_shape_def dm_counts_def dm_distinct_def dm_reachable_def live_at_def live_list_def tomb_list_def)

theorem dense_set_correct_witness:
  "\<exists>s' i. DenseSet_insert (set_params ptr_info 0) 16 \<lparr>Buckets = [], NumEntries = 0, NumTombstones = 0, NumBuckets = 0\<rparr> =
      Inr (s', i, True) \<and> DenseSet_count (set_params ptr_info 0) 16 s' = Inr 1"
  using dense_set_correct [OF ptr_info.key_info_axioms refl empty_set_inv, of 16]
  by (auto simp: set_params_def is_live_key_def is_empty_key_def is_tombstone_key_def ptr_info_def ds_set_def
      dm_map_def live_list_def list_map_def)

text \<open>C31: A table keyed by C strings (\<open>DenseMapInfo<const char *>\<close>) goes by contents: a
  value stored under one pointer is found under another exactly when the two
  strings agree up to their first zero byte, whatever bytes follow, and
  otherwise the lookup answers as before.  The two reserved pointers are not
  keys, and the table holds fewer than \<open>2 ^ 24\<close> entries.\<close>

theorem string_keys_by_contents:
  assumes "dm_inv (map_params (cstring_info strings) d raw triv) m" "dm_sized e m" "e < 2 ^ 24"
    "p \<notin> {- 1, - 2}" "q \<notin> {- 1, - 2}"
  shows "\<exists>m' i w. FindAndConstruct (map_params (cstring_info strings) d raw triv) p m = Inr (m', i) \<and>
    dm_lookup (map_params (cstring_info strings) d raw triv) q m = Inr w \<and>
    dm_lookup (map_params (cstring_info strings) d raw triv) q (set_second i v m') =
      Inr (if c_str (strings p) = c_str (strings q) then v else w)"
proof -
  let ?P = "map_params (cstring_info strings) d raw triv"
  have live: "is_live_key ?P p" "is_live_key ?P q"
    using assms(4,5) by (simp_all add: cstring_live)
  have eq: "isEqual (KeyInfo ?P) q p \<longleftrightarrow> c_str (strings p) = c_str (strings q)"
    using assms(4,5) by (auto simp: map_params_def cstring_info_def)
  obtain m' i where m': "FindAndConstruct ?P p m = Inr (m', i)" "dm_inv ?P (set_second i v m')"
    "dm_map ?P (set_second i v m') = upd_eq (KeyInfo ?P) (dm_map ?P m) p (Some v)"
    using cstring_map.dm_step_refines [OF assms(1-3), of "Assign p v"] live(1) by (auto simp: bindE_eq_Inr)
  then show ?thesis
    using cstring_map.dm_lookup_spec [OF assms(1) live(2)] cstring_map.dm_lookup_spec [OF m'(2) live(2)] eq
    by (auto simp: upd_eq_def)
qed

definition sample_strings :: "u64 \<Rightarrow> u8 list" where
  "sample_strings a = (if a = 16 then [97, 98, 0, 99] else if a = 32 then [97, 98, 0] else [100, 0])"

theorem string_keys_by_contents_witness:
  "\<exists>m m' i. FindAndConstruct (map_params (cstring_info sample_strings) 0 (0, 0) True) 16 m = Inr (m', i) \<and>
    dm_lookup (map_params (cstring_info sample_strings) 0 (0, 0) True) 32 (set_second i (5 :: nat) m') = Inr 5"
proof -
  let ?P = "map_params (cstring_info sample_strings) 0 (0, 0) True :: (u64, nat) dm_params"
  have z: "(0 :: nat) \<le> 2 ^ 29" by simp
  obtain m where m: "dm_inv ?P m" "NumEntries m = 0" "NumBuckets m = getMinBucketToReserveForEntries 0"
    using cstring_map.dm_init_spec [OF z, where mem = sample_strings and d = "0 :: nat" and junk = "(0, 0)" and triv = True]
    by blast
  have "NumBuckets m = 0" unfolding m(3) by (simp only: cstring_map.min_buckets_spec(1) [OF z])
  then have "dm_sized 0 m" using m(2) by (simp add: dm_sized_def)
  from string_keys_by_contents [OF m(1) this, of 16 32 5] show ?thesis by (auto simp: sample_strings_def c_str_def)
qed

section \<open>The isa word and the side table\<close>

text \<open>C33: The class and the count share the isa word without disturbing each other, on
  all three layouts: a class that fits is read back after \<open>setClass\<close>, which
  leaves the count alone; adding one to the count carries out of
  the word exactly when the count field is full, and otherwise raises the
  field by one and keeps every lower bit.\<close>

theorem isa_word_fields:
  assumes "L = arm64e_layout \<or> L = arm64_layout \<or> L = x86_64_layout" "class_fits L c" "sign c obj = c"
    "addc w (RC_ONE L) 0 = (v, carry)"
  shows "getClass L (setClass L sign c obj w) = c \<and> isa_extra_rc L (setClass L sign c obj w) = isa_extra_rc L w \<and>
    (carry \<longleftrightarrow> isa_extra_rc L w + 1 = 2 ^ extra_rc_width L) \<and>
    (\<not> carry \<longrightarrow> isa_extra_rc L v = isa_extra_rc L w + 1 \<and>
      take_bit (extra_rc_shift L) v = take_bit (extra_rc_shift L) w)"
proof -
  have p: "packed_isa L" using assms(1) arm64e.packed_isa_axioms arm64.packed_isa_axioms x86_64.packed_isa_axioms by auto
  show ?thesis
    using packed_isa.getClass_setClass [OF p assms(2), of sign obj w] assms(3) packed_isa.setClass_fields(3) [OF p, of sign c obj w]
      packed_isa.addc_one [OF p assms(4)] by blast
qed

theorem isa_word_fields_witness:
  "getClass x86_64_layout (setClass x86_64_layout (\<lambda>c _. c) 4096 16 0) = 4096 \<and>
    isa_extra_rc x86_64_layout (RC_ONE x86_64_layout) = isa_extra_rc x86_64_layout 0 + 1"
proof -
  have "addc 0 (RC_ONE x86_64_layout) 0 = (RC_ONE x86_64_layout, False)" by (simp add: addc_def x86_64_layout_def)
  from isa_word_fields [of x86_64_layout 4096 "\<lambda>c _. c" 16, OF _ x86_class_fits(1) _ this] show ?thesis by simp
qed

text \<open>C32: Borrowing counts from the side table and putting them back is exact: after
  \<open>sidetable_subExtraRC_nolock\<close> takes \<open>n\<close> counts that are there,
  \<open>sidetable_addExtraRC_nolock\<close> of \<open>n\<close> restores the very same table and reports
  no overflow.  This is what \<open>rootRelease\<close> relies on when its store fails.\<close>

theorem sidetable_borrow_roundtrip:
  assumes "isa_nonpointer w" "isa_nonpointer w'" "table_ok u t" "valid_object this"
    "4 dvd unat (rc_word u t this)" "0 < unat n" "4 * unat n \<le> unat (rc_word u t this)"
    "unat (rc_word u t this) < 2 ^ 63"
  shows "\<exists>t' r. sidetable_subExtraRC_nolock u this w n t = Inr (t', n, r) \<and>
    unat r = unat (rc_word u t this) div 4 - unat n \<and> sidetable_addExtraRC_nolock u this w' n t' = Inr (t, False)"
proof -
  obtain t' v where t': "sidetable_subExtraRC_nolock u this w n t = Inr (t', n, drop_bit 2 v)"
    "unat v = unat (rc_word u t this) - 4 * unat n"
    using subExtraRC_spec [OF assms(1,3,4,5,6,7)] by blast
  obtain q where q: "unat (rc_word u t this) = 4 * q" using assms(5) by (elim dvdE)
  have "unat (drop_bit 2 v) = unat (rc_word u t this) div 4 - unat n"
    using t'(2) unfolding q by (simp add: unat_drop_bit_div flip: diff_mult_distrib2)
  then show ?thesis using t'(1) sub_add_restores [OF assms t'(1)] by blast
qed

theorem sidetable_borrow_roundtrip_witness:
  "\<exists>t' r. sidetable_subExtraRC_nolock (0, 0) 16 (isa x86_side_object) 64 (table x86_side_object) = Inr (t', 64, r) \<and>
    unat r = 64 \<and> sidetable_addExtraRC_nolock (0, 0) 16 (isa x86_side_object) 64 t' = Inr (table x86_side_object, False)"
  using sidetable_borrow_roundtrip [of "isa x86_side_object" "isa x86_side_object" "(0, 0)" "table x86_side_object" 16 64]
    x86_side_object_ok(1) by (simp add: x86_side_object_ok obj_wf_def)

section \<open>Classes\<close>

text \<open>C20: The size of a new instance: once \<open>setInstanceSize\<close> has recorded a size of
  \<open>n > 0\<close> bytes, \<open>instanceSize(extra)\<close> returns at least \<open>n + extra\<close> and at least
  16 bytes, less than 23 more than asked, the same number whether the
  compiler knew \<open>extra\<close> or not, and whether the size fits the cache's field or
  the slow path is taken.\<close>

theorem instanceSize_bounds:
  assumes "setInstanceSize n c = Inr c'" "0 < n" "unat n + 7 < 2 ^ 32" "unat extra < 2 ^ 63"
  shows "\<exists>s. instanceSize True extra c' = Inr s \<and> instanceSize False extra c' = Inr s \<and>
    unat n + unat extra \<le> unat s \<and> 16 \<le> unat s \<and> unat s < unat n + unat extra + 23"
proof -
  obtain s s2 where s: "instanceSize True extra c' = Inr s" "unat s = alloc_size (unat n) (unat extra)"
    "instanceSize False extra c' = Inr s2" "unat s2 = alloc_size (unat n) (unat extra)"
    using instanceSize_installed [OF assms, of True] instanceSize_installed [OF assms, of False] by blast
  have "0 < unat n" using assms(2) by (simp add: unat_gt_0)
  note bounds = alloc_size_bounds(1-3) [OF this, of "unat extra"]
  have "s2 = s" using s(2,4) by (simp add: word_unat_eq_iff)
  then show ?thesis using s(1,3) bounds unfolding s(2) [symmetric] by blast
qed

theorem instanceSize_bounds_witness:
  "\<exists>c' s. setInstanceSize 24 sample_class = Inr c' \<and> instanceSize True 0 c' = Inr s \<and> instanceSize False 0 c' = Inr s \<and>
    24 \<le> unat s"
  using sample_class_sized [of 24] instanceSize_bounds [of 24 sample_class _ 0] by fastforce

text \<open>C40: The promise of 16 bytes is not kept for a class of size zero: the field then
  holds only the rounding offset, so that with an \<open>extra\<close> of zero that the
  compiler does not know the fast path is taken and answers zero bytes, while
  the same call with a known zero answers 16.\<close>

theorem instanceSize_zero:
  assumes "setInstanceSize 0 c = Inr c'"
  shows "instanceSize False 0 c' = Inr 0 \<and> instanceSize True 0 c' = Inr 16"
  using instanceSize_empty [OF assms] by blast

theorem instanceSize_zero_witness:
  "\<exists>c'. setInstanceSize 0 sample_class = Inr c' \<and> instanceSize False 0 c' = Inr 0 \<and> instanceSize True 0 c' = Inr 16"
  using sample_class_sized [of 0] instanceSize_zero by blast

text \<open>C34: \<open>class_rw_t::changeFlags\<close> is atomic: whatever other threads do to the flag
  word, the loop ends with one store, which comes right after a first part of
  what they do and before the rest.  That part contains the step that races
  with the loop's read, so no change of another thread is lost: the word
  stored is the word as they left it with the given bits set and cleared.  The
  loop tries again only when the word had changed, and overlapping sets are
  refused.\<close>

theorem changeFlags_atomic:
  "if st AND clear \<noteq> 0 then changeFlags st clear env flags = Inl AssertFailed
   else \<exists>pre post w. env = pre @ post \<and> changeFlags st clear env flags = Inr (post, w) \<and>
     (pre = [] \<longleftrightarrow> env = []) \<and> (\<forall>i. bit w i \<longleftrightarrow> \<not> bit clear i \<and> (bit st i \<or> bit (interfere pre flags) i)) \<and>
     \<not> (\<exists>i. Suc i < length pre \<and> interfere (take (Suc i) pre) flags = interfere (take i pre) flags)"
proof (cases "st AND clear = 0")
  case True
  obtain pre post where p: "env = pre @ post"
    "changeFlags_loop st clear env flags = (post, change_bits st clear (interfere pre flags))" "env \<noteq> [] \<longrightarrow> pre \<noteq> []"
    "\<forall>i. Suc i < length pre \<longrightarrow> interfere (take (Suc i) pre) flags \<noteq> interfere (take i pre) flags"
    using changeFlags_loop_linear [of env st clear flags] by blast
  have "changeFlags st clear env flags = Inr (post, change_bits st clear (interfere pre flags))"
    using True p(2) by (simp add: changeFlags_def)
  then show ?thesis using True p(1,3,4)
    by (auto simp: bit_change_bits intro!: exI [of _ pre] exI [of _ post])
qed (simp add: changeFlags_def)

section \<open>Pointers and bits\<close>

text \<open>C36: A \<open>PointerUnion\<close> remembers which of its two types it was made from and gives
  the pointer back, for signed pointers too: for any hardware that
  authenticates what it signed and leaves the low bits of a canonical pointer,
  both constructors round-trip and asking for the other type fails the
  assertion.  \<open>PointerUnion4\<close> does so for its four types.\<close>

theorem pointer_union_roundtrip:
  assumes auth: "\<forall>p d. canonical p \<longrightarrow> hw_auth (hw_sign p d) d = p"
    and sign: "\<forall>p d. canonical p \<and> p \<noteq> nil \<longrightarrow> hw_sign p d \<noteq> nil \<and> hw_sign p d AND 3 = p AND 3"
    and t: "canonical t" "t AND 3 = 0"
    and v1: "v1 = PointerUnion_T1 (Ptrauth_sign hw_sign blend) t a"
    and v2: "v2 = PointerUnion_T2 (Ptrauth_sign hw_sign blend) t a"
  shows "PointerUnion_get (Ptrauth_auth hw_auth blend) PT1 v1 a = Inr t \<and>
    PointerUnion_get (Ptrauth_auth hw_auth blend) PT2 v1 a = Inl AssertFailed \<and>
    PointerUnion_get (Ptrauth_auth hw_auth blend) PT2 v2 a = Inr t \<and>
    PointerUnion_get (Ptrauth_auth hw_auth blend) PT1 v2 a = Inl AssertFailed \<and>
    PointerUnion4_get T (PointerUnion4 U t) = (if T = U then Inr t else Inl AssertFailed)"
proof -
  have laws: "ptrauth (Ptrauth_sign hw_sign blend) (Ptrauth_auth hw_auth blend) canonical"
    using auth sign by (intro Ptrauth_is_ptrauth) auto
  have "t AND 1 = (t AND 3) AND 1" by (simp add: and.assoc)
  then have low: "t AND 1 = 0" using t(2) by simp
  note p1 = ptrauth.union_T1 [OF laws t(1) low, of a] and p2 = ptrauth.union_T2 [OF laws t(1) low, of a]
  note p4 = PointerUnion4_roundtrip [OF t(2)]
  show ?thesis
    using p1 p2 p4 unfolding v1 v2 by (auto simp: PointerUnion_get_def [where T = PT1] PointerUnion_get_def [where T = PT2]
        PointerUnion4_get_def)
qed

lemma key_byte_auth: "take_bit 56 (p :: u64) = p \<Longrightarrow> take_bit 56 (p OR push_bit 56 d) = p"
  by (rule bit_word_eqI) (auto simp: word_eq_iff_bit bit_take_bit_iff bit_or_iff bit_push_bit_iff)

lemma key_byte_low: "(p OR push_bit 56 d) AND 3 = p AND (3 :: u64)"
proof -
  have 3: "(3 :: u64) = mask 2" by (simp add: mask_eq_exp_minus_1)
  show ?thesis unfolding 3 by (rule bit_word_eqI) (unfold bit_and_iff bit_or_iff bit_push_bit_iff bit_mask_iff, auto)
qed

theorem pointer_union_roundtrip_witness:
  "PointerUnion_get (Ptrauth_auth (\<lambda>p d. take_bit 56 p) id) PT2
    (PointerUnion_T2 (Ptrauth_sign (\<lambda>p d. p OR push_bit 56 d) id) 4096 7) 7 = Inr 4096"
proof -
  let ?sign = "\<lambda>p d :: u64. p OR push_bit 56 d" and ?auth = "\<lambda>p d :: u64. take_bit 56 p"
  have a: "\<forall>p d. take_bit 56 p = p \<longrightarrow> ?auth (?sign p d) d = p" using key_byte_auth by blast
  have b: "\<forall>p d. take_bit 56 p = p \<and> p \<noteq> nil \<longrightarrow> ?sign p d \<noteq> nil \<and> ?sign p d AND 3 = p AND 3"
    using key_byte_low by (simp add: or_eq_0_iff)
  show ?thesis using pointer_union_roundtrip [OF a b, of 4096 _ id 7] by simp
qed

text \<open>C37: The portable bit counting loops of \<open>llvm-MathExtras.h\<close>, by bisection and by
  the tables modulo 37 and 67, compute the same as the compiler's builtins for
  every argument, zero included, on machines with 32-bit and 64-bit \<open>long\<close>.\<close>

theorem portable_bit_counts:
  "CountLeadingZeros_32_portable v = CountLeadingZeros_32 v \<and>
    CountLeadingZeros_64_portable long_is_64 w = CountLeadingZeros_64 w \<and>
    CountTrailingZeros_32_portable v = CountTrailingZeros_32 v \<and>
    CountTrailingZeros_64_portable w = CountTrailingZeros_64 w"
  by (simp add: CountLeadingZeros_32_portable_eq CountLeadingZeros_64_portable_eq CountTrailingZeros_32_portable_eq
      CountTrailingZeros_64_portable_eq)

end
